(* ===== verification/RPrelude.thy ===== *)
theory RPrelude imports Main "HOL-Library.Word" "HOL-Library.Monad_Syntax" begin

text \<open>
  Shared vocabulary of the development.

  \<^item> Machine types: bytes and fixed-width integers are words; \<open>usize\<close> indices and
    lengths that the code keeps below a buffer bound are natural numbers.
  \<^item> Panics: a Rust expression that may panic (slice indexing, slicing, unsigned
    subtraction under overflow checks) is an \<open>option\<close>, \<open>None\<close> being the panic.
    Component theorems then state that the operation returns \<open>Some\<close>.
  \<^item> The collections \<open>rust_simps\<close> (checked accesses) and \<open>inv_defs\<close>
    (representation invariants) feed the component proofs.
\<close>

named_theorems rust_simps
named_theorems inv_defs

type_synonym byte = "8 word"
type_synonym u16 = "16 word"
type_synonym u32 = "32 word"
type_synonym u64 = "64 word"

section \<open>Checked accesses\<close>

text \<open>\<open>xs[i]\<close>, \<open>xs[i] = v\<close>, \<open>&xs[a..b]\<close> and \<open>a - b\<close> on unsigned integers.\<close>

definition aget :: "'a list \<Rightarrow> nat \<Rightarrow> 'a option" where
  "aget xs i = (if i < length xs then Some (xs ! i) else None)"

definition aset :: "'a list \<Rightarrow> nat \<Rightarrow> 'a \<Rightarrow> 'a list option" where
  "aset xs i v = (if i < length xs then Some (xs[i := v]) else None)"

definition aslice :: "'a list \<Rightarrow> nat \<Rightarrow> nat \<Rightarrow> 'a list option" where
  "aslice xs a b = (if a \<le> b \<and> b \<le> length xs then Some (take (b - a) (drop a xs)) else None)"

definition csub :: "nat \<Rightarrow> nat \<Rightarrow> nat option" where
  "csub a b = (if b \<le> a then Some (a - b) else None)"

lemma aget_in [rust_simps]: "i < length xs \<Longrightarrow> aget xs i = Some (xs ! i)"
  by (simp add: aget_def)

lemma aget_Some_iff: "aget xs i = Some v \<longleftrightarrow> i < length xs \<and> xs ! i = v"
  by (auto simp: aget_def)

lemma aset_in [rust_simps]: "i < length xs \<Longrightarrow> aset xs i v = Some (xs[i := v])"
  by (simp add: aset_def)

lemma aset_Some_iff: "aset xs i v = Some ys \<longleftrightarrow> i < length xs \<and> ys = xs[i := v]"
  by (auto simp: aset_def)

lemma aslice_in [rust_simps]:
  "a \<le> b \<Longrightarrow> b \<le> length xs \<Longrightarrow> aslice xs a b = Some (take (b - a) (drop a xs))"
  by (simp add: aslice_def)

lemma aslice_Some_iff:
  "aslice xs a b = Some ys \<longleftrightarrow> a \<le> b \<and> b \<le> length xs \<and> ys = take (b - a) (drop a xs)"
  by (auto simp: aslice_def)

lemma csub_in [rust_simps]: "b \<le> a \<Longrightarrow> csub a b = Some (a - b)"
  by (simp add: csub_def)

lemma csub_Some_iff: "csub a b = Some c \<longleftrightarrow> b \<le> a \<and> c = a - b"
  by (auto simp: csub_def)

text \<open>\<open>a + b\<close> on \<open>u64\<close> and \<open>usize\<close> with overflow checks, as the default build profile has them.\<close>

definition cadd64 :: "nat \<Rightarrow> nat \<Rightarrow> nat option" where
  "cadd64 a b = (if a + b < 2 ^ 64 then Some (a + b) else None)"

lemma cadd64_in [rust_simps]: "a + b < 2 ^ 64 \<Longrightarrow> cadd64 a b = Some (a + b)"
  by (simp add: cadd64_def)

definition cmul64 :: "nat \<Rightarrow> nat \<Rightarrow> nat option" where
  "cmul64 a b = (if a * b < 2 ^ 64 then Some (a * b) else None)"

lemma cmul64_in [rust_simps]: "a * b < 2 ^ 64 \<Longrightarrow> cmul64 a b = Some (a * b)"
  by (simp add: cmul64_def)

lemma cadd64_Some_iff: "cadd64 a b = Some c \<longleftrightarrow> a + b < 2 ^ 64 \<and> c = a + b"
  by (auto simp: cadd64_def)

section \<open>Counting loops\<close>

text \<open>\<open>for i in a..b\<close> is a loop over \<open>[a..<b]\<close>, and with \<open>.rev()\<close> over its reverse; a panic in the
  body ends it. The two rules are the loop invariant rules the component proofs use.\<close>

primrec for_each :: "'a list \<Rightarrow> ('a \<Rightarrow> 's \<Rightarrow> 's option) \<Rightarrow> 's \<Rightarrow> 's option" where
  "for_each [] f s = Some s"
| "for_each (x # xs) f s = Option.bind (f x s) (for_each xs f)"

lemma for_each_Nil [simp]: "for_each [] f = Some"
  by (simp add: fun_eq_iff)

lemma for_each_append: "for_each (xs @ ys) f s = Option.bind (for_each xs f s) (for_each ys f)"
  by (induction xs arbitrary: s) (auto split: bind_splits)

lemma for_each_up:
  assumes "a \<le> b" "I a s"
    and "\<And>i s. a \<le> i \<Longrightarrow> i < b \<Longrightarrow> I i s \<Longrightarrow> \<exists>s'. f i s = Some s' \<and> I (Suc i) s'"
  shows "\<exists>s'. for_each [a..<b] f s = Some s' \<and> I b s'"
  using assms
proof (induction b rule: dec_induct)
  case base
  then show ?case by simp
next
  case (step n)
  then obtain s1 where "for_each [a..<n] f s = Some s1" "I n s1" by (metis less_SucI)
  moreover obtain s2 where "f n s1 = Some s2" "I (Suc n) s2" using step calculation(2) by blast
  ultimately show ?case using step(1) by (simp add: for_each_append)
qed

lemma for_each_down:
  assumes "a \<le> b" "I b s"
    and "\<And>i s. a \<le> i \<Longrightarrow> i < b \<Longrightarrow> I (Suc i) s \<Longrightarrow> \<exists>s'. f i s = Some s' \<and> I i s'"
  shows "\<exists>s'. for_each (rev [a..<b]) f s = Some s' \<and> I a s'"
  using assms
proof (induction b arbitrary: s rule: dec_induct)
  case base
  then show ?case by simp
next
  case (step n)
  then obtain s1 where s1: "f n s = Some s1" "I n s1" by blast
  then have "\<exists>s'. for_each (rev [a..<n]) f s1 = Some s' \<and> I a s'" using step by (meson less_SucI)
  then show ?case using s1 step(1) by simp
qed

lemma for_each_keeps:
  assumes "I s" "\<And>x s. x \<in> set xs \<Longrightarrow> I s \<Longrightarrow> \<exists>s'. f x s = Some s' \<and> I s'"
  shows "\<exists>s'. for_each xs f s = Some s' \<and> I s'"
  using assms by (induction xs arbitrary: s) fastforce+

section \<open>Words\<close>

definition trailing_zeros :: "'a::len word \<Rightarrow> nat" where
  "trailing_zeros w = (case find (bit w) [0..<LENGTH('a)] of Some i \<Rightarrow> i | None \<Rightarrow> LENGTH('a))"

definition count_zeros :: "'a::len word \<Rightarrow> nat" where
  "count_zeros w = length (filter (\<lambda>i. \<not> bit w i) [0..<LENGTH('a)])"

lemma word_bit_bound: "bit (w :: 'a::len word) i \<Longrightarrow> i < LENGTH('a)"
  using bit_imp_le_length [of w i] by simp

lemma word_nonzero_bit: "(w :: 'a::len word) \<noteq> 0 \<Longrightarrow> \<exists>i < LENGTH('a). bit w i"
  by (metis bit_eqI word_bit_bound bit_0_eq bot_apply bot_bool_def)

lemma trailing_zeros_least:
  fixes w :: "'a::len word"
  assumes "w \<noteq> 0"
  shows "bit w (trailing_zeros w) \<and> (\<forall>j < trailing_zeros w. \<not> bit w j)"
proof -
  obtain i where i: "i < LENGTH('a)" "bit w i" using word_nonzero_bit [OF assms] by blast
  then have "find (bit w) [0..<LENGTH('a)] \<noteq> None"
    by (auto simp: find_None_iff)
  then obtain k where k: "find (bit w) [0..<LENGTH('a)] = Some k" by blast
  then obtain m where "m < length [0..<LENGTH('a)]" "bit w ([0..<LENGTH('a)] ! m)" "k = [0..<LENGTH('a)] ! m"
    "\<forall>j<m. \<not> bit w ([0..<LENGTH('a)] ! j)"
    by (auto simp: find_Some_iff)
  then show ?thesis using k by (simp add: trailing_zeros_def)
qed

lemma unat_of_nat_small: "n < 2 ^ LENGTH('a) \<Longrightarrow> unat (of_nat n :: 'a::len word) = n"
  by (simp add: unsigned_of_nat take_bit_nat_eq_self_iff)

lemma unat_word_less: "unat (w :: 'a::len word) < 2 ^ LENGTH('a)"
  by (rule unsigned_less)

unbundle bit_operations_syntax

lemma bit_or_one:
  "n < LENGTH('a) \<Longrightarrow> bit ((w :: 'a::len word) OR push_bit n 1) m \<longleftrightarrow> m = n \<or> bit w m"
  by (auto simp: bit_or_iff bit_exp_iff)

lemma bit_and_not_one:
  "n < LENGTH('a) \<Longrightarrow> bit ((w :: 'a::len word) AND NOT (push_bit n 1)) m \<longleftrightarrow> m \<noteq> n \<and> bit w m"
  by (auto simp: bit_and_iff bit_not_iff bit_exp_iff dest: word_bit_bound)

section \<open>Row-major indices\<close>

lemma mul_le_trans: "r \<le> i \<Longrightarrow> i * w \<le> k \<Longrightarrow> r * w \<le> (k :: nat)"
  by (meson mult_le_mono1 order_trans)

lemma mul_add_le: "i < r \<Longrightarrow> i * w + w \<le> r * (w :: nat)"
  using mult_le_mono1 [of "Suc i" r w] by simp

lemma index_less: "r < m \<Longrightarrow> c < w \<Longrightarrow> r * w + c < m * (w :: nat)"
  using mul_add_le [of r m w] by linarith

lemma index_le_iff: "c < w \<Longrightarrow> a * w \<le> r * w + c \<longleftrightarrow> a \<le> (r :: nat)"
  using mul_add_le [of r a w] mul_le_trans [of a r w "r * w + c"] by (cases "a \<le> r") auto

lemma index_less_iff: "c < w \<Longrightarrow> r * w + c < a * w \<longleftrightarrow> r < (a :: nat)"
  using index_le_iff [of c w a r] by (simp add: not_le [symmetric])

section \<open>Lists\<close>

lemma take_add_nth: "n < length xs \<Longrightarrow> take n xs @ [xs ! n] = take (Suc n) xs"
  by (simp add: take_Suc_conv_app_nth)

lemma map_nth_upt_shift: "n \<le> length xs - k \<Longrightarrow> map (\<lambda>i. xs ! (k + i)) [0..<n] = take n (drop k xs)"
  by (rule nth_equalityI) (auto simp: nth_take nth_drop)

lemma keep_last:
  assumes "0 < L" "s = drop (length xs - L) xs"
  shows "(if length (s @ [x]) > L then tl (s @ [x]) else s @ [x]) = drop (length (xs @ [x]) - L) (xs @ [x])"
proof (cases "length xs < L")
  case True
  then show ?thesis using assms by simp
next
  case False
  then have s: "s @ [x] = drop (length xs - L) (xs @ [x])" "length s = L" using assms by simp_all
  have "tl (s @ [x]) = drop (Suc (length xs - L)) (xs @ [x])" by (simp only: s(1) tl_drop drop_Suc)
  then show ?thesis using False s(2) by (simp add: Suc_diff_le)
qed

section \<open>Bounded FIFO byte queues\<close>

text \<open>
  The contract shared by the kernel's byte buffers: a writer is told how many bytes were
  taken (as many as fit), a reader gets the oldest bytes (as many as it asked for and are
  there), and neither panics. Client lemmas: bytes come out exactly once, in order, over any
  interleaving of writes and reads.
\<close>

datatype queue_op = QPut "byte list" | QGet nat

locale byte_queue =
  fixes contents :: "'q \<Rightarrow> byte list"
    and invar :: "'q \<Rightarrow> bool"
    and capacity :: nat
    and put :: "'q \<Rightarrow> byte list \<Rightarrow> ('q \<times> nat) option"
    and get :: "'q \<Rightarrow> nat \<Rightarrow> ('q \<times> byte list) option"
  assumes bound: "invar q \<Longrightarrow> length (contents q) \<le> capacity"
    and put_ok: "invar q \<Longrightarrow> \<exists>q'. put q d = Some (q', min (length d) (capacity - length (contents q)))
        \<and> invar q' \<and> contents q' = contents q @ take (capacity - length (contents q)) d"
    and get_ok: "invar q \<Longrightarrow> \<exists>q'. get q n = Some (q', take n (contents q))
        \<and> invar q' \<and> contents q' = drop n (contents q)"
begin

text \<open>A run of operations, with the bytes accepted by the puts and returned by the gets.\<close>

fun run :: "'q \<Rightarrow> queue_op list \<Rightarrow> ('q \<times> byte list \<times> byte list) option" where
  "run q [] = Some (q, [], [])"
| "run q (QPut d # ops) = (case put q d of None \<Rightarrow> None | Some (q', n) \<Rightarrow>
     (case run q' ops of None \<Rightarrow> None | Some (r, ins, outs) \<Rightarrow> Some (r, take n d @ ins, outs)))"
| "run q (QGet n # ops) = (case get q n of None \<Rightarrow> None | Some (q', bs) \<Rightarrow>
     (case run q' ops of None \<Rightarrow> None | Some (r, ins, outs) \<Rightarrow> Some (r, ins, bs @ outs)))"

lemma run_fifo:
  "invar q \<Longrightarrow> \<exists>r ins outs. run q ops = Some (r, ins, outs) \<and> invar r
     \<and> contents q @ ins = outs @ contents r"
proof (induction ops arbitrary: q)
  case Nil
  then show ?case by simp
next
  case (Cons op ops)
  show ?case
  proof (cases op)
    case (QPut d)
    from put_ok [OF Cons.prems, of d] obtain q' where
      p: "put q d = Some (q', min (length d) (capacity - length (contents q)))" "invar q'"
        "contents q' = contents q @ take (capacity - length (contents q)) d" by blast
    from Cons.IH [OF p(2)] p show ?thesis
      by (fastforce simp: QPut min_def)
  next
    case (QGet n)
    from get_ok [OF Cons.prems, of n] obtain q' where
      p: "get q n = Some (q', take n (contents q))" "invar q'"
        "contents q' = drop n (contents q)" by blast
    from Cons.IH [OF p(2)] obtain r ins outs where
      r: "run q' ops = Some (r, ins, outs)" "invar r" "drop n (contents q) @ ins = outs @ contents r"
      using p(3) by auto
    have "contents q @ ins = take n (contents q) @ (drop n (contents q) @ ins)"
      by (simp only: append_assoc [symmetric] append_take_drop_id)
    then show ?thesis using p r by (simp add: QGet)
  qed
qed

end

end
