(* ===== verification/Inode.thy ===== *)
theory Inode imports RPrelude begin

text \<open>
  \<open>kernel/src/vfs/inode.rs\<close> and \<open>kernel/src/syscall/error.rs\<close>: the types every file system and
  every system call shares. The trait \<open>InodeOps\<close> is a record of functions over the state
  \<open>'s\<close> of the file system behind the trait object; an operation that may panic returns
  \<open>None\<close>, one that fails returns \<open>Inl\<close>.
\<close>

unbundle bit_operations_syntax

type_synonym InodeNum = nat

datatype FileType = Regular | Directory | CharDevice | BlockDevice | FTPipe | FTSocket | FTSymlink

fun file_type_bits :: "FileType \<Rightarrow> u32" where
  "file_type_bits Regular = 0x8000"
| "file_type_bits Directory = 0x4000"
| "file_type_bits CharDevice = 0x2000"
| "file_type_bits BlockDevice = 0x6000"
| "file_type_bits FTPipe = 0x1000"
| "file_type_bits FTSocket = 0xC000"
| "file_type_bits FTSymlink = 0xA000"

type_synonym FileMode = u32

definition file_mode_new :: "u32 \<Rightarrow> FileMode" where
  "file_mode_new m = m AND 0xFFF"

definition owner_read :: "FileMode \<Rightarrow> bool" where "owner_read m \<longleftrightarrow> m AND 0x100 \<noteq> 0"
definition owner_write :: "FileMode \<Rightarrow> bool" where "owner_write m \<longleftrightarrow> m AND 0x80 \<noteq> 0"
definition owner_exec :: "FileMode \<Rightarrow> bool" where "owner_exec m \<longleftrightarrow> m AND 0x40 \<noteq> 0"

record InodeMetadata =
  im_ino :: InodeNum
  im_file_type :: FileType
  im_mode :: FileMode
  im_uid :: u32
  im_gid :: u32
  im_size :: nat
  im_nlink :: nat
  im_atime :: nat
  im_mtime :: nat
  im_ctime :: nat
  im_dev_major :: nat
  im_dev_minor :: nat

definition inode_metadata_new :: "InodeNum \<Rightarrow> FileType \<Rightarrow> InodeMetadata" where
  "inode_metadata_new ino ft = \<lparr>im_ino = ino, im_file_type = ft, im_mode = file_mode_new 0x1A4,
     im_uid = 0, im_gid = 0, im_size = 0, im_nlink = 1, im_atime = 0, im_mtime = 0, im_ctime = 0,
     im_dev_major = 0, im_dev_minor = 0\<rparr>"

definition inode_metadata_default :: InodeMetadata where
  "inode_metadata_default = inode_metadata_new 0 Regular"

datatype VfsError = NotFound | PermissionDenied | NotADirectory | IsADirectory | AlreadyExists
  | NoSpace | IoError | NotImplemented | InvalidArgument | BadFileDescriptor | TooManyOpenFiles
  | BrokenPipe | WouldBlock | DirectoryNotEmpty

type_synonym 'a VfsResult = "VfsError + 'a"

record DirEntry =
  de_name :: string
  de_ino :: InodeNum
  de_file_type :: FileType

record 's InodeOps =
  iop_read :: "'s \<Rightarrow> nat \<Rightarrow> nat \<Rightarrow> (byte list VfsResult \<times> 's) option"
  iop_write :: "'s \<Rightarrow> nat \<Rightarrow> byte list \<Rightarrow> (nat VfsResult \<times> 's) option"
  iop_metadata :: "'s \<Rightarrow> InodeMetadata VfsResult"
  iop_set_metadata :: "'s \<Rightarrow> InodeMetadata \<Rightarrow> unit VfsResult \<times> 's"
  iop_lookup :: "'s \<Rightarrow> string \<Rightarrow> InodeNum VfsResult"
  iop_readdir :: "'s \<Rightarrow> DirEntry list VfsResult"
  iop_truncate :: "'s \<Rightarrow> nat \<Rightarrow> (unit VfsResult \<times> 's) option"

section \<open>System call errors\<close>

datatype SyscallError = EPERM | ENOENT | ESRCH | EINTR | EIO | ENXIO | EBADF | EAGAIN | ENOMEM
  | EACCES | EFAULT | EEXIST | ENOTDIR | EISDIR | EINVAL | ENFILE | EMFILE | ENOSPC | ERANGE
  | ENAMETOOLONG | ENOSYS | ENOEXEC | ENOTEMPTY | ECHILD | EPIPE | ENOTTY | ECONNREFUSED
  | EADDRINUSE | ENOTCONN | ETIMEDOUT | EXDEV

fun as_i64 :: "SyscallError \<Rightarrow> int" where
  "as_i64 EPERM = -1" | "as_i64 ENOENT = -2" | "as_i64 ESRCH = -3" | "as_i64 EINTR = -4"
| "as_i64 EIO = -5" | "as_i64 ENXIO = -6" | "as_i64 EBADF = -9" | "as_i64 EAGAIN = -11"
| "as_i64 ENOMEM = -12" | "as_i64 EACCES = -13" | "as_i64 EFAULT = -14" | "as_i64 EEXIST = -17"
| "as_i64 ENOTDIR = -20" | "as_i64 EISDIR = -21" | "as_i64 EINVAL = -22" | "as_i64 ENFILE = -23"
| "as_i64 EMFILE = -24" | "as_i64 ENOSPC = -28" | "as_i64 ERANGE = -34"
| "as_i64 ENAMETOOLONG = -36" | "as_i64 ENOSYS = -38" | "as_i64 ENOEXEC = -8"
| "as_i64 ENOTEMPTY = -39" | "as_i64 ECHILD = -10" | "as_i64 EPIPE = -32" | "as_i64 ENOTTY = -25"
| "as_i64 ECONNREFUSED = -111" | "as_i64 EADDRINUSE = -98" | "as_i64 ENOTCONN = -107"
| "as_i64 ETIMEDOUT = -110" | "as_i64 EXDEV = -18"

type_synonym 'a SyscallResult = "SyscallError + 'a"

definition result_to_raw :: "int SyscallResult \<Rightarrow> int" where
  "result_to_raw r = (case r of Inr v \<Rightarrow> v | Inl e \<Rightarrow> as_i64 e)"

fun map_vfs_error :: "VfsError \<Rightarrow> SyscallError" where
  "map_vfs_error NotFound = ENOENT"
| "map_vfs_error PermissionDenied = EACCES"
| "map_vfs_error NotADirectory = ENOTDIR"
| "map_vfs_error IsADirectory = EISDIR"
| "map_vfs_error AlreadyExists = EEXIST"
| "map_vfs_error NoSpace = ENOSPC"
| "map_vfs_error InvalidArgument = EINVAL"
| "map_vfs_error BadFileDescriptor = EBADF"
| "map_vfs_error TooManyOpenFiles = EMFILE"
| "map_vfs_error BrokenPipe = EIO"
| "map_vfs_error WouldBlock = EAGAIN"
| "map_vfs_error DirectoryNotEmpty = ENOTEMPTY"
| "map_vfs_error IoError = EIO"
| "map_vfs_error NotImplemented = EIO"

lemma as_i64_negative: "as_i64 e < 0"
  by (cases e) simp_all

lemma as_i64_inject: "as_i64 e = as_i64 f \<longleftrightarrow> e = f"
  by (cases e; cases f; simp)

text \<open>A raw return value is an error code exactly when the result was an error.\<close>

lemma result_to_raw_error_iff:
  "(\<And>v. r = Inr v \<Longrightarrow> 0 \<le> v) \<Longrightarrow> result_to_raw r < 0 \<longleftrightarrow> isl r"
  by (cases r) (auto simp: result_to_raw_def as_i64_negative)

end
