(* ===== verification/Signals.thy ===== *)
theory Signals imports Inode begin

text \<open>
  \<open>kernel/src/task/signal.rs\<close> and the signal half of \<open>kernel/src/syscall/handlers.rs\<close>:
  the pending/blocked masks, the handler table, \<open>sys_sigaction\<close>'s update of it, and the
  delivery loop run on every return from a system call.
\<close>

datatype Signal = SIGHUP | SIGINT | SIGQUIT | SIGILL | SIGTRAP | SIGABRT | SIGFPE | SIGKILL
  | SIGUSR1 | SIGSEGV | SIGUSR2 | SIGPIPE | SIGALRM | SIGTERM | SIGCHLD | SIGCONT | SIGSTOP
  | SIGTSTP | SIGTTIN | SIGTTOU | SIGWINCH

text \<open>The discriminants: \<open>sig as u8\<close>.\<close>

fun signal_num :: "Signal \<Rightarrow> nat" where
  "signal_num SIGHUP = 1" | "signal_num SIGINT = 2" | "signal_num SIGQUIT = 3"
| "signal_num SIGILL = 4" | "signal_num SIGTRAP = 5" | "signal_num SIGABRT = 6"
| "signal_num SIGFPE = 8" | "signal_num SIGKILL = 9" | "signal_num SIGUSR1 = 10"
| "signal_num SIGSEGV = 11" | "signal_num SIGUSR2 = 12" | "signal_num SIGPIPE = 13"
| "signal_num SIGALRM = 14" | "signal_num SIGTERM = 15" | "signal_num SIGCHLD = 17"
| "signal_num SIGCONT = 18" | "signal_num SIGSTOP = 19" | "signal_num SIGTSTP = 20"
| "signal_num SIGTTIN = 21" | "signal_num SIGTTOU = 22" | "signal_num SIGWINCH = 28"

definition from_u8 :: "nat \<Rightarrow> Signal option" where
  "from_u8 n = (
     if n = 1 then Some SIGHUP else if n = 2 then Some SIGINT else if n = 3 then Some SIGQUIT
     else if n = 4 then Some SIGILL else if n = 5 then Some SIGTRAP else if n = 6 then Some SIGABRT
     else if n = 8 then Some SIGFPE else if n = 9 then Some SIGKILL else if n = 10 then Some SIGUSR1
     else if n = 11 then Some SIGSEGV else if n = 12 then Some SIGUSR2 else if n = 13 then Some SIGPIPE
     else if n = 14 then Some SIGALRM else if n = 15 then Some SIGTERM else if n = 17 then Some SIGCHLD
     else if n = 18 then Some SIGCONT else if n = 19 then Some SIGSTOP else if n = 20 then Some SIGTSTP
     else if n = 21 then Some SIGTTIN else if n = 22 then Some SIGTTOU else if n = 28 then Some SIGWINCH
     else None)"

definition signal_mask :: "Signal \<Rightarrow> u32" where
  "signal_mask s = push_bit (signal_num s) 1"

definition SIG_DFL :: u64 where "SIG_DFL = 0"
definition SIG_IGN :: u64 where "SIG_IGN = 1"

record SignalState =
  pending :: u32
  blocked :: u32
  handlers :: "u64 list"

definition signal_state_new :: SignalState where
  "signal_state_new = \<lparr>pending = 0, blocked = 0, handlers = replicate 32 0\<rparr>"

definition signal_send :: "SignalState \<Rightarrow> Signal \<Rightarrow> SignalState" where
  "signal_send s sig = s\<lparr>pending := pending s OR signal_mask sig\<rparr>"

definition deliverable :: "SignalState \<Rightarrow> u32" where
  "deliverable s = pending s AND NOT (blocked s)"

definition has_pending :: "SignalState \<Rightarrow> bool" where
  "has_pending s \<longleftrightarrow> deliverable s \<noteq> 0"

definition take_pending :: "SignalState \<Rightarrow> Signal option \<times> SignalState" where
  "take_pending s =
     (if deliverable s = 0 then (None, s)
      else case from_u8 (trailing_zeros (deliverable s)) of
        None \<Rightarrow> (None, s)
      | Some sig \<Rightarrow> (Some sig, s\<lparr>pending := pending s AND NOT (signal_mask sig)\<rparr>))"

definition get_handler :: "SignalState \<Rightarrow> nat \<Rightarrow> u64 option" where
  "get_handler s n = (if n < 32 then aget (handlers s) n else Some SIG_DFL)"

definition set_handler :: "SignalState \<Rightarrow> nat \<Rightarrow> u64 \<Rightarrow> SignalState option" where
  "set_handler s n h =
     (if n < 32 then do { hs \<leftarrow> aset (handlers s) n h; Some (s\<lparr>handlers := hs\<rparr>) } else Some s)"

datatype SignalAction = Terminate | Ignore | Stop | Continue

fun default_action :: "Signal \<Rightarrow> SignalAction" where
  "default_action SIGCHLD = Ignore" | "default_action SIGCONT = Ignore"
| "default_action SIGWINCH = Ignore"
| "default_action SIGSTOP = Stop" | "default_action SIGTSTP = Stop"
| "default_action SIGTTIN = Stop" | "default_action SIGTTOU = Stop"
| "default_action _ = Terminate"

section \<open>Installing handlers\<close>

text \<open>
  \<open>sys_sigaction\<close> on the calling task: the user copies are the arguments. \<open>act\<close> is the result of reading
  the new action, if one is given; \<open>oldact\<close>, if that pointer is given, whether the check of the range
  succeeded and whether the final write did. The result is the old handler, which is what is
  written, or the error.
\<close>

definition sys_sigaction ::
  "SignalState \<Rightarrow> int \<Rightarrow> (SyscallError + u64) option \<Rightarrow> (bool \<times> bool) option
    \<Rightarrow> ((SyscallError + u64) \<times> SignalState) option" where
  "sys_sigaction s signum act oldact =
     (if signum \<le> 0 \<or> signum > 31 then Some (Inl EINVAL, s)
      else if signum = 9 \<or> signum = 19 then Some (Inl EINVAL, s)
      else if (case oldact of None \<Rightarrow> False | Some (checked, _) \<Rightarrow> \<not> checked) then Some (Inl EFAULT, s)
      else case act of
        Some (Inl e) \<Rightarrow> Some (Inl e, s)
      | _ \<Rightarrow> do {
          old \<leftarrow> get_handler s (nat signum);
          s \<leftarrow> (case act of Some (Inr h) \<Rightarrow> set_handler s (nat signum) h | _ \<Rightarrow> Some s);
          Some (if (case oldact of None \<Rightarrow> False | Some (_, written) \<Rightarrow> \<not> written) then Inl EFAULT else Inr old, s) })"

section \<open>The mask operations\<close>

lemma from_u8_signal_num [simp]: "from_u8 (signal_num s) = Some s"
  by (cases s) (simp_all add: from_u8_def)

lemma from_u8_Some_iff: "from_u8 n = Some s \<longleftrightarrow> n = signal_num s"
proof
  assume "from_u8 n = Some s"
  then show "n = signal_num s"
    unfolding from_u8_def by (simp split: if_split_asm)
next
  assume "n = signal_num s"
  then show "from_u8 n = Some s" by simp
qed

lemma signal_num_bound: "0 < signal_num s \<and> signal_num s < 32"
  by (cases s) simp_all

lemma signal_num_inject [simp]: "signal_num s = signal_num t \<longleftrightarrow> s = t"
  by (metis from_u8_signal_num option.inject)

lemma bit_signal_mask_iff: "bit (signal_mask s) i \<longleftrightarrow> i = signal_num s"
  using signal_num_bound [of s]
  by (auto simp: signal_mask_def bit_simps bit_1_iff)

lemma bit_u32_bound: "bit (w :: u32) i \<Longrightarrow> i < 32"
  using word_bit_bound [of w i] by simp

lemma bit_deliverable_iff:
  "bit (deliverable s) i \<longleftrightarrow> bit (pending s) i \<and> \<not> bit (blocked s) i"
  by (auto simp: deliverable_def bit_simps dest: bit_u32_bound)

lemma bit_pending_signal_send:
  "bit (pending (signal_send s sig)) i \<longleftrightarrow> bit (pending s) i \<or> i = signal_num sig"
  by (simp add: signal_send_def bit_simps bit_signal_mask_iff)

lemma bit_and_not_signal_mask:
  "bit (w AND NOT (signal_mask sig)) i \<longleftrightarrow> bit w i \<and> i \<noteq> signal_num sig"
  by (auto simp: bit_simps bit_signal_mask_iff dest: bit_u32_bound)

lemma take_pending_None:
  "fst (take_pending s) = None \<Longrightarrow> snd (take_pending s) = s"
  by (auto simp: take_pending_def split: if_splits option.splits)

section \<open>Pending masks hold known signals only\<close>

definition signals_inv :: "SignalState \<Rightarrow> bool" where
  "signals_inv s \<longleftrightarrow> (\<forall>i<32. bit (pending s) i \<longrightarrow> from_u8 i \<noteq> None)
     \<and> length (handlers s) = 32 \<and> handlers s ! 9 = SIG_DFL \<and> handlers s ! 19 = SIG_DFL"

lemma signals_inv_new: "signals_inv signal_state_new"
  by (simp add: signals_inv_def signal_state_new_def SIG_DFL_def)

lemma signals_inv_send: "signals_inv s \<Longrightarrow> signals_inv (signal_send s sig)"
  using bit_pending_signal_send [of s sig]
  by (auto simp: signals_inv_def) (auto simp: signal_send_def)

lemma take_pending_Some:
  assumes "take_pending s = (Some sig, s')"
  shows "signal_num sig = trailing_zeros (deliverable s)" "deliverable s \<noteq> 0"
    and "s' = s\<lparr>pending := pending s AND NOT (signal_mask sig)\<rparr>"
  using assms
  by (auto simp: take_pending_def from_u8_Some_iff split: if_splits option.splits)

lemma take_pending_pending_bits:
  "take_pending s = (Some sig, s') \<Longrightarrow> bit (pending s') i \<longleftrightarrow> bit (pending s) i \<and> i \<noteq> signal_num sig"
  using take_pending_Some(3) [of s sig s'] by (simp add: bit_and_not_signal_mask)

lemma take_pending_was_pending:
  "take_pending s = (Some sig, s') \<Longrightarrow> bit (pending s) (signal_num sig)"
  using take_pending_Some(1,2) [of s sig s'] trailing_zeros_least [of "deliverable s"]
  by (simp add: bit_deliverable_iff)

lemma signals_inv_take:
  "signals_inv s \<Longrightarrow> take_pending s = (r, s') \<Longrightarrow> signals_inv s'"
  by (auto simp: signals_inv_def take_pending_def bit_and_not_signal_mask
      split: if_splits option.splits)

lemma take_pending_None_iff:
  assumes "signals_inv s"
  shows "fst (take_pending s) = None \<longleftrightarrow> \<not> has_pending s"
proof (cases "deliverable s = 0")
  case True
  then show ?thesis by (simp add: take_pending_def has_pending_def)
next
  case False
  let ?t = "trailing_zeros (deliverable s)"
  have "bit (pending s) ?t" "?t < 32"
    using trailing_zeros_least [OF False] by (auto simp: bit_deliverable_iff dest: bit_u32_bound)
  then have "from_u8 ?t \<noteq> None" using assms by (simp add: signals_inv_def)
  then show ?thesis using False by (auto simp: take_pending_def has_pending_def)
qed

lemma sys_sigaction_total:
  assumes "signals_inv s"
  shows "\<exists>r s'. sys_sigaction s n act oldact = Some (r, s') \<and> signals_inv s' \<and> pending s' = pending s"
proof -
  have g: "get_handler s k = Some (if k < 32 then handlers s ! k else SIG_DFL)" for k
    using assms by (simp add: get_handler_def signals_inv_def rust_simps)
  have h: "set_handler s k v = Some (if k < 32 then s\<lparr>handlers := (handlers s)[k := v]\<rparr> else s)" for k v
    using assms by (simp add: set_handler_def signals_inv_def rust_simps)
  have "nat n \<noteq> 9" "nat n \<noteq> 19" if "n \<noteq> 9" "n \<noteq> 19" using that by auto
  then show ?thesis using assms
    by (auto simp: sys_sigaction_def g h signals_inv_def split: option.splits sum.splits)
qed

section \<open>Delivery on return from a system call\<close>

text \<open>
  \<open>deliver_pending_signals\<close>. \<open>try_user\<close> stands for \<open>try_deliver_user_handler\<close> (whether the frame
  could be written to the user stack). Stopping gives up the processor; the signals other tasks
  post to this task until it runs again are the next element of \<open>resumes\<close>, and when there is
  none the task stays stopped.
\<close>

datatype delivery = Returned | HandlerEntered Signal u64 | ExitedOn Signal | StaysStopped Signal
  | HandlerTablePanic

definition pending_count :: "u32 \<Rightarrow> nat" where
  "pending_count w = length (filter (bit w) [0..<32])"

lemma pending_count_take:
  assumes "take_pending s = (Some sig, s')"
  shows "pending_count (pending s') < pending_count (pending s)"
proof -
  have "pending_count (pending s') = card {i. i < 32 \<and> bit (pending s) i \<and> i \<noteq> signal_num sig}"
    unfolding pending_count_def length_filter_conv_card
    by (rule arg_cong [where f = card]) (auto simp: take_pending_pending_bits [OF assms])
  also have "\<dots> < card {i. i < 32 \<and> bit (pending s) i}"
    using take_pending_was_pending [OF assms] bit_u32_bound by (intro psubset_card_mono) auto
  also have "\<dots> = pending_count (pending s)"
    unfolding pending_count_def length_filter_conv_card
    by (rule arg_cong [where f = card]) auto
  finally show ?thesis .
qed

function deliver_pending_signals ::
  "(Signal \<Rightarrow> u64 \<Rightarrow> bool) \<Rightarrow> Signal list list \<Rightarrow> SignalState
    \<Rightarrow> delivery \<times> SignalState" where
  "deliver_pending_signals try_user resumes s =
     (case take_pending s of
        (None, s') \<Rightarrow> (Returned, s')
      | (Some sig, s') \<Rightarrow>
          (case get_handler s' (signal_num sig) of
             None \<Rightarrow> (HandlerTablePanic, s')
           | Some h \<Rightarrow>
             if h = SIG_IGN then deliver_pending_signals try_user resumes s'
             else if h \<noteq> SIG_DFL \<and> try_user sig h then (HandlerEntered sig h, s')
             else (case default_action sig of
                 Terminate \<Rightarrow> (ExitedOn sig, s')
               | Ignore \<Rightarrow> deliver_pending_signals try_user resumes s'
               | Continue \<Rightarrow> deliver_pending_signals try_user resumes s'
               | Stop \<Rightarrow> (case resumes of
                   [] \<Rightarrow> (StaysStopped sig, s')
                 | r # rs \<Rightarrow> deliver_pending_signals try_user rs (foldl signal_send s' r)))))"
  by pat_completeness auto

termination
proof (relation "inv_image (less_than <*lex*> less_than)
    (\<lambda>(t, rs, s). (length rs, pending_count (pending s)))", goal_cases)
  case 1
  show ?case by (simp add: wf_lex_prod wf_inv_image)
qed (auto dest: pending_count_take sym)

declare deliver_pending_signals.simps [simp del]

lemma signals_inv_sends: "signals_inv s \<Longrightarrow> signals_inv (foldl signal_send s sigs)"
  by (induction sigs arbitrary: s) (auto intro: signals_inv_send)

lemma sends_keep:
  "bit (pending s) i \<Longrightarrow> bit (pending (foldl signal_send s sigs)) i"
  "blocked (foldl signal_send s sigs) = blocked s"
  by (induction sigs arbitrary: s) (auto simp: bit_pending_signal_send, auto simp: signal_send_def)

lemma take_pending_frame:
  "take_pending s = (r, s') \<Longrightarrow> blocked s' = blocked s \<and> handlers s' = handlers s"
  by (auto simp: take_pending_def split: if_splits option.splits)

lemma get_handler_inv:
  "signals_inv s \<Longrightarrow> \<exists>h. get_handler s (signal_num sig) = Some h
     \<and> (sig = SIGKILL \<or> sig = SIGSTOP \<longrightarrow> h = SIG_DFL)"
  using signal_num_bound [of sig] by (auto simp: get_handler_def signals_inv_def rust_simps)

lemma SIG_DFL_IGN [simp]: "SIG_DFL \<noteq> SIG_IGN" "SIG_IGN \<noteq> SIG_DFL"
  by (simp_all add: SIG_DFL_def SIG_IGN_def)

text \<open>What one iteration of the loop does, for the inductions below.\<close>

lemma deliver_step:
  assumes "signals_inv s"
  obtains "\<not> has_pending s" "deliver_pending_signals tu rs s = (Returned, s)"
  | sig s' h where "take_pending s = (Some sig, s')" "signals_inv s'" "h \<noteq> SIG_DFL" "h \<noteq> SIG_IGN"
      "get_handler s' (signal_num sig) = Some h"
      "deliver_pending_signals tu rs s = (HandlerEntered sig h, s')" "sig \<noteq> SIGKILL" "sig \<noteq> SIGSTOP"
  | sig s' where "take_pending s = (Some sig, s')" "signals_inv s'"
      "deliver_pending_signals tu rs s = (ExitedOn sig, s')" "default_action sig = Terminate"
  | sig s' where "take_pending s = (Some sig, s')" "signals_inv s'" "sig \<noteq> SIGKILL"
      "deliver_pending_signals tu rs s = deliver_pending_signals tu rs s'"
  | sig s' where "take_pending s = (Some sig, s')" "signals_inv s'" "default_action sig = Stop"
      "rs = []" "deliver_pending_signals tu rs s = (StaysStopped sig, s')"
  | sig s' r rs' where "take_pending s = (Some sig, s')" "signals_inv s'" "default_action sig = Stop"
      "rs = r # rs'"
      "deliver_pending_signals tu rs s = deliver_pending_signals tu rs' (foldl signal_send s' r)"
proof (cases "take_pending s")
  case (Pair o' s')
  note tp = this
  show thesis
  proof (cases o')
    case None
    then have "\<not> has_pending s" "s' = s"
      using take_pending_None_iff [OF assms] take_pending_None [of s] tp by auto
    then show ?thesis using that(1) tp None
      by (simp add: deliver_pending_signals.simps)
  next
    case (Some sig)
    note tp' = tp [unfolded Some] and i' = signals_inv_take [OF assms tp]
    obtain h where h: "get_handler s' (signal_num sig) = Some h"
      "sig = SIGKILL \<or> sig = SIGSTOP \<longrightarrow> h = SIG_DFL" using get_handler_inv [OF i'] by blast
    note eq = deliver_pending_signals.simps [of tu rs s]
    show ?thesis
    proof (cases "h = SIG_IGN")
      case True
      with that(4) tp' i' h show ?thesis by (auto simp: eq)
    next
      case ign: False
      show ?thesis
      proof (cases "h \<noteq> SIG_DFL \<and> tu sig h")
        case True
        with that(2) tp' i' h ign show ?thesis by (auto simp: eq)
      next
        case False
        note eq' = eq [unfolded tp', simplified h(1) prod.case option.case, simplified False ign if_False]
        show ?thesis
        proof (cases "default_action sig")
          case Terminate
          then show ?thesis using that(3) [OF tp' i'] eq' by (simp split: if_splits)
        next
          case Ignore
          then show ?thesis using that(4) [OF tp' i'] eq' by (cases sig) (simp_all split: if_splits)
        next
          case Stop
          then show ?thesis using that(5,6) [OF tp' i'] eq' by (cases rs) (simp_all split: if_splits)
        next
          case Continue
          then show ?thesis using that(4) [OF tp' i'] eq' by (cases sig) (simp_all split: if_splits)
        qed
      qed
    qed
  qed
qed

lemma sigkill_pending_take:
  assumes "take_pending s = (Some sig, s')" "sig \<noteq> SIGKILL" "bit (deliverable s) 9"
  shows "bit (deliverable s') 9"
proof -
  have "signal_num sig \<noteq> signal_num SIGKILL" using assms(2) by (simp only: signal_num_inject not_False_eq_True)
  then show ?thesis
    using assms(3) take_pending_pending_bits [OF assms(1), of 9] take_pending_frame [OF assms(1)]
    by (simp add: bit_deliverable_iff)
qed

lemma sigkill_pending_sends:
  "bit (deliverable s) 9 \<Longrightarrow> bit (deliverable (foldl signal_send s sigs)) 9"
  by (simp add: bit_deliverable_iff sends_keep)

lemma has_pending_bit: "bit (deliverable s) i \<Longrightarrow> has_pending s"
  by (auto simp: has_pending_def)

text \<open>The recursion of the loop: fewer resumptions, or the same with one signal taken.\<close>

lemma deliver_induct:
  assumes "\<And>rs s. (\<And>sig s'. take_pending s = (Some sig, s') \<Longrightarrow> P rs s')
      \<Longrightarrow> (\<And>r rs' t. rs = r # rs' \<Longrightarrow> P rs' t) \<Longrightarrow> P rs s"
  shows "P rs s"
proof (induction rs arbitrary: s)
  case Nil
  show ?case
    by (induction "pending_count (pending s)" arbitrary: s rule: less_induct)
      (blast intro: assms pending_count_take)
next
  case (Cons r rs)
  show ?case
    by (induction "pending_count (pending s)" arbitrary: s rule: less_induct)
      (blast intro: assms pending_count_take Cons)
qed

lemma take_lowest:
  "take_pending s = (Some sig, s') \<Longrightarrow> bit (deliverable s) i \<Longrightarrow> signal_num sig \<le> i"
  using take_pending_Some(1,2) [of s sig s'] trailing_zeros_least [of "deliverable s"] by (metis not_le)

lemma deliverable_take:
  "take_pending s = (Some sig, s') \<Longrightarrow> bit (deliverable s') i \<Longrightarrow> bit (deliverable s) i"
  using take_pending_pending_bits [of s sig s' i] take_pending_frame [of s "Some sig" s'] by (simp add: bit_deliverable_iff)

lemma low_signals_terminate: "signal_num sig \<le> 9 \<Longrightarrow> default_action sig = Terminate"
  by (cases sig) simp_all

text \<open>Ways the loop can end while SIGKILL is deliverable: on it, or on a signal with a lower number.\<close>

definition ends_before :: "SignalState \<Rightarrow> Signal \<Rightarrow> delivery \<Rightarrow> SignalState \<Rightarrow> bool" where
  "ends_before s sig d t \<longleftrightarrow> signal_num sig < 9 \<and> bit (deliverable s) (signal_num sig)
     \<and> (d = ExitedOn sig \<or> (\<exists>h. d = HandlerEntered sig h)) \<and> bit (deliverable t) 9"

lemma deliver_sigkill_aux:
  "signals_inv s \<Longrightarrow> bit (deliverable s) 9 \<Longrightarrow> deliver_pending_signals tu rs s = (d, t) \<Longrightarrow>
   d = ExitedOn SIGKILL \<or> (\<exists>sig. ends_before s sig d t)"
proof (induction rs s rule: deliver_induct)
  case (1 rs s)
  note p = this
  have kill: "bit (deliverable s') 9" "signal_num sig < 9" "bit (deliverable s) (signal_num sig)"
    if t: "take_pending s = (Some sig, s')" "sig \<noteq> SIGKILL" for sig s'
  proof -
    have "signal_num sig \<noteq> signal_num SIGKILL" using t(2) by (simp only: signal_num_inject not_False_eq_True)
    then show "signal_num sig < 9" using take_lowest [OF t(1) p(4)] by simp
    show "bit (deliverable s') 9" using sigkill_pending_take t p(4) by blast
    show "bit (deliverable s) (signal_num sig)"
      using take_pending_Some(1,2) [OF t(1)] trailing_zeros_least [of "deliverable s"] by simp
  qed
  have low: "default_action sig = Terminate" if "take_pending s = (Some sig, s')" for sig s'
    using take_lowest [OF that p(4)] low_signals_terminate by blast
  from p(3) show ?case
  proof (cases rule: deliver_step [of s tu rs])
    case 1
    then show ?thesis using has_pending_bit [OF p(4)] by simp
  next
    case (2 sig s' h)
    then show ?thesis using kill [of sig s'] p(5) by (auto simp: ends_before_def)
  next
    case (3 sig s')
    then show ?thesis using kill [of sig s'] p(5) by (cases "sig = SIGKILL") (auto simp: ends_before_def)
  next
    case (4 sig s')
    then have "d = ExitedOn SIGKILL \<or> (\<exists>g. ends_before s' g d t)" using p(1) [of sig s'] p(5) kill(1) by auto
    then show ?thesis using deliverable_take [OF 4(1)] by (auto simp: ends_before_def)
  qed (use low in auto)
qed

text \<open>What each way to end the loop says of the states before and after.\<close>

definition delivery_ok :: "SignalState \<Rightarrow> delivery \<Rightarrow> SignalState \<Rightarrow> bool" where
  "delivery_ok s d t \<longleftrightarrow> signals_inv t \<and> handlers t = handlers s \<and> (case d of
     Returned \<Rightarrow> \<not> has_pending t
   | HandlerEntered sig h \<Rightarrow> get_handler s (signal_num sig) = Some h \<and> h \<noteq> SIG_DFL \<and> h \<noteq> SIG_IGN
       \<and> sig \<noteq> SIGKILL \<and> sig \<noteq> SIGSTOP \<and> \<not> bit (pending t) (signal_num sig)
   | ExitedOn sig \<Rightarrow> default_action sig = Terminate \<and> \<not> bit (pending t) (signal_num sig)
   | StaysStopped sig \<Rightarrow> default_action sig = Stop \<and> \<not> bit (pending t) (signal_num sig)
   | HandlerTablePanic \<Rightarrow> False)"

lemma get_handler_cong: "handlers s' = handlers s \<Longrightarrow> get_handler s' n = get_handler s n"
  by (simp add: get_handler_def)

lemma sends_handlers: "handlers (foldl signal_send s sigs) = handlers s"
  by (induction sigs arbitrary: s) (auto simp: signal_send_def)

lemma delivery_ok_cong: "handlers s' = handlers s \<Longrightarrow> delivery_ok s' d t \<Longrightarrow> delivery_ok s d t"
  using get_handler_cong [of s' s] by (auto simp: delivery_ok_def split: delivery.splits)

lemma deliver_returned_aux:
  "signals_inv s \<Longrightarrow> deliver_pending_signals tu rs s = (d, t) \<Longrightarrow> delivery_ok s d t"
proof (induction rs s rule: deliver_induct)
  case (1 rs s)
  note p = this
  have taken: "\<not> bit (pending s') (signal_num sig)" "handlers s' = handlers s" if "take_pending s = (Some sig, s')" for sig s'
    using take_pending_pending_bits [OF that] take_pending_frame [OF that] by simp_all
  from p(3) show ?case
  proof (cases rule: deliver_step [of s tu rs])
    case 1
    then show ?thesis using p(3,4) by (auto simp: delivery_ok_def)
  next
    case (2 sig s' h)
    then show ?thesis using taken [OF 2(1)] get_handler_cong [of s' s] p(4) by (auto simp: delivery_ok_def)
  next
    case (3 sig s')
    then show ?thesis using taken [OF 3(1)] p(4) by (auto simp: delivery_ok_def)
  next
    case (4 sig s')
    then have "delivery_ok s' d t" using p(1) [of sig s'] p(4) by simp
    then show ?thesis using delivery_ok_cong taken(2) [OF 4(1)] by blast
  next
    case (5 sig s')
    then show ?thesis using taken [OF 5(1)] p(4) by (auto simp: delivery_ok_def)
  next
    case (6 sig s' r rs')
    then have "delivery_ok (foldl signal_send s' r) d t"
      using p(2) [of r rs' "foldl signal_send s' r"] p(4) by (simp add: signals_inv_sends)
    then show ?thesis using delivery_ok_cong taken(2) [OF 6(1)] sends_handlers by metis
  qed
qed

section \<open>Properties\<close>

text \<open>when an unblocked signal is pending, \<open>take_pending\<close> returns the
  lowest-numbered one and clears exactly its bit; otherwise it returns nothing.\<close>

theorem take_pending_lowest:
  assumes "signals_inv s"
  shows "case take_pending s of
      (None, t) \<Rightarrow> \<not> has_pending s \<and> t = s
    | (Some sig, t) \<Rightarrow> bit (deliverable s) (signal_num sig)
        \<and> (\<forall>j < signal_num sig. \<not> bit (deliverable s) j)
        \<and> (\<forall>j. bit (pending t) j \<longleftrightarrow> bit (pending s) j \<and> j \<noteq> signal_num sig) \<and> signals_inv t"
proof (cases "take_pending s")
  case (Pair r t)
  then show ?thesis
    using take_pending_None_iff [OF assms] take_pending_None [of s]
      take_pending_Some(1,2) [of s _ t] trailing_zeros_least [of "deliverable s"]
      take_pending_pending_bits [of s _ t] signals_inv_take [OF assms, of r t]
    by (cases r) auto
qed

theorem take_pending_lowest_witness:
  "signals_inv (signal_send (signal_send signal_state_new SIGTERM) SIGINT)
   \<and> fst (take_pending (signal_send (signal_send signal_state_new SIGTERM) SIGINT)) \<noteq> None"
proof -
  let ?s = "signal_send (signal_send signal_state_new SIGTERM) SIGINT"
  have i: "signals_inv ?s" by (intro signals_inv_send signals_inv_new)
  moreover have "has_pending ?s"
    by (rule has_pending_bit [of _ 2])
      (simp add: bit_deliverable_iff bit_pending_signal_send, simp add: signal_send_def signal_state_new_def)
  ultimately show ?thesis using take_pending_lowest [OF i] by (auto split: prod.splits option.splits)
qed

text \<open>C1: while SIGKILL is pending and not blocked, the delivery loop neither completes
  nor leaves the process stopped, and never enters a handler for SIGKILL. The process exits on SIGKILL, unless a
  pending unblocked signal with a number below 9 comes first: then it exits on that signal or enters
  the handler for it (which does run user code, once), and SIGKILL is still deliverable at the next
  return from a system call.\<close>

theorem sigkill_uncatchable:
  assumes "signals_inv s" "bit (deliverable s) (signal_num SIGKILL)"
    and "deliver_pending_signals tu rs s = (d, t)"
  shows "d = ExitedOn SIGKILL \<or> (\<exists>sig. signal_num sig < 9 \<and> bit (deliverable s) (signal_num sig)
    \<and> (d = ExitedOn sig \<or> (\<exists>h. d = HandlerEntered sig h)) \<and> bit (deliverable t) (signal_num SIGKILL))"
  using deliver_sigkill_aux [OF assms(1) _ assms(3)] assms(2) by (simp add: ends_before_def)

theorem sigkill_uncatchable_witness:
  "fst (deliver_pending_signals (\<lambda>_ _. True) [] (signal_send signal_state_new SIGKILL)) \<noteq> Returned"
proof -
  let ?s = "signal_send signal_state_new SIGKILL"
  have "signals_inv ?s" by (intro signals_inv_send signals_inv_new)
  moreover have "bit (deliverable ?s) (signal_num SIGKILL)"
    by (simp only: bit_deliverable_iff bit_pending_signal_send)
      (simp add: signal_send_def signal_state_new_def)
  ultimately show ?thesis
    using sigkill_uncatchable [of ?s "\<lambda>_ _. True" "[]"]
    by (cases "deliver_pending_signals (\<lambda>_ _. True) [] ?s") auto
qed

text \<open>C2: the delivery loop never panics and keeps the signal state well formed and the handler
  table unchanged, and each way it ends is justified. It completes only when no unblocked signal is pending. It enters
  a handler only if it is the one installed for that signal, which is not SIGKILL or SIGSTOP and is
  no longer pending (other signals may be: they wait for the next return). It exits only on a signal
  whose default action is to terminate, and stays stopped only on one whose default action is to stop.\<close>

theorem delivery_complete:
  assumes "signals_inv s" "deliver_pending_signals tu rs s = (d, t)"
  shows "signals_inv t \<and> handlers t = handlers s \<and> (case d of
     Returned \<Rightarrow> \<not> has_pending t
   | HandlerEntered sig h \<Rightarrow> get_handler s (signal_num sig) = Some h \<and> h \<noteq> SIG_DFL \<and> h \<noteq> SIG_IGN
       \<and> sig \<noteq> SIGKILL \<and> sig \<noteq> SIGSTOP \<and> \<not> bit (pending t) (signal_num sig)
   | ExitedOn sig \<Rightarrow> default_action sig = Terminate \<and> \<not> bit (pending t) (signal_num sig)
   | StaysStopped sig \<Rightarrow> default_action sig = Stop \<and> \<not> bit (pending t) (signal_num sig)
   | HandlerTablePanic \<Rightarrow> False)"
  using deliver_returned_aux [OF assms] unfolding delivery_ok_def .

theorem delivery_complete_witness:
  "signals_inv (snd (deliver_pending_signals (\<lambda>_ _. False) [] (signal_send signal_state_new SIGCHLD)))"
  using delivery_complete [OF signals_inv_send [OF signals_inv_new, of SIGCHLD], of "\<lambda>_ _. False" "[]"]
  by (metis prod.collapse)

end
