(* ===== verification/Security.thy ===== *)
theory Security imports Signals begin

text \<open>
  \<open>kernel/src/security/\<close>: capabilities, discretionary access control and the signal
  permission check, with the system calls that change a task's identity
  (\<open>sys_setuid\<close>, \<open>sys_setgid\<close> in \<open>kernel/src/syscall/handlers.rs\<close>).
\<close>

record Credentials =
  cr_uid :: u32
  cr_gid :: u32
  cr_euid :: u32
  cr_egid :: u32
  cap_permitted :: u64
  cap_effective :: u64
  cap_inheritable :: u64

definition creds_root :: Credentials where
  "creds_root = \<lparr>cr_uid = 0, cr_gid = 0, cr_euid = 0, cr_egid = 0,
     cap_permitted = - 1, cap_effective = - 1, cap_inheritable = - 1\<rparr>"

datatype Cap = CAP_CHOWN | CAP_DAC_OVERRIDE | CAP_FOWNER | CAP_SETUID | CAP_SETGID
  | CAP_SYS_ADMIN | CAP_SYS_BOOT | CAP_KILL

fun cap_num :: "Cap \<Rightarrow> nat" where
  "cap_num CAP_CHOWN = 0" | "cap_num CAP_DAC_OVERRIDE = 1" | "cap_num CAP_FOWNER = 2"
| "cap_num CAP_SETUID = 3" | "cap_num CAP_SETGID = 4" | "cap_num CAP_SYS_ADMIN = 5"
| "cap_num CAP_SYS_BOOT = 6" | "cap_num CAP_KILL = 7"

definition cap_mask :: "Cap \<Rightarrow> u64" where
  "cap_mask c = push_bit (cap_num c) 1"

definition has_cap :: "Credentials \<Rightarrow> Cap \<Rightarrow> bool" where
  "has_cap creds c \<longleftrightarrow> (if cr_euid creds = 0 then True else cap_effective creds AND cap_mask c \<noteq> 0)"

definition drop_for_uid_change :: "u32 \<Rightarrow> u32 \<Rightarrow> Credentials \<Rightarrow> Credentials" where
  "drop_for_uid_change old_uid old_euid creds =
     (if old_uid = 0 \<and> cr_uid creds \<noteq> 0
      then creds\<lparr>cap_permitted := 0, cap_inheritable := 0, cap_effective := 0\<rparr>
      else if old_euid = 0 \<and> cr_euid creds \<noteq> 0 then creds\<lparr>cap_effective := 0\<rparr>
      else if old_euid \<noteq> 0 \<and> cr_euid creds = 0 then creds\<lparr>cap_effective := cap_permitted creds\<rparr>
      else creds)"

definition sys_setuid :: "u32 \<Rightarrow> Credentials \<Rightarrow> (SyscallError + int) \<times> Credentials" where
  "sys_setuid uid creds =
     (let old_uid = cr_uid creds; old_euid = cr_euid creds in
      if has_cap creds CAP_SETUID
      then (Inr 0, drop_for_uid_change old_uid old_euid (creds\<lparr>cr_uid := uid, cr_euid := uid\<rparr>))
      else if uid = cr_uid creds \<or> uid = cr_euid creds
      then (Inr 0, drop_for_uid_change old_uid old_euid (creds\<lparr>cr_euid := uid\<rparr>))
      else (Inl EPERM, creds))"

definition sys_setgid :: "u32 \<Rightarrow> Credentials \<Rightarrow> (SyscallError + int) \<times> Credentials" where
  "sys_setgid gid creds =
     (if has_cap creds CAP_SETGID then (Inr 0, creds\<lparr>cr_gid := gid, cr_egid := gid\<rparr>)
      else if gid = cr_gid creds \<or> gid = cr_egid creds then (Inr 0, creds\<lparr>cr_egid := gid\<rparr>)
      else (Inl EPERM, creds))"

datatype Access = AccRead | AccWrite | AccExecute

definition can_access :: "Credentials \<Rightarrow> InodeMetadata \<Rightarrow> Access \<Rightarrow> bool" where
  "can_access creds meta access =
     (if has_cap creds CAP_DAC_OVERRIDE
      then (if access = AccExecute \<and> im_file_type meta = Regular then im_mode meta AND 0x49 \<noteq> 0 else True)
      else
        let perm_bits =
          (if cr_euid creds = im_uid meta then drop_bit 6 (im_mode meta) AND 7
           else if cr_egid creds = im_gid meta \<or> cr_gid creds = im_gid meta
           then drop_bit 3 (im_mode meta) AND 7
           else im_mode meta AND 7) in
        (case access of
           AccRead \<Rightarrow> perm_bits AND 4 \<noteq> 0
         | AccWrite \<Rightarrow> perm_bits AND 2 \<noteq> 0
         | AccExecute \<Rightarrow> perm_bits AND 1 \<noteq> 0))"

definition can_exec :: "Credentials \<Rightarrow> InodeMetadata \<Rightarrow> bool" where
  "can_exec creds meta \<longleftrightarrow>
     (if im_file_type meta \<noteq> Regular then False
      else if im_mode meta AND 0x49 = 0 then False
      else can_access creds meta AccExecute)"

definition can_signal :: "Credentials \<Rightarrow> Credentials \<Rightarrow> bool \<Rightarrow> Signal \<Rightarrow> bool" where
  "can_signal sender target same_session sig \<longleftrightarrow>
     (if has_cap sender CAP_KILL then True
      else if cr_uid sender = cr_uid target \<or> cr_uid sender = cr_euid target
        \<or> cr_euid sender = cr_uid target \<or> cr_euid sender = cr_euid target then True
      else same_session \<and> sig = SIGCONT)"

definition require_cap :: "Credentials \<Rightarrow> Cap \<Rightarrow> SyscallError + unit" where
  "require_cap creds c = (if has_cap creds c then Inr () else Inl EPERM)"

definition require_dac_access :: "Credentials \<Rightarrow> InodeMetadata \<Rightarrow> Access \<Rightarrow> SyscallError + unit" where
  "require_dac_access creds meta access = (if can_access creds meta access then Inr () else Inl EACCES)"

definition require_exec_access :: "Credentials \<Rightarrow> InodeMetadata \<Rightarrow> SyscallError + unit" where
  "require_exec_access creds meta = (if can_exec creds meta then Inr () else Inl EACCES)"

section \<open>Giving up root\<close>

text \<open>The identity changes a process can make, in any order.\<close>

inductive identity_step :: "Credentials \<Rightarrow> Credentials \<Rightarrow> bool" where
  setuid: "identity_step c (snd (sys_setuid u c))"
| setgid: "identity_step c (snd (sys_setgid g c))"

inductive_simps identity_step_iff: "identity_step c d"

definition unprivileged :: "Credentials \<Rightarrow> bool" where
  "unprivileged c \<longleftrightarrow> cr_uid c \<noteq> 0 \<and> cr_euid c \<noteq> 0 \<and> cap_permitted c = 0 \<and> cap_effective c = 0"

lemma unprivileged_has_cap: "unprivileged c \<Longrightarrow> \<not> has_cap c k"
  by (simp add: unprivileged_def has_cap_def)

lemma unprivileged_step: "identity_step c d \<Longrightarrow> unprivileged c \<Longrightarrow> unprivileged d"
  by (auto simp: identity_step_iff sys_setuid_def sys_setgid_def Let_def unprivileged_has_cap)
    (auto simp: unprivileged_def drop_for_uid_change_def)

lemma unprivileged_steps: "identity_step\<^sup>*\<^sup>* c d \<Longrightarrow> unprivileged c \<Longrightarrow> unprivileged d"
  by (induction rule: rtranclp_induct) (auto intro: unprivileged_step)

lemma setuid_from_root:
  "cr_uid c = 0 \<Longrightarrow> cr_euid c = 0 \<Longrightarrow> u \<noteq> 0 \<Longrightarrow> unprivileged (snd (sys_setuid u c))"
  by (simp add: sys_setuid_def has_cap_def drop_for_uid_change_def unprivileged_def)

text \<open>C3: once a root process has called \<open>setuid\<close> with a non-zero user id, no
  sequence of \<open>setuid\<close> and \<open>setgid\<close> calls gives it back any capability or user id 0.\<close>

theorem privilege_drop_final:
  assumes "cr_uid c = 0" "cr_euid c = 0" "u \<noteq> 0"
    and "identity_step\<^sup>*\<^sup>* (snd (sys_setuid u c)) d"
  shows "cr_uid d \<noteq> 0 \<and> cr_euid d \<noteq> 0 \<and> (\<forall>k. \<not> has_cap d k)"
  using unprivileged_steps [OF assms(4) setuid_from_root [OF assms(1-3)]] unprivileged_has_cap [of d]
  by (auto simp: unprivileged_def)

theorem privilege_drop_final_witness:
  "\<not> has_cap (snd (sys_setuid 0 (snd (sys_setuid 1000 creds_root)))) CAP_SETUID"
  using privilege_drop_final [of creds_root 1000 "snd (sys_setuid 0 (snd (sys_setuid 1000 creds_root)))"]
    r_into_rtranclp [of identity_step, OF identity_step.setuid [of _ 0]]
  by (simp add: creds_root_def)

section \<open>Access control\<close>

text \<open>
  The rule the checks implement: the permission class is the first of owner, group, other that
  applies, and the class's bit for the access decides.
\<close>

definition class_shift :: "Credentials \<Rightarrow> InodeMetadata \<Rightarrow> nat" where
  "class_shift creds meta = (if cr_euid creds = im_uid meta then 6
     else if cr_egid creds = im_gid meta \<or> cr_gid creds = im_gid meta then 3 else 0)"

fun access_bit :: "Access \<Rightarrow> nat" where
  "access_bit AccRead = 2" | "access_bit AccWrite = 1" | "access_bit AccExecute = 0"

lemma perm_bit_test:
  fixes w :: u32
  shows "(w AND 7) AND 4 \<noteq> 0 \<longleftrightarrow> bit w 2" "(w AND 7) AND 2 \<noteq> 0 \<longleftrightarrow> bit w 1" "(w AND 7) AND 1 \<noteq> 0 \<longleftrightarrow> bit w 0"
proof -
  have m: "(w AND 7) AND 4 = w AND push_bit 2 1" "(w AND 7) AND 2 = w AND push_bit 1 1"
    "(w AND 7) AND 1 = w AND push_bit 0 1"
    by (simp_all add: and.assoc)
  show "(w AND 7) AND 4 \<noteq> 0 \<longleftrightarrow> bit w 2" "(w AND 7) AND 2 \<noteq> 0 \<longleftrightarrow> bit w 1" "(w AND 7) AND 1 \<noteq> 0 \<longleftrightarrow> bit w 0"
    by (simp_all only: m bit_iff_and_push_bit_not_eq_0)
qed

lemma can_access_bits:
  "\<not> has_cap creds CAP_DAC_OVERRIDE \<Longrightarrow>
     can_access creds meta a \<longleftrightarrow> bit (im_mode meta) (class_shift creds meta + access_bit a)"
  by (cases a) (auto simp: can_access_def class_shift_def perm_bit_test bit_simps numeral_2_eq_2)

text \<open>\<open>can_exec\<close> holds exactly for a regular file with some execute bit whose execute bit of the
  caller's class is set or whose caller overrides access control: \<open>chmod -x\<close> binds root too.\<close>

theorem exec_rule:
  "can_exec creds meta \<longleftrightarrow>
     im_file_type meta = Regular \<and> im_mode meta AND 0x49 \<noteq> 0
     \<and> (has_cap creds CAP_DAC_OVERRIDE \<or> bit (im_mode meta) (class_shift creds meta))"
  using can_access_bits [of creds meta AccExecute]
  by (auto simp: can_exec_def) (auto simp: can_access_def)

end
