(* ===== verification/Pipe.thy ===== *)
theory Pipe imports Inode begin

text \<open>
  \<open>kernel/src/vfs/pipe.rs\<close>: the anonymous pipe. The ring buffer is the array with its two
  positions and a length; the two ends are the operations of the \<open>InodeOps\<close> adaptors.
\<close>

definition PIPE_CAPACITY :: nat where "PIPE_CAPACITY = 4096"

record PipeBuffer =
  pb_buf :: "byte list"
  pb_read_pos :: nat
  pb_write_pos :: nat
  pb_len :: nat
  pb_write_closed :: bool
  pb_read_closed :: bool

definition pipe_new :: PipeBuffer where
  "pipe_new = \<lparr>pb_buf = replicate PIPE_CAPACITY 0, pb_read_pos = 0, pb_write_pos = 0, pb_len = 0,
     pb_write_closed = False, pb_read_closed = False\<rparr>"

definition readable :: "PipeBuffer \<Rightarrow> nat" where
  "readable pb = pb_len pb"

definition writable :: "PipeBuffer \<Rightarrow> nat option" where
  "writable pb = csub PIPE_CAPACITY (pb_len pb)"

fun write_loop :: "PipeBuffer \<Rightarrow> byte list \<Rightarrow> PipeBuffer option" where
  "write_loop pb [] = Some pb"
| "write_loop pb (d # ds) = do {
     b \<leftarrow> aset (pb_buf pb) (pb_write_pos pb) d;
     write_loop (pb\<lparr>pb_buf := b, pb_write_pos := (pb_write_pos pb + 1) mod PIPE_CAPACITY\<rparr>) ds }"

definition write_bytes :: "PipeBuffer \<Rightarrow> byte list \<Rightarrow> (PipeBuffer \<times> nat) option" where
  "write_bytes pb data = do {
     w \<leftarrow> writable pb;
     let n = min (length data) w;
     pb' \<leftarrow> write_loop pb (take n data);
     Some (pb'\<lparr>pb_len := pb_len pb' + n\<rparr>, n) }"

fun read_loop :: "PipeBuffer \<Rightarrow> nat \<Rightarrow> (PipeBuffer \<times> byte list) option" where
  "read_loop pb 0 = Some (pb, [])"
| "read_loop pb (Suc k) = do {
     b \<leftarrow> aget (pb_buf pb) (pb_read_pos pb);
     (pb', bs) \<leftarrow> read_loop (pb\<lparr>pb_read_pos := (pb_read_pos pb + 1) mod PIPE_CAPACITY\<rparr>) k;
     Some (pb', b # bs) }"

text \<open>The destination buffer is its length \<open>m\<close>; the bytes stored at its front are the result.\<close>

definition read_bytes :: "PipeBuffer \<Rightarrow> nat \<Rightarrow> (PipeBuffer \<times> byte list) option" where
  "read_bytes pb m = do {
     let n = min m (readable pb);
     (pb', bs) \<leftarrow> read_loop pb n;
     l \<leftarrow> csub (pb_len pb') n;
     Some (pb'\<lparr>pb_len := l\<rparr>, bs) }"

section \<open>The two ends\<close>

text \<open>
  \<open>PipeReadEnd::read\<close> is a loop around \<open>yield_now\<close>. One pass is \<open>read_end_poll\<close>; while the reader
  is blocked other tasks act on the shared buffer, one element of \<open>others\<close> per yield, and a
  reader that is still waiting after the last of them has not returned (\<open>Blocked\<close>).
\<close>

datatype 'a waiting = Done 'a | Waiting

definition read_end_poll :: "PipeBuffer \<Rightarrow> nat \<Rightarrow> (byte list VfsResult waiting \<times> PipeBuffer) option" where
  "read_end_poll pb m =
     (if readable pb > 0 then do {
        (pb', bs) \<leftarrow> read_bytes pb m;
        Some (if bs \<noteq> [] then Done (Inr bs) else Waiting, pb') }
      else if pb_write_closed pb then Some (Done (Inr []), pb)
      else Some (Waiting, pb))"

fun read_end_loop ::
  "(PipeBuffer \<Rightarrow> PipeBuffer) list \<Rightarrow> PipeBuffer \<Rightarrow> nat \<Rightarrow> (byte list VfsResult waiting \<times> PipeBuffer) option" where
  "read_end_loop others pb m = do {
     (r, pb') \<leftarrow> read_end_poll pb m;
     (case r of
        Done x \<Rightarrow> Some (Done x, pb')
      | Waiting \<Rightarrow> (case others of [] \<Rightarrow> Some (Waiting, pb') | f # fs \<Rightarrow> read_end_loop fs (f pb') m)) }"

definition read_end_read ::
  "(PipeBuffer \<Rightarrow> PipeBuffer) list \<Rightarrow> PipeBuffer \<Rightarrow> nat \<Rightarrow> (byte list VfsResult waiting \<times> PipeBuffer) option" where
  "read_end_read others pb m = (if m = 0 then Some (Done (Inr []), pb) else read_end_loop others pb m)"

definition read_end_write :: "PipeBuffer \<Rightarrow> byte list \<Rightarrow> nat VfsResult \<times> PipeBuffer" where
  "read_end_write pb d = (Inl PermissionDenied, pb)"

definition read_end_drop :: "PipeBuffer \<Rightarrow> PipeBuffer" where
  "read_end_drop pb = pb\<lparr>pb_read_closed := True\<rparr>"

definition write_end_read :: "PipeBuffer \<Rightarrow> nat \<Rightarrow> byte list VfsResult \<times> PipeBuffer" where
  "write_end_read pb m = (Inl PermissionDenied, pb)"

definition write_end_write :: "PipeBuffer \<Rightarrow> byte list \<Rightarrow> (nat VfsResult \<times> PipeBuffer) option" where
  "write_end_write pb d =
     (if d = [] then Some (Inr 0, pb)
      else if pb_read_closed pb then Some (Inl BrokenPipe, pb)
      else do {
        w \<leftarrow> writable pb;
        if w = 0 then Some (Inl WouldBlock, pb)
        else do { (pb', n) \<leftarrow> write_bytes pb d; Some (Inr n, pb') } })"

definition write_end_drop :: "PipeBuffer \<Rightarrow> PipeBuffer" where
  "write_end_drop pb = pb\<lparr>pb_write_closed := True\<rparr>"

definition pipe_end_metadata :: "InodeNum \<Rightarrow> InodeMetadata" where
  "pipe_end_metadata ino = inode_metadata_default\<lparr>im_ino := ino, im_file_type := Regular\<rparr>"

section \<open>Invariant and abstraction\<close>

definition pipe_inv :: "PipeBuffer \<Rightarrow> bool" where
  "pipe_inv pb \<longleftrightarrow> length (pb_buf pb) = PIPE_CAPACITY \<and> pb_read_pos pb < PIPE_CAPACITY
     \<and> pb_len pb \<le> PIPE_CAPACITY
     \<and> pb_write_pos pb = (pb_read_pos pb + pb_len pb) mod PIPE_CAPACITY"

definition pipe_contents :: "PipeBuffer \<Rightarrow> byte list" where
  "pipe_contents pb = map (\<lambda>i. pb_buf pb ! ((pb_read_pos pb + i) mod PIPE_CAPACITY)) [0..<pb_len pb]"

lemma PIPE_CAPACITY_pos [simp]: "0 < PIPE_CAPACITY"
  by (simp add: PIPE_CAPACITY_def)

lemma length_pipe_contents [simp]: "length (pipe_contents pb) = pb_len pb"
  by (simp add: pipe_contents_def)

lemma pipe_new_inv: "pipe_inv pipe_new"
  by (simp add: pipe_inv_def pipe_new_def)

text \<open>The contents, indexed.\<close>

lemma pipe_contents_nth [simp]:
  "i < pb_len pb \<Longrightarrow> pipe_contents pb ! i = pb_buf pb ! ((pb_read_pos pb + i) mod PIPE_CAPACITY)"
  by (simp add: pipe_contents_def)

lemma ring_pos_inj:
  assumes "i < PIPE_CAPACITY" "j < PIPE_CAPACITY" "(r + i) mod PIPE_CAPACITY = (r + j) mod PIPE_CAPACITY"
  shows "i = j"
proof -
  have "i = j" if "i < PIPE_CAPACITY" "j \<le> i" "(r + i) mod PIPE_CAPACITY = (r + j) mod PIPE_CAPACITY" for i j
  proof -
    have "PIPE_CAPACITY dvd (r + i) - (r + j)"
      using that(2,3) mod_eq_dvd_iff_nat [of "r + j" "r + i" PIPE_CAPACITY] by simp
    then show ?thesis using that(1,2) nat_dvd_not_less [of "i - j" PIPE_CAPACITY] by (cases "i = j") auto
  qed
  from this [of i j] this [of j i] assms show ?thesis by (metis nat_le_linear)
qed

lemma ring_shift: "(Suc a mod n + b) mod n = Suc (a + b) mod n"
  by (metis add_Suc mod_add_left_eq)

text \<open>One byte in, one byte out: what an iteration of each loop amounts to, length included.\<close>

definition push1 :: "PipeBuffer \<Rightarrow> byte \<Rightarrow> PipeBuffer" where
  "push1 pb d = pb\<lparr>pb_buf := (pb_buf pb)[pb_write_pos pb := d],
     pb_write_pos := (pb_write_pos pb + 1) mod PIPE_CAPACITY, pb_len := pb_len pb + 1\<rparr>"

definition pop1 :: "PipeBuffer \<Rightarrow> PipeBuffer" where
  "pop1 pb = pb\<lparr>pb_read_pos := (pb_read_pos pb + 1) mod PIPE_CAPACITY, pb_len := pb_len pb - 1\<rparr>"

lemma push1_ok:
  assumes "pipe_inv pb" "pb_len pb < PIPE_CAPACITY"
  shows "pipe_inv (push1 pb d)" "pipe_contents (push1 pb d) = pipe_contents pb @ [d]"
    "pb_len (push1 pb d) = Suc (pb_len pb)"
proof -
  let ?w = "(pb_read_pos pb + pb_len pb) mod PIPE_CAPACITY"
  have w: "pb_write_pos pb = ?w" "length (pb_buf pb) = PIPE_CAPACITY" "pb_write_pos pb < PIPE_CAPACITY"
    using assms(1) by (simp_all add: pipe_inv_def)
  show "pipe_inv (push1 pb d)"
    using assms by (auto simp: pipe_inv_def push1_def mod_Suc_eq)
  show "pb_len (push1 pb d) = Suc (pb_len pb)" by (simp add: push1_def)
  have old: "?w \<noteq> (pb_read_pos pb + i) mod PIPE_CAPACITY" if "i < pb_len pb" for i
    using ring_pos_inj [of i "pb_len pb" "pb_read_pos pb"] that assms(2) by auto
  show "pipe_contents (push1 pb d) = pipe_contents pb @ [d]"
    using w by (simp add: pipe_contents_def push1_def nth_list_update_neq [OF old])
qed

lemma pop1_ok:
  assumes "pipe_inv pb" "0 < pb_len pb"
  shows "pipe_inv (pop1 pb)" "pipe_contents pb = pb_buf pb ! pb_read_pos pb # pipe_contents (pop1 pb)"
proof -
  show "pipe_inv (pop1 pb)"
    using assms by (cases "pb_len pb") (auto simp: pipe_inv_def pop1_def ring_shift)
  have "[0..<pb_len pb] = 0 # map Suc [0..<pb_len pb - 1]"
    using assms(2) by (simp add: map_Suc_upt upt_conv_Cons)
  then show "pipe_contents pb = pb_buf pb ! pb_read_pos pb # pipe_contents (pop1 pb)"
    using assms by (simp add: pipe_contents_def pop1_def pipe_inv_def ring_shift)
qed

lemma write_loop_len:
  "write_loop (pb\<lparr>pb_len := l\<rparr>) ds = map_option (\<lambda>q. q\<lparr>pb_len := l\<rparr>) (write_loop pb ds)"
proof (induction ds arbitrary: pb)
  case (Cons d ds)
  show ?case
    using Cons [of "pb\<lparr>pb_buf := (pb_buf pb)[pb_write_pos pb := d], pb_write_pos := (pb_write_pos pb + 1) mod PIPE_CAPACITY\<rparr>"]
    by (cases pb) (auto simp: aset_def)
qed simp

lemma write_loop_push1:
  "pipe_inv pb \<Longrightarrow> pb_len pb + length ds \<le> PIPE_CAPACITY \<Longrightarrow>
     \<exists>q. write_loop pb ds = Some q \<and> q\<lparr>pb_len := pb_len q + length ds\<rparr> = foldl push1 pb ds"
proof (induction ds arbitrary: pb)
  case (Cons d ds)
  let ?p = "pb\<lparr>pb_buf := (pb_buf pb)[pb_write_pos pb := d], pb_write_pos := (pb_write_pos pb + 1) mod PIPE_CAPACITY\<rparr>"
  have eq: "push1 pb d = ?p\<lparr>pb_len := pb_len pb + 1\<rparr>" by (simp add: push1_def)
  have "pipe_inv (push1 pb d)" "pb_len (push1 pb d) + length ds \<le> PIPE_CAPACITY"
    using Cons.prems push1_ok [of pb d] by auto
  from Cons.IH [OF this] have "\<exists>q. write_loop ?p ds = Some q \<and>
     q\<lparr>pb_len := pb_len pb + 1 + length ds\<rparr> = foldl push1 (push1 pb d) ds"
    unfolding eq write_loop_len by auto
  moreover have "pb_write_pos pb < length (pb_buf pb)" using Cons.prems(1) by (simp add: pipe_inv_def)
  moreover have "pb_len q = pb_len pb" if "write_loop ?p ds = Some q" for q
  proof -
    have "?p\<lparr>pb_len := pb_len pb\<rparr> = ?p" by simp
    then have "q = q\<lparr>pb_len := pb_len pb\<rparr>" using write_loop_len [of "pb_len pb" ?p ds] that by auto
    then have "pb_len q = pb_len (q\<lparr>pb_len := pb_len pb\<rparr>)" by (rule arg_cong)
    then show ?thesis by simp
  qed
  ultimately show ?case by (auto simp: rust_simps)
qed simp

lemma foldl_push1_ok:
  "pipe_inv pb \<Longrightarrow> pb_len pb + length ds \<le> PIPE_CAPACITY \<Longrightarrow>
     pipe_inv (foldl push1 pb ds) \<and> pipe_contents (foldl push1 pb ds) = pipe_contents pb @ ds"
  by (induction ds arbitrary: pb) (simp_all add: push1_ok)

lemma write_bytes_ok:
  assumes "pipe_inv pb"
  shows "\<exists>q. write_bytes pb d = Some (q, min (length d) (PIPE_CAPACITY - pb_len pb)) \<and> pipe_inv q
     \<and> pipe_contents q = pipe_contents pb @ take (PIPE_CAPACITY - pb_len pb) d"
proof -
  let ?n = "min (length d) (PIPE_CAPACITY - pb_len pb)"
  have le: "pb_len pb \<le> PIPE_CAPACITY" using assms by (simp add: pipe_inv_def)
  then have fits: "pb_len pb + length (take ?n d) \<le> PIPE_CAPACITY" by simp
  have tk: "take ?n d = take (PIPE_CAPACITY - pb_len pb) d" by (simp add: min_def)
  obtain q where q: "write_loop pb (take ?n d) = Some q"
    "q\<lparr>pb_len := pb_len q + length (take ?n d)\<rparr> = foldl push1 pb (take ?n d)"
    using write_loop_push1 [OF assms fits] by blast
  have len: "length (take ?n d) = ?n" by simp
  have "write_bytes pb d = Some (q\<lparr>pb_len := pb_len q + ?n\<rparr>, ?n)"
    using q(1) le by (simp add: write_bytes_def writable_def rust_simps Let_def)
  then show ?thesis using q(2) foldl_push1_ok [OF assms fits] by (simp only: len tk) auto
qed

lemma read_loop_len:
  "read_loop (pb\<lparr>pb_len := l\<rparr>) n = map_option (\<lambda>(q, bs). (q\<lparr>pb_len := l\<rparr>, bs)) (read_loop pb n)"
proof (induction n arbitrary: pb)
  case (Suc n)
  show ?case
    using Suc [of "pb\<lparr>pb_read_pos := (pb_read_pos pb + 1) mod PIPE_CAPACITY\<rparr>"]
    by (cases pb; cases "read_loop (pb\<lparr>pb_read_pos := (pb_read_pos pb + 1) mod PIPE_CAPACITY\<rparr>) n")
      (auto simp: aget_def)
qed simp

lemma read_loop_pop1:
  "pipe_inv pb \<Longrightarrow> n \<le> pb_len pb \<Longrightarrow>
     \<exists>q. read_loop pb n = Some (q, take n (pipe_contents pb)) \<and> pb_len q = pb_len pb
       \<and> pipe_inv (q\<lparr>pb_len := pb_len pb - n\<rparr>) \<and> pipe_contents (q\<lparr>pb_len := pb_len pb - n\<rparr>) = drop n (pipe_contents pb)"
proof (induction n arbitrary: pb)
  case (Suc n)
  let ?p = "pb\<lparr>pb_read_pos := (pb_read_pos pb + 1) mod PIPE_CAPACITY\<rparr>"
  have eq: "pop1 pb = ?p\<lparr>pb_len := pb_len pb - 1\<rparr>" by (simp add: pop1_def)
  have p: "pipe_inv (pop1 pb)" "n \<le> pb_len (pop1 pb)" "pb_len (pop1 pb) - n = pb_len pb - Suc n"
    "pipe_contents pb = pb_buf pb ! pb_read_pos pb # pipe_contents (pop1 pb)"
    "pb_read_pos pb < length (pb_buf pb)"
    using Suc.prems pop1_ok [of pb] by (auto simp: pop1_def pipe_inv_def)
  from Suc.IH [OF p(1,2)] obtain q where q: "read_loop (pop1 pb) n = Some (q, take n (pipe_contents (pop1 pb)))"
    "pipe_inv (q\<lparr>pb_len := pb_len pb - Suc n\<rparr>)"
    "pipe_contents (q\<lparr>pb_len := pb_len pb - Suc n\<rparr>) = drop n (pipe_contents (pop1 pb))"
    unfolding p(3) by blast
  from read_loop_len [of "pb_len pb" "pop1 pb" n] q(1)
  have "read_loop ?p n = Some (q\<lparr>pb_len := pb_len pb\<rparr>, take n (pipe_contents (pop1 pb)))"
    by (simp add: eq)
  then show ?case using q p by (simp add: rust_simps)
qed (simp add: pipe_contents_def)

lemma read_bytes_ok:
  assumes "pipe_inv pb"
  shows "\<exists>q. read_bytes pb m = Some (q, take m (pipe_contents pb)) \<and> pipe_inv q
     \<and> pipe_contents q = drop m (pipe_contents pb)"
proof -
  let ?n = "min m (pb_len pb)"
  have "take ?n (pipe_contents pb) = take m (pipe_contents pb)"
    "drop ?n (pipe_contents pb) = drop m (pipe_contents pb)" by (simp_all add: min_def)
  with read_loop_pop1 [OF assms, of ?n] show ?thesis
    by (auto simp: read_bytes_def readable_def rust_simps Let_def)
qed

interpretation pipeq: byte_queue pipe_contents pipe_inv PIPE_CAPACITY write_bytes read_bytes
proof (unfold_locales, goal_cases)
  case (1 q)
  then show ?case by (simp add: pipe_inv_def)
next
  case (2 q d)
  then show ?case using write_bytes_ok by simp
next
  case (3 q n)
  then show ?case using read_bytes_ok by simp
qed

lemma pipe_contents_closed [simp]:
  "pipe_contents (pb\<lparr>pb_write_closed := b\<rparr>) = pipe_contents pb"
  "pipe_contents (pb\<lparr>pb_read_closed := b\<rparr>) = pipe_contents pb"
  "pipe_inv (pb\<lparr>pb_write_closed := b\<rparr>) = pipe_inv pb"
  "pipe_inv (pb\<lparr>pb_read_closed := b\<rparr>) = pipe_inv pb"
  by (simp_all add: pipe_contents_def pipe_inv_def)

lemma pipe_contents_Nil_iff: "pipe_contents pb = [] \<longleftrightarrow> pb_len pb = 0"
  by (simp add: pipe_contents_def)

lemma read_end_poll_ok:
  assumes "pipe_inv pb" "0 < m"
  obtains "pb_len pb = 0" "\<not> pb_write_closed pb" "read_end_poll pb m = Some (Waiting, pb)"
  | "pb_len pb = 0" "pb_write_closed pb" "read_end_poll pb m = Some (Done (Inr []), pb)"
  | q where "pb_len pb \<noteq> 0" "read_end_poll pb m = Some (Done (Inr (take m (pipe_contents pb))), q)"
      "pipe_inv q" "pipe_contents q = drop m (pipe_contents pb)"
proof (cases "pb_len pb = 0")
  case True
  then show ?thesis using that(1,2) by (cases "pb_write_closed pb") (auto simp: read_end_poll_def readable_def)
next
  case False
  from read_bytes_ok [OF assms(1), of m] obtain q where
    q: "read_bytes pb m = Some (q, take m (pipe_contents pb))" "pipe_inv q" "pipe_contents q = drop m (pipe_contents pb)"
    by blast
  moreover have "take m (pipe_contents pb) \<noteq> []" using False assms(2) by (simp add: pipe_contents_Nil_iff)
  ultimately show ?thesis using that(3) False by (simp add: read_end_poll_def readable_def)
qed

declare read_end_loop.simps [simp del]

text \<open>What a blocking read may return, given the final state of the buffer.\<close>

definition read_outcome :: "nat \<Rightarrow> byte list VfsResult waiting \<Rightarrow> PipeBuffer \<Rightarrow> bool" where
  "read_outcome m r q \<longleftrightarrow> (case r of
      Waiting \<Rightarrow> pipe_contents q = [] \<and> \<not> pb_write_closed q
    | Done (Inl e) \<Rightarrow> False
    | Done (Inr bs) \<Rightarrow> length bs \<le> m \<and> (bs = [] \<longrightarrow> pipe_contents q = [] \<and> pb_write_closed q))"

lemma read_end_loop_ok:
  assumes "0 < m"
  shows "pipe_inv pb \<Longrightarrow> (\<And>f p. f \<in> set others \<Longrightarrow> pipe_inv p \<Longrightarrow> pipe_inv (f p)) \<Longrightarrow>
    \<exists>r q. read_end_loop others pb m = Some (r, q) \<and> pipe_inv q \<and> read_outcome m r q
      \<and> (r = Waiting \<longrightarrow> q = fold (\<lambda>f p. f p) others pb)"
proof (induction others arbitrary: pb)
  case Nil
  show ?case
    by (rule read_end_poll_ok [OF Nil.prems(1) assms])
      (use Nil.prems(1) assms in \<open>auto simp: read_end_loop.simps [of "[]"] read_outcome_def pipe_contents_Nil_iff\<close>)
next
  case (Cons f fs)
  have "pipe_inv (f pb)" using Cons.prems by simp
  from Cons.IH [OF this] Cons.prems(2) obtain r q where
    "read_end_loop fs (f pb) m = Some (r, q) \<and> pipe_inv q \<and> read_outcome m r q
      \<and> (r = Waiting \<longrightarrow> q = fold (\<lambda>f p. f p) fs (f pb))" by auto
  then show ?case
    by (cases rule: read_end_poll_ok [OF Cons.prems(1) assms])
      (use Cons.prems(1) assms in \<open>auto simp: read_end_loop.simps [of "f # fs"] read_outcome_def pipe_contents_Nil_iff\<close>)
qed

section \<open>Properties\<close>

text \<open>C5: over any interleaving of writes and reads on a new pipe no operation panics, the bytes
  read so far followed by the bytes still buffered are exactly the bytes accepted so far, in
  order, and at most the capacity is buffered.\<close>

theorem pipe_fifo:
  "\<exists>q accepted delivered. pipeq.run pipe_new ops = Some (q, accepted, delivered)
     \<and> accepted = delivered @ pipe_contents q \<and> length (pipe_contents q) \<le> PIPE_CAPACITY"
proof -
  have e: "pipe_contents pipe_new = []" by (simp add: pipe_new_def pipe_contents_def)
  obtain q ins outs where "pipeq.run pipe_new ops = Some (q, ins, outs)" "pipe_inv q"
    "pipe_contents pipe_new @ ins = outs @ pipe_contents q"
    using pipeq.run_fifo [OF pipe_new_inv] by blast
  with pipeq.bound [of q] show ?thesis by (simp add: e)
qed

text \<open>C6: a read of at least one byte never fails and never panics, whatever the other
  tasks do to the buffer meanwhile: it returns at most the bytes asked for, returns no bytes only
  when the buffer is empty and every writer is gone, and still waits only if, after everything
  the other tasks did, the buffer is empty with a writer left.\<close>

theorem pipe_read_blocks:
  assumes "pipe_inv pb" "0 < m" "\<And>f p. f \<in> set others \<Longrightarrow> pipe_inv p \<Longrightarrow> pipe_inv (f p)"
  shows "\<exists>r q. read_end_read others pb m = Some (r, q) \<and> pipe_inv q \<and> read_outcome m r q
      \<and> (r = Waiting \<longrightarrow> q = fold (\<lambda>f p. f p) others pb)"
  using read_end_loop_ok [OF assms(2,1)] assms(2,3) by (simp add: read_end_read_def)

theorem pipe_read_blocks_witness:
  "\<exists>r q. read_end_read [\<lambda>p. case write_bytes p [7, 8] of Some (q, _) \<Rightarrow> q | None \<Rightarrow> p] pipe_new 5 = Some (r, q)
     \<and> read_outcome 5 r q"
proof -
  let ?f = "\<lambda>p. case write_bytes p [7, 8] of Some (q, _) \<Rightarrow> q | None \<Rightarrow> p"
  have ok: "pipe_inv (?f p)" if "pipe_inv p" for p
    using write_bytes_ok [OF that, of "[7, 8]"] by auto
  have "\<exists>r q. read_end_read [?f] pipe_new 5 = Some (r, q) \<and> pipe_inv q \<and> read_outcome 5 r q
      \<and> (r = Waiting \<longrightarrow> q = fold (\<lambda>f p. f p) [?f] pipe_new)"
    by (rule pipe_read_blocks [OF pipe_new_inv]) (simp, use ok in \<open>simp only: list.set singleton_iff\<close>)
  then show ?thesis by blast
qed

text \<open>a non-empty write fails with a broken pipe exactly when every reader is gone,
  asks the caller to retry exactly when there are readers and no space, and otherwise accepts the
  longest prefix that fits, appending it to the buffered bytes.\<close>

theorem pipe_write_outcome:
  assumes "pipe_inv pb" "d \<noteq> []"
  shows "\<exists>r q. write_end_write pb d = Some (r, q) \<and> pipe_inv q \<and>
    (if pb_read_closed pb then r = Inl BrokenPipe \<and> q = pb
     else if length (pipe_contents pb) = PIPE_CAPACITY then r = Inl WouldBlock \<and> q = pb
     else r = Inr (min (length d) (PIPE_CAPACITY - length (pipe_contents pb)))
       \<and> pipe_contents q = pipe_contents pb @ take (PIPE_CAPACITY - length (pipe_contents pb)) d)"
proof -
  have "pb_len pb \<le> PIPE_CAPACITY" using assms(1) by (simp add: pipe_inv_def)
  then show ?thesis using write_bytes_ok [OF assms(1), of d] assms
    by (auto simp: write_end_write_def writable_def rust_simps)
qed

theorem pipe_write_outcome_witness:
  "\<exists>r q. write_end_write (read_end_drop pipe_new) [1] = Some (r, q) \<and> r = Inl BrokenPipe"
  using pipe_write_outcome [of "read_end_drop pipe_new" "[1]"] pipe_new_inv
  by (auto simp: read_end_drop_def)

end
