(* ===== verification/Phys.thy ===== *)
theory Phys imports RPrelude begin

text \<open>
  \<open>kernel/src/mm/phys.rs\<close>: the bitmap allocator of physical frames. A set bit is an allocated
  or reserved frame. Atomic read-modify-write operations return the previous word. The operations
  are those of one processor on its own; \<open>PhysSmp\<close> has the two allocations with other
  processors acting before each access to the bitmap.
\<close>

unbundle bit_operations_syntax

definition FRAME_SIZE :: nat where "FRAME_SIZE = 4096"
definition MAX_FRAMES :: nat where "MAX_FRAMES = 1024 * 1024"
definition BITMAP_SIZE :: nat where "BITMAP_SIZE = MAX_FRAMES div 64"

type_synonym PhysFrame = nat
type_synonym bitmap = "u64 list"

definition frame_addr :: "PhysFrame \<Rightarrow> nat" where
  "frame_addr f = f * FRAME_SIZE"

definition frame_containing :: "nat \<Rightarrow> PhysFrame" where
  "frame_containing a = a div FRAME_SIZE"

datatype FrameError = OutOfMemory | DoubleFree PhysFrame | OutOfRange PhysFrame

record BitmapAllocator =
  bitmap :: bitmap
  total_frames :: nat
  usable_frames :: nat

definition phys_new :: BitmapAllocator where
  "phys_new = \<lparr>bitmap = replicate BITMAP_SIZE (- 1), total_frames = 0, usable_frames = 0\<rparr>"

text \<open>\<open>fetch_or\<close> and \<open>fetch_and\<close> of the bit of frame \<open>f\<close>: the new bitmap and the previous word.\<close>

definition bm_set :: "bitmap \<Rightarrow> nat \<Rightarrow> (bitmap \<times> u64) option" where
  "bm_set bm f = do {
     w \<leftarrow> aget bm (f div 64);
     bm' \<leftarrow> aset bm (f div 64) (w OR push_bit (f mod 64) 1);
     Some (bm', w) }"

definition bm_clear :: "bitmap \<Rightarrow> nat \<Rightarrow> (bitmap \<times> u64) option" where
  "bm_clear bm f = do {
     w \<leftarrow> aget bm (f div 64);
     bm' \<leftarrow> aset bm (f div 64) (w AND NOT (push_bit (f mod 64) 1));
     Some (bm', w) }"

fun usable_loop :: "BitmapAllocator \<Rightarrow> nat list \<Rightarrow> BitmapAllocator option" where
  "usable_loop a [] = Some a"
| "usable_loop a (f # fs) = do {
     (bm, _) \<leftarrow> bm_clear (bitmap a) f;
     usable_loop (a\<lparr>bitmap := bm, usable_frames := usable_frames a + 1\<rparr>) fs }"

definition mark_usable :: "BitmapAllocator \<Rightarrow> nat \<Rightarrow> nat \<Rightarrow> BitmapAllocator option" where
  "mark_usable a base sz =
     (if sz = 0 then Some a
      else do {
        b1 \<leftarrow> cadd64 base FRAME_SIZE;
        let start_frame = (b1 - 1) div FRAME_SIZE;
        e \<leftarrow> cadd64 base sz;
        let end_frame = e div FRAME_SIZE;
        if start_frame \<ge> MAX_FRAMES then Some a
        else do {
          let end_frame = min end_frame MAX_FRAMES;
          a' \<leftarrow> usable_loop a [start_frame..<end_frame];
          Some (a'\<lparr>total_frames := max (total_frames a') end_frame\<rparr>) } })"

fun reserved_loop :: "BitmapAllocator \<Rightarrow> nat list \<Rightarrow> BitmapAllocator option" where
  "reserved_loop a [] = Some a"
| "reserved_loop a (f # fs) = do {
     (bm, prev) \<leftarrow> bm_set (bitmap a) f;
     reserved_loop (a\<lparr>bitmap := bm,
       usable_frames := (if bit prev (f mod 64) then usable_frames a else usable_frames a - 1)\<rparr>) fs }"

definition mark_reserved :: "BitmapAllocator \<Rightarrow> nat \<Rightarrow> nat \<Rightarrow> BitmapAllocator option" where
  "mark_reserved a base sz =
     (if sz = 0 then Some a
      else do {
        let start_frame = base div FRAME_SIZE;
        e \<leftarrow> cadd64 base sz;
        e1 \<leftarrow> cadd64 e FRAME_SIZE;
        let end_frame = min ((e1 - 1) div FRAME_SIZE) MAX_FRAMES;
        reserved_loop a [start_frame..<end_frame] })"

text \<open>\<open>alloc\<close>: the loop over the words from index \<open>idx\<close> on, \<open>n\<close> words left.\<close>

fun alloc_loop :: "BitmapAllocator \<Rightarrow> nat \<Rightarrow> nat \<Rightarrow> ((FrameError + PhysFrame) \<times> BitmapAllocator) option" where
  "alloc_loop a idx 0 = Some (Inl OutOfMemory, a)"
| "alloc_loop a idx (Suc n) = do {
     val \<leftarrow> aget (bitmap a) idx;
     if val = - 1 then alloc_loop a (Suc idx) n
     else do {
       let b = trailing_zeros (NOT val);
       let frame = idx * 64 + b;
       if frame \<ge> total_frames a then Some (Inl OutOfMemory, a)
       else do {
         (bm, prev) \<leftarrow> bm_set (bitmap a) frame;
         if \<not> bit prev b then Some (Inr frame, a\<lparr>bitmap := bm\<rparr>)
         else alloc_loop (a\<lparr>bitmap := bm\<rparr>) (Suc idx) n } } }"

definition alloc :: "BitmapAllocator \<Rightarrow> ((FrameError + PhysFrame) \<times> BitmapAllocator) option" where
  "alloc a = alloc_loop a 0 (min ((total_frames a + 63) div 64) BITMAP_SIZE)"

text \<open>Phase 1: the scan at \<open>frame\<close>, the current run starting at \<open>run_start\<close>; \<open>n\<close> frames left.\<close>

fun scan_run :: "bitmap \<Rightarrow> nat \<Rightarrow> nat \<Rightarrow> nat \<Rightarrow> nat \<Rightarrow> nat \<Rightarrow> nat option option" where
  "scan_run bm count frame run_start run_len 0 = Some None"
| "scan_run bm count frame run_start run_len (Suc n) = do {
     w \<leftarrow> aget bm (frame div 64);
     if bit w (frame mod 64) then scan_run bm count (frame + 1) (frame + 1) 0 n
     else if run_len + 1 = count then Some (Some run_start)
     else scan_run bm count (frame + 1) run_start (run_len + 1) n }"

text \<open>Phase 2: claim frame after frame; the second result is the conflicting frame, if any.\<close>

fun claim_run :: "bitmap \<Rightarrow> nat \<Rightarrow> nat \<Rightarrow> (bitmap \<times> nat option) option" where
  "claim_run bm f 0 = Some (bm, None)"
| "claim_run bm f (Suc n) = do {
     (bm', prev) \<leftarrow> bm_set bm f;
     if bit prev (f mod 64) then Some (bm', Some f) else claim_run bm' (f + 1) n }"

fun undo_run :: "bitmap \<Rightarrow> nat list \<Rightarrow> bitmap option" where
  "undo_run bm [] = Some bm"
| "undo_run bm (f # fs) = do { (bm', _) \<leftarrow> bm_clear bm f; undo_run bm' fs }"

text \<open>The outer loop. \<open>k\<close> bounds the retries: each one starts beyond the last conflict, so that
  \<open>total + 1\<close> of them cannot run out (\<open>PhysSmp\<close> has the proof with other processors acting).\<close>

fun contiguous_loop ::
  "nat \<Rightarrow> BitmapAllocator \<Rightarrow> nat \<Rightarrow> nat
    \<Rightarrow> ((FrameError + PhysFrame) \<times> BitmapAllocator) option" where
  "contiguous_loop count a search_from 0 = None"
| "contiguous_loop count a search_from (Suc k) = do {
     found \<leftarrow> scan_run (bitmap a) count search_from search_from 0 (total_frames a - search_from);
     case found of
       None \<Rightarrow> Some (Inl OutOfMemory, a)
     | Some start \<Rightarrow> do {
         (bm, conflict_at) \<leftarrow> claim_run (bitmap a) start count;
         case conflict_at of
           None \<Rightarrow> Some (Inr start, a\<lparr>bitmap := bm\<rparr>)
         | Some conflict \<Rightarrow> do {
             bm' \<leftarrow> undo_run bm [start..<conflict];
             if conflict + 1 + count > total_frames a then Some (Inl OutOfMemory, a\<lparr>bitmap := bm'\<rparr>)
             else contiguous_loop count (a\<lparr>bitmap := bm'\<rparr>) (conflict + 1) k } } }"

definition alloc_contiguous ::
  "BitmapAllocator \<Rightarrow> nat \<Rightarrow> ((FrameError + PhysFrame) \<times> BitmapAllocator) option" where
  "alloc_contiguous a count =
     (if count = 0 then Some (Inl OutOfMemory, a)
      else if count = 1 then alloc a
      else if count > total_frames a then Some (Inl OutOfMemory, a)
      else contiguous_loop count a 0 (total_frames a + 1))"

definition phys_free :: "BitmapAllocator \<Rightarrow> PhysFrame \<Rightarrow> ((FrameError + unit) \<times> BitmapAllocator) option" where
  "phys_free a f =
     (if f \<ge> MAX_FRAMES then Some (Inl (OutOfRange f), a)
      else do {
        (bm, prev) \<leftarrow> bm_clear (bitmap a) f;
        Some (if \<not> bit prev (f mod 64) then Inl (DoubleFree f) else Inr (), a\<lparr>bitmap := bm\<rparr>) })"

definition usable_frame_count :: "BitmapAllocator \<Rightarrow> nat" where
  "usable_frame_count a = usable_frames a"

fun zeros_loop :: "bitmap \<Rightarrow> nat list \<Rightarrow> nat option" where
  "zeros_loop bm [] = Some 0"
| "zeros_loop bm (i # is) = do {
     w \<leftarrow> aget bm i;
     c \<leftarrow> zeros_loop bm is;
     Some (count_zeros w + c) }"

definition free_frame_count :: "BitmapAllocator \<Rightarrow> nat option" where
  "free_frame_count a = do {
     count \<leftarrow> zeros_loop (bitmap a) [0..<min ((total_frames a + 63) div 64) BITMAP_SIZE];
     let remainder = total_frames a mod 64;
     if remainder \<noteq> 0 then csub count (64 - remainder) else Some count }"

text \<open>The boot memory map: base, size and whether the region is usable.\<close>

type_synonym MemoryMapEntry = "nat \<times> nat \<times> bool"

fun init_from_memory_map :: "BitmapAllocator \<Rightarrow> MemoryMapEntry list \<Rightarrow> BitmapAllocator option" where
  "init_from_memory_map a [] = Some a"
| "init_from_memory_map a ((base, sz, usable) # es) = do {
     a' \<leftarrow> (if usable then mark_usable a base sz else Some a);
     init_from_memory_map a' es }"

text \<open>The boot sequence of \<open>main.rs\<close>: the firmware's memory map, then the reservations of the first 16 MiB and,
  if there is a framebuffer (\<open>address\<close>, \<open>pitch\<close>, \<open>height\<close>), of its memory.\<close>

definition boot_frames :: "MemoryMapEntry list \<Rightarrow> nat \<times> nat \<times> nat \<Rightarrow> BitmapAllocator option" where
  "boot_frames es fb = (case fb of (address, pitch, height) \<Rightarrow> do {
     a \<leftarrow> init_from_memory_map phys_new es;
     a \<leftarrow> mark_reserved a 0 (16 * 1024 * 1024);
     if address \<noteq> 0 then do {
       fb_size \<leftarrow> cmul64 pitch height;
       mark_reserved a address fb_size }
     else Some a })"

section \<open>Bitmap algebra\<close>

definition bm_bit :: "bitmap \<Rightarrow> nat \<Rightarrow> bool" where
  "bm_bit bm f \<longleftrightarrow> bit (bm ! (f div 64)) (f mod 64)"

lemma div_mod_64_eq: "(f :: nat) div 64 = g div 64 \<Longrightarrow> f mod 64 = g mod 64 \<Longrightarrow> f = g"
  by (metis div_mult_mod_eq)

lemma bm_set_ok:
  assumes "f < 64 * length bm"
  shows "\<exists>bm'. bm_set bm f = Some (bm', bm ! (f div 64)) \<and> length bm' = length bm
     \<and> (\<forall>g. bm_bit bm' g \<longleftrightarrow> g = f \<or> bm_bit bm g)"
proof -
  have i: "f div 64 < length bm" using assms by (simp add: less_mult_imp_div_less mult.commute)
  have "bm_bit (bm[f div 64 := bm ! (f div 64) OR push_bit (f mod 64) 1]) g \<longleftrightarrow> g = f \<or> bm_bit bm g" for g
    using i div_mod_64_eq [of g f] bit_or_one [of "f mod 64" "bm ! (f div 64)" "g mod 64"]
    by (cases "g div 64 = f div 64") (auto simp: bm_bit_def)
  then show ?thesis using i by (simp add: bm_set_def rust_simps)
qed

lemma bm_clear_ok:
  assumes "f < 64 * length bm"
  shows "\<exists>bm'. bm_clear bm f = Some (bm', bm ! (f div 64)) \<and> length bm' = length bm
     \<and> (\<forall>g. bm_bit bm' g \<longleftrightarrow> g \<noteq> f \<and> bm_bit bm g)"
proof -
  have i: "f div 64 < length bm" using assms by (simp add: less_mult_imp_div_less mult.commute)
  have "bm_bit (bm[f div 64 := bm ! (f div 64) AND NOT (push_bit (f mod 64) 1)]) g \<longleftrightarrow> g \<noteq> f \<and> bm_bit bm g" for g
    using i div_mod_64_eq [of g f] bit_and_not_one [of "f mod 64" "bm ! (f div 64)" "g mod 64"]
    by (cases "g div 64 = f div 64") (auto simp: bm_bit_def)
  then show ?thesis using i by (simp add: bm_clear_def rust_simps)
qed

definition phys_inv :: "BitmapAllocator \<Rightarrow> bool" where
  "phys_inv a \<longleftrightarrow> length (bitmap a) = BITMAP_SIZE \<and> total_frames a \<le> MAX_FRAMES"

definition frame_free :: "BitmapAllocator \<Rightarrow> nat \<Rightarrow> bool" where
  "frame_free a f \<longleftrightarrow> f < MAX_FRAMES \<and> \<not> bm_bit (bitmap a) f"

lemma BITMAP_SIZE_frames [simp]: "64 * BITMAP_SIZE = MAX_FRAMES"
  by (simp add: BITMAP_SIZE_def MAX_FRAMES_def)

lemma phys_new_inv: "phys_inv phys_new"
  by (simp add: phys_inv_def phys_new_def)

lemma phys_new_none_free: "\<not> frame_free phys_new f"
  by (auto simp: frame_free_def phys_new_def bm_bit_def BITMAP_SIZE_def MAX_FRAMES_def)

section \<open>Marking regions\<close>

lemma usable_loop_ok:
  "phys_inv a \<Longrightarrow> (\<forall>f \<in> set fs. f < MAX_FRAMES) \<Longrightarrow> \<exists>a'. usable_loop a fs = Some a' \<and> phys_inv a'
     \<and> total_frames a' = total_frames a \<and> usable_frames a' = usable_frames a + length fs
     \<and> (\<forall>g. frame_free a' g \<longleftrightarrow> frame_free a g \<or> g \<in> set fs)"
proof (induction fs arbitrary: a)
  case (Cons f fs)
  obtain bm where bm: "bm_clear (bitmap a) f = Some (bm, bitmap a ! (f div 64))" "length bm = BITMAP_SIZE"
    "\<forall>g. bm_bit bm g \<longleftrightarrow> g \<noteq> f \<and> bm_bit (bitmap a) g"
    using bm_clear_ok [of f "bitmap a"] Cons.prems by (auto simp: phys_inv_def)
  let ?a = "a\<lparr>bitmap := bm, usable_frames := usable_frames a + 1\<rparr>"
  have "phys_inv ?a" using bm Cons.prems by (simp add: phys_inv_def)
  from Cons.IH [OF this] Cons.prems bm show ?case by (auto simp: frame_free_def)
qed simp

lemma reserved_loop_ok:
  "phys_inv a \<Longrightarrow> (\<forall>f \<in> set fs. f < MAX_FRAMES) \<Longrightarrow> \<exists>a'. reserved_loop a fs = Some a' \<and> phys_inv a'
     \<and> total_frames a' = total_frames a
     \<and> (\<forall>g. frame_free a' g \<longleftrightarrow> frame_free a g \<and> g \<notin> set fs)"
proof (induction fs arbitrary: a)
  case (Cons f fs)
  obtain bm where bm: "bm_set (bitmap a) f = Some (bm, bitmap a ! (f div 64))" "length bm = BITMAP_SIZE"
    "\<forall>g. bm_bit bm g \<longleftrightarrow> g = f \<or> bm_bit (bitmap a) g"
    using bm_set_ok [of f "bitmap a"] Cons.prems by (auto simp: phys_inv_def)
  let ?a = "a\<lparr>bitmap := bm, usable_frames := (if bit (bitmap a ! (f div 64)) (f mod 64) then usable_frames a else usable_frames a - 1)\<rparr>"
  have "phys_inv ?a" using bm Cons.prems by (simp add: phys_inv_def)
  from Cons.IH [OF this] Cons.prems bm show ?case by (auto simp: frame_free_def)
qed simp

section \<open>Single frames\<close>

lemma not_eq_minus1_bit: "(w :: u64) \<noteq> - 1 \<Longrightarrow> NOT w \<noteq> 0"
  by (metis bit.compl_zero bit.double_compl)

lemma first_free_in_word:
  assumes "(w :: u64) \<noteq> - 1"
  shows "trailing_zeros (NOT w) < 64 \<and> \<not> bit w (trailing_zeros (NOT w)) \<and> (\<forall>j < trailing_zeros (NOT w). bit w j)"
  using trailing_zeros_least [OF not_eq_minus1_bit [OF assms]] word_bit_bound [of "NOT w" "trailing_zeros (NOT w)"]
  by (auto simp: bit_simps)

text \<open>The result of a search: the lowest free frame among the tracked ones, now allocated.\<close>

definition alloc_result :: "BitmapAllocator \<Rightarrow> (FrameError + PhysFrame) \<times> BitmapAllocator \<Rightarrow> bool" where
  "alloc_result a r \<longleftrightarrow> (case r of
      (Inl e, a') \<Rightarrow> e = OutOfMemory \<and> a' = a \<and> (\<forall>f < total_frames a. \<not> frame_free a f)
    | (Inr f, a') \<Rightarrow> f < total_frames a \<and> frame_free a f \<and> (\<forall>g < f. \<not> frame_free a g) \<and> phys_inv a'
        \<and> total_frames a' = total_frames a \<and> usable_frames a' = usable_frames a
        \<and> (\<forall>g. frame_free a' g \<longleftrightarrow> frame_free a g \<and> g \<noteq> f))"

lemma alloc_loop_ok:
  "phys_inv a \<Longrightarrow> idx + n = min ((total_frames a + 63) div 64) BITMAP_SIZE \<Longrightarrow>
   (\<forall>f < 64 * idx. \<not> frame_free a f) \<Longrightarrow> \<exists>r. alloc_loop a idx n = Some r \<and> alloc_result a r"
proof (induction n arbitrary: idx)
  case 0
  then have "total_frames a \<le> 64 * idx"
    by (auto simp: phys_inv_def min_def BITMAP_SIZE_def MAX_FRAMES_def split: if_splits)
  then show ?case using 0 by (auto simp: alloc_result_def)
next
  case (Suc n)
  let ?w = "bitmap a ! idx" and ?t = "trailing_zeros (NOT (bitmap a ! idx))"
  have i: "idx < length (bitmap a)" "length (bitmap a) = BITMAP_SIZE" using Suc.prems by (auto simp: phys_inv_def)
  have word: "bm_bit (bitmap a) (idx * 64 + j) = bit ?w j" if "j < 64" for j
    using that by (simp add: bm_bit_def)
  show ?case
  proof (cases "?w = - 1")
    case True
    have "\<not> frame_free a f" if "f < 64 * Suc idx" for f
    proof (cases "f < 64 * idx")
      case False
      then have "f = idx * 64 + (f - idx * 64)" "f - idx * 64 < 64" using that by auto
      then show ?thesis using word [of "f - idx * 64"] True by (auto simp: frame_free_def)
    qed (use Suc.prems in simp)
    then show ?thesis using Suc.IH [of "Suc idx"] Suc.prems i True by (simp add: rust_simps)
  next
    case False
    note t = first_free_in_word [OF False]
    let ?f = "idx * 64 + ?t"
    have "64 * idx + 64 \<le> 64 * BITMAP_SIZE" using i by linarith
    then have lim: "?f < MAX_FRAMES" using t [THEN conjunct1] unfolding BITMAP_SIZE_frames by linarith
    have before: "\<not> frame_free a g" if "g < ?f" for g
    proof (cases "g < 64 * idx")
      case False
      then have "g = idx * 64 + (g - idx * 64)" "g - idx * 64 < ?t" using that by auto
      then show ?thesis using word [of "g - idx * 64"] t by (auto simp: frame_free_def)
    qed (use Suc.prems in simp)
    obtain bm where bm: "bm_set (bitmap a) ?f = Some (bm, bitmap a ! (?f div 64))" "length bm = BITMAP_SIZE"
      "\<forall>g. bm_bit bm g \<longleftrightarrow> g = ?f \<or> bm_bit (bitmap a) g"
      using bm_set_ok [of ?f "bitmap a"] lim i by auto
    have dv: "?f div 64 = idx" using t by simp
    show ?thesis
    proof (cases "?f \<ge> total_frames a")
      case True
      then show ?thesis using before i False by (auto simp: alloc_result_def rust_simps Let_def)
    next
      case small: False
      then show ?thesis using before i False t bm dv lim word [of ?t] Suc.prems(1)
        by (auto simp: alloc_result_def rust_simps Let_def frame_free_def phys_inv_def)
    qed
  qed
qed

lemma alloc_ok: "phys_inv a \<Longrightarrow> \<exists>r. Phys.alloc a = Some r \<and> alloc_result a r"
  using alloc_loop_ok [of a 0 "min ((total_frames a + 63) div 64) BITMAP_SIZE"]
  by (simp add: Phys.alloc_def)

section \<open>Runs of frames\<close>

definition run_free :: "bitmap \<Rightarrow> nat \<Rightarrow> nat \<Rightarrow> bool" where
  "run_free bm s n \<longleftrightarrow> (\<forall>f. s \<le> f \<and> f < s + n \<longrightarrow> \<not> bm_bit bm f)"

text \<open>The scan finds the first run at or after \<open>from\<close>, if there is one.\<close>

definition scan_result :: "bitmap \<Rightarrow> nat \<Rightarrow> nat \<Rightarrow> nat \<Rightarrow> nat option \<Rightarrow> bool" where
  "scan_result bm count tot from r \<longleftrightarrow> (case r of
      None \<Rightarrow> (\<forall>s. from \<le> s \<and> s + count \<le> tot \<longrightarrow> \<not> run_free bm s count)
    | Some s \<Rightarrow> from \<le> s \<and> s + count \<le> tot \<and> run_free bm s count
        \<and> (\<forall>s'. from \<le> s' \<and> s' < s \<longrightarrow> \<not> run_free bm s' count))"

lemma scan_run_ok:
  assumes "tot \<le> 64 * length bm"
  shows "frame + n = tot \<Longrightarrow> run_start + run_len = frame \<Longrightarrow> run_len < count \<Longrightarrow> from \<le> run_start \<Longrightarrow>
    run_free bm run_start run_len \<Longrightarrow> (\<And>s. from \<le> s \<Longrightarrow> s < run_start \<Longrightarrow> \<not> run_free bm s count) \<Longrightarrow>
    \<exists>r. scan_run bm count frame run_start run_len n = Some r \<and> scan_result bm count tot from r"
proof (induction n arbitrary: frame run_start run_len)
  case 0
  then have "\<not> run_free bm s count" if "from \<le> s" "s + count \<le> tot" for s
    using that by (cases "s < run_start") auto
  then show ?case by (simp add: scan_result_def)
next
  case (Suc n)
  have i: "frame div 64 < length bm" using assms Suc.prems(1) by (simp add: less_mult_imp_div_less mult.commute)
  show ?case
  proof (cases "bm_bit bm frame")
    case True
    have "\<not> run_free bm s count" if "from \<le> s" "s < frame + 1" for s
      using that Suc.prems(2,3,6) True by (cases "s < run_start") (auto simp: run_free_def intro!: exI [of _ frame])
    then have "\<exists>r. scan_run bm count (frame + 1) (frame + 1) 0 n = Some r \<and> scan_result bm count tot from r"
      using Suc.prems(1-4) by (intro Suc.IH) (auto simp: run_free_def [of _ _ 0])
    then show ?thesis using True i by (simp add: rust_simps bm_bit_def)
  next
    case False
    have ext: "run_free bm run_start (run_len + 1)"
      using Suc.prems(2,5) False by (auto simp: run_free_def less_Suc_eq)
    show ?thesis
    proof (cases "run_len + 1 = count")
      case True
      then have "scan_result bm count tot from (Some run_start)"
        using ext Suc.prems by (auto simp: scan_result_def)
      then show ?thesis using False True i by (simp add: rust_simps bm_bit_def)
    next
      case more: False
      then have "\<exists>r. scan_run bm count (frame + 1) run_start (run_len + 1) n = Some r
          \<and> scan_result bm count tot from r"
        using Suc.prems ext by (intro Suc.IH) auto
      then show ?thesis using False more i by (simp add: rust_simps bm_bit_def)
    qed
  qed
qed

text \<open>The claim either takes the whole run, which was free, or stops at the first frame in it that
  was not, having taken the frames before.\<close>

definition claim_result :: "bitmap \<Rightarrow> nat \<Rightarrow> nat \<Rightarrow> bitmap \<Rightarrow> nat option \<Rightarrow> bool" where
  "claim_result bm f n bm' c \<longleftrightarrow> length bm' = length bm \<and> (case c of
      None \<Rightarrow> run_free bm f n \<and> (\<forall>g. bm_bit bm' g \<longleftrightarrow> bm_bit bm g \<or> (f \<le> g \<and> g < f + n))
    | Some x \<Rightarrow> f \<le> x \<and> x < f + n \<and> bm_bit bm x \<and> run_free bm f (x - f)
        \<and> (\<forall>g. bm_bit bm' g \<longleftrightarrow> bm_bit bm g \<or> (f \<le> g \<and> g < x)))"

lemma claim_result_step:
  assumes "\<forall>g. bm_bit b1 g \<longleftrightarrow> g = f \<or> bm_bit bm g" "length b1 = length bm" "\<not> bm_bit bm f"
    and "claim_result b1 (Suc f) n b2 c"
  shows "claim_result bm f (Suc n) b2 c"
proof (cases c)
  case None
  have iv: "f \<le> g \<and> g < f + Suc n \<longleftrightarrow> g = f \<or> (Suc f \<le> g \<and> g < Suc f + n)" for g by arith
  show ?thesis using assms None by (auto simp only: claim_result_def run_free_def iv option.case)
next
  case (Some x)
  then have le: "Suc f \<le> x" using assms(4) by (simp add: claim_result_def)
  have iv: "f \<le> g \<and> g < f + (x - f) \<longleftrightarrow> g = f \<or> (Suc f \<le> g \<and> g < Suc f + (x - Suc f))"
    "f \<le> g \<and> g < x \<longleftrightarrow> g = f \<or> (Suc f \<le> g \<and> g < x)" for g using le by arith+
  have "f \<le> x" "x < f + Suc n" "bm_bit bm x" using assms Some le by (auto simp: claim_result_def)
  moreover have "run_free bm f (x - f)"
    using assms Some by (auto simp only: claim_result_def run_free_def iv option.case)
  moreover have "bm_bit b2 g \<longleftrightarrow> bm_bit bm g \<or> (f \<le> g \<and> g < x)" for g
    using assms Some by (auto simp only: claim_result_def iv option.case)
  ultimately show ?thesis using assms(2,4) Some by (simp add: claim_result_def)
qed

lemma empty_interval: "(f \<le> g \<and> g < f) = False" for f g :: nat
  by simp

lemma claim_run_ok:
  "f + n \<le> 64 * length bm \<Longrightarrow> \<exists>bm' c. claim_run bm f n = Some (bm', c) \<and> claim_result bm f n bm' c"
proof (induction n arbitrary: bm f)
  case 0
  then show ?case by (auto simp: run_free_def claim_result_def)
next
  case (Suc n)
  obtain b1 where b1: "bm_set bm f = Some (b1, bm ! (f div 64))" "length b1 = length bm"
    "\<forall>g. bm_bit b1 g \<longleftrightarrow> g = f \<or> bm_bit bm g"
    using bm_set_ok [of f bm] Suc.prems by auto
  show ?case
  proof (cases "bm_bit bm f")
    case True
    then have "claim_run bm f (Suc n) = Some (b1, Some f)" using b1(1) by (simp add: bm_bit_def)
    moreover have "bm_bit b1 g = bm_bit bm g" for g using b1(3) True by metis
    then have "claim_result bm f (Suc n) b1 (Some f)"
      using True b1(2) by (simp add: claim_result_def run_free_def empty_interval)
    ultimately show ?thesis by blast
  next
    case False
    obtain b2 c where b2: "claim_run b1 (Suc f) n = Some (b2, c)" "claim_result b1 (Suc f) n b2 c"
      using Suc.IH [of "Suc f" b1] Suc.prems b1(2) by auto
    then have "claim_run bm f (Suc n) = Some (b2, c)"
      using False b1(1) by (simp add: bm_bit_def)
    then show ?thesis using claim_result_step [OF b1(3,2) False b2(2)] by blast
  qed
qed

lemma undo_run_ok:
  "(\<forall>f \<in> set fs. f < 64 * length bm) \<Longrightarrow> \<exists>bm'. undo_run bm fs = Some bm' \<and> length bm' = length bm
     \<and> (\<forall>g. bm_bit bm' g \<longleftrightarrow> bm_bit bm g \<and> g \<notin> set fs)"
proof (induction fs arbitrary: bm)
  case (Cons f fs)
  obtain b1 where b1: "bm_clear bm f = Some (b1, bm ! (f div 64))" "length b1 = length bm"
    "\<forall>g. bm_bit b1 g \<longleftrightarrow> g \<noteq> f \<and> bm_bit bm g"
    using bm_clear_ok [of f bm] Cons.prems by auto
  then show ?case using Cons.IH [of b1] Cons.prems by auto
qed simp

text \<open>The outer loop without interference: one scan, one successful claim.\<close>

definition contiguous_result ::
  "BitmapAllocator \<Rightarrow> nat \<Rightarrow> (FrameError + PhysFrame) \<times> BitmapAllocator \<Rightarrow> bool" where
  "contiguous_result a n r \<longleftrightarrow> (case r of
      (Inl e, a') \<Rightarrow> e = OutOfMemory \<and> a' = a
        \<and> (n = 0 \<or> (\<forall>s. s + n \<le> total_frames a \<longrightarrow> (\<exists>f. s \<le> f \<and> f < s + n \<and> \<not> frame_free a f)))
    | (Inr s, a') \<Rightarrow> 0 < n \<and> s + n \<le> total_frames a \<and> (\<forall>f. s \<le> f \<and> f < s + n \<longrightarrow> frame_free a f)
        \<and> (\<forall>s' < s. \<exists>f. s' \<le> f \<and> f < s' + n \<and> \<not> frame_free a f)
        \<and> phys_inv a' \<and> total_frames a' = total_frames a \<and> usable_frames a' = usable_frames a
        \<and> (\<forall>g. frame_free a' g \<longleftrightarrow> frame_free a g \<and> \<not> (s \<le> g \<and> g < s + n)))"

lemma run_free_frames:
  "phys_inv a \<Longrightarrow> s + n \<le> total_frames a \<Longrightarrow>
     run_free (bitmap a) s n \<longleftrightarrow> (\<forall>f. s \<le> f \<and> f < s + n \<longrightarrow> frame_free a f)"
  by (auto simp: run_free_def frame_free_def phys_inv_def)

lemma alloc_contiguous_ok:
  assumes "phys_inv a"
  shows "\<exists>r. alloc_contiguous a n = Some r \<and> contiguous_result a n r"
proof -
  have len: "total_frames a \<le> 64 * length (bitmap a)" using assms by (simp add: phys_inv_def)
  consider "n = 0" | "n = 1" | "1 < n" "n > total_frames a" | "1 < n" "n \<le> total_frames a" by linarith
  then show ?thesis
  proof cases
    case 2
    obtain r where "Phys.alloc a = Some r" "alloc_result a r" using alloc_ok [OF assms] by blast
    moreover from this(2) have "contiguous_result a 1 r"
      by (auto simp: alloc_result_def contiguous_result_def le_less_Suc_eq le_Suc_eq split: sum.splits prod.splits)
    ultimately show ?thesis using 2 by (simp add: alloc_contiguous_def)
  next
    case 4
    have "\<exists>r. scan_run (bitmap a) n 0 0 0 (total_frames a) = Some r \<and> scan_result (bitmap a) n (total_frames a) 0 r"
      using 4 by (intro scan_run_ok [OF len]) (auto simp: run_free_def)
    then obtain r where r: "scan_run (bitmap a) n 0 0 0 (total_frames a) = Some r"
      "scan_result (bitmap a) n (total_frames a) 0 r" by blast
    show ?thesis
    proof (cases r)
      case None
      then have "contiguous_result a n (Inl OutOfMemory, a)"
        using r(2) run_free_frames [OF assms] by (auto simp: scan_result_def contiguous_result_def)
      then show ?thesis using 4 r(1) None by (simp add: alloc_contiguous_def)
    next
      case (Some s)
      then have s: "s + n \<le> total_frames a" "run_free (bitmap a) s n"
        "\<forall>s' < s. \<not> run_free (bitmap a) s' n" using r(2) by (auto simp: scan_result_def)
      obtain bm c where bm: "claim_run (bitmap a) s n = Some (bm, c)" "claim_result (bitmap a) s n bm c"
        using claim_run_ok [of s n "bitmap a"] s(1) len by auto
      have c: "c = None" using bm(2) s(2) by (auto simp: claim_result_def run_free_def split: option.splits)
      have first: "\<exists>f. s' \<le> f \<and> f < s' + n \<and> \<not> frame_free a f" if "s' < s" for s'
        using s(3) that run_free_frames [OF assms, of s' n] s(1) by auto
      have bits: "\<forall>g. bm_bit bm g \<longleftrightarrow> bm_bit (bitmap a) g \<or> (s \<le> g \<and> g < s + n)" "length bm = length (bitmap a)"
        using bm(2) c by (auto simp: claim_result_def)
      have "contiguous_result a n (Inr s, a\<lparr>bitmap := bm\<rparr>)"
        using s(1) first run_free_frames [OF assms s(1)] s(2) bits assms 4
        by (auto simp: contiguous_result_def phys_inv_def frame_free_def)
      then show ?thesis using 4 r(1) Some bm(1) c by (simp add: alloc_contiguous_def)
    qed
  qed (auto simp: alloc_contiguous_def contiguous_result_def)
qed

lemma phys_free_ok:
  assumes "phys_inv a" "f < MAX_FRAMES"
  shows "\<exists>a'. phys_free a f = Some (if frame_free a f then Inl (DoubleFree f) else Inr (), a')
    \<and> phys_inv a' \<and> total_frames a' = total_frames a \<and> (\<forall>g. frame_free a' g \<longleftrightarrow> frame_free a g \<or> g = f)"
proof -
  obtain bm where bm: "bm_clear (bitmap a) f = Some (bm, bitmap a ! (f div 64))" "length bm = BITMAP_SIZE"
    "\<forall>g. bm_bit bm g \<longleftrightarrow> g \<noteq> f \<and> bm_bit (bitmap a) g"
    using bm_clear_ok [of f "bitmap a"] assms by (auto simp: phys_inv_def)
  have "phys_free a f = Some (if frame_free a f then Inl (DoubleFree f) else Inr (), a\<lparr>bitmap := bm\<rparr>)"
    using bm(1) assms(2) by (simp add: phys_free_def frame_free_def bm_bit_def)
  moreover have "\<forall>g. frame_free (a\<lparr>bitmap := bm\<rparr>) g \<longleftrightarrow> frame_free a g \<or> g = f"
    using bm(3) assms(2) by (auto simp: frame_free_def)
  ultimately show ?thesis using assms(1) bm(2) by (simp add: phys_inv_def)
qed

section \<open>Ownership of frames\<close>

text \<open>
  The contract the kernel's memory managers rely on: an allocation hands out a run of free
  frames, a release makes a frame free again. The client lemma is the point of the
  allocator: as long as callers only release frames they own, no two live allocations overlap.
\<close>

datatype frame_op = FAlloc nat | FFree nat

locale frame_allocator =
  fixes fa_inv :: "'a \<Rightarrow> bool"
    and fa_free :: "'a \<Rightarrow> nat \<Rightarrow> bool"
    and alloc_run :: "'a \<Rightarrow> nat \<Rightarrow> (('e + nat) \<times> 'a) option"
    and free_one :: "'a \<Rightarrow> nat \<Rightarrow> (('e + unit) \<times> 'a) option"
    and limit :: nat
  assumes alloc_run_ok: "fa_inv a \<Longrightarrow> \<exists>r a'. alloc_run a n = Some (r, a') \<and> fa_inv a' \<and> (case r of
        Inl e \<Rightarrow> a' = a
      | Inr s \<Rightarrow> s + n \<le> limit \<and> (\<forall>f. s \<le> f \<and> f < s + n \<longrightarrow> fa_free a f)
          \<and> (\<forall>g. fa_free a' g \<longleftrightarrow> fa_free a g \<and> \<not> (s \<le> g \<and> g < s + n)))"
    and free_one_ok: "fa_inv a \<Longrightarrow> f < limit \<Longrightarrow> \<not> fa_free a f \<Longrightarrow>
      \<exists>a'. free_one a f = Some (Inr (), a') \<and> fa_inv a' \<and> (\<forall>g. fa_free a' g \<longleftrightarrow> fa_free a g \<or> g = f)"
begin

text \<open>A run of requests with the set of owned frames. A release of a frame the caller does not
  own is not issued. The result lists, per successful allocation, the run and the frames owned
  at that moment.\<close>

fun frame_run :: "'a \<Rightarrow> nat set \<Rightarrow> frame_op list \<Rightarrow> ('a \<times> nat set \<times> (nat set \<times> nat set) list) option" where
  "frame_run a owned [] = Some (a, owned, [])"
| "frame_run a owned (FAlloc n # ops) = (case alloc_run a n of
     None \<Rightarrow> None
   | Some (Inl e, a') \<Rightarrow> frame_run a' owned ops
   | Some (Inr s, a') \<Rightarrow> map_option (\<lambda>(x, y, log). (x, y, ({s..<s + n}, owned) # log))
       (frame_run a' (owned \<union> {s..<s + n}) ops))"
| "frame_run a owned (FFree f # ops) =
     (if f \<in> owned then (case free_one a f of
        None \<Rightarrow> None
      | Some (r, a') \<Rightarrow> frame_run a' (owned - {f}) ops)
      else frame_run a owned ops)"

lemma frame_run_disjoint:
  "fa_inv a \<Longrightarrow> (\<forall>f \<in> owned. \<not> fa_free a f \<and> f < limit) \<Longrightarrow>
     \<exists>a' owned' log. frame_run a owned ops = Some (a', owned', log) \<and> fa_inv a'
       \<and> (\<forall>f \<in> owned'. \<not> fa_free a' f) \<and> (\<forall>(r, o') \<in> set log. r \<inter> o' = {})"
proof (induction ops arbitrary: a owned)
  case (Cons op ops)
  show ?case
  proof (cases op)
    case (FAlloc n)
    obtain r a' where r: "alloc_run a n = Some (r, a')" "fa_inv a'" "case r of Inl e \<Rightarrow> a' = a
      | Inr s \<Rightarrow> s + n \<le> limit \<and> (\<forall>f. s \<le> f \<and> f < s + n \<longrightarrow> fa_free a f)
          \<and> (\<forall>g. fa_free a' g \<longleftrightarrow> fa_free a g \<and> \<not> (s \<le> g \<and> g < s + n))"
      using alloc_run_ok [OF Cons.prems(1), of n] by blast
    show ?thesis
    proof (cases r)
      case (Inl e)
      then show ?thesis using r Cons FAlloc by auto
    next
      case (Inr s)
      have "\<forall>f \<in> owned \<union> {s..<s + n}. \<not> fa_free a' f \<and> f < limit"
        using r(3) Inr Cons.prems(2) by auto
      from Cons.IH [OF r(2) this] obtain b ow log where
        "frame_run a' (owned \<union> {s..<s + n}) ops = Some (b, ow, log)" "fa_inv b"
        "\<forall>f \<in> ow. \<not> fa_free b f" "\<forall>(r, o') \<in> set log. r \<inter> o' = {}" by blast
      moreover have "{s..<s + n} \<inter> owned = {}" using r(3) Inr Cons.prems(2) by auto
      ultimately show ?thesis using r Inr FAlloc by auto
    qed
  next
    case (FFree f)
    show ?thesis
    proof (cases "f \<in> owned")
      case True
      obtain a' where a': "free_one a f = Some (Inr (), a')" "fa_inv a'"
        "\<forall>g. fa_free a' g \<longleftrightarrow> fa_free a g \<or> g = f"
        using free_one_ok [OF Cons.prems(1), of f] Cons.prems(2) True by blast
      then have "\<forall>g \<in> owned - {f}. \<not> fa_free a' g \<and> g < limit" using Cons.prems(2) by auto
      from Cons.IH [OF a'(2) this] show ?thesis using FFree True a'(1) by simp
    qed (use Cons FFree in simp)
  qed
qed auto

end

interpretation physf: frame_allocator phys_inv frame_free alloc_contiguous phys_free MAX_FRAMES
proof (unfold_locales, goal_cases)
  case (1 a n)
  obtain r a' where r: "alloc_contiguous a n = Some (r, a')" "contiguous_result a n (r, a')"
    using alloc_contiguous_ok [OF 1] by fastforce
  moreover have "total_frames a \<le> MAX_FRAMES" using 1 by (simp add: phys_inv_def)
  ultimately show ?case using 1 by (cases r) (auto simp: contiguous_result_def)
next
  case (2 a f)
  then show ?case using phys_free_ok by fastforce
qed

section \<open>Boot\<close>

definition tracked :: "BitmapAllocator \<Rightarrow> bool" where
  "tracked a \<longleftrightarrow> (\<forall>f. frame_free a f \<longrightarrow> f < total_frames a)"

definition frame_within :: "nat \<Rightarrow> nat \<Rightarrow> nat \<Rightarrow> bool" where
  "frame_within base sz f \<longleftrightarrow> base \<le> frame_addr f \<and> frame_addr (f + 1) \<le> base + sz"

lemma frame_free_total [simp]: "frame_free (b\<lparr>total_frames := t\<rparr>) f = frame_free b f"
  by (simp add: frame_free_def)

lemma frame_round_up: "(b + FRAME_SIZE - 1) div FRAME_SIZE \<le> f \<longleftrightarrow> b \<le> f * FRAME_SIZE"
  by (auto simp: FRAME_SIZE_def)

lemma frame_round_down: "f < e div FRAME_SIZE \<longleftrightarrow> (f + 1) * FRAME_SIZE \<le> e"
  by (auto simp: FRAME_SIZE_def)

lemma mark_usable_ok:
  assumes "phys_inv a" "tracked a" "base + FRAME_SIZE < 2 ^ 64" "base + sz < 2 ^ 64"
  shows "\<exists>a'. mark_usable a base sz = Some a' \<and> phys_inv a' \<and> tracked a'
    \<and> (\<forall>f. frame_free a' f \<longleftrightarrow> frame_free a f \<or> (f < MAX_FRAMES \<and> frame_within base sz f))"
proof (cases "sz = 0")
  case True
  have "\<not> frame_within base 0 f" for f by (auto simp: frame_within_def frame_addr_def FRAME_SIZE_def)
  then show ?thesis using True assms by (auto simp: mark_usable_def)
next
  case False
  let ?s = "(base + FRAME_SIZE - 1) div FRAME_SIZE" and ?e = "min ((base + sz) div FRAME_SIZE) MAX_FRAMES"
  have within: "f < MAX_FRAMES \<and> frame_within base sz f \<longleftrightarrow> ?s \<le> f \<and> f < ?e" for f
    unfolding frame_round_up min_less_iff_conj frame_round_down frame_within_def frame_addr_def by auto
  show ?thesis
  proof (cases "?s \<ge> MAX_FRAMES")
    case True
    then have "\<not> (f < MAX_FRAMES \<and> frame_within base sz f)" for f unfolding within by auto
    then show ?thesis using True False assms by (auto simp: mark_usable_def rust_simps)
  next
    case small: False
    have "\<forall>f \<in> set [?s..<?e]. f < MAX_FRAMES" by auto
    from usable_loop_ok [OF assms(1) this] obtain b where
      b: "usable_loop a [?s..<?e] = Some b" "phys_inv b" "total_frames b = total_frames a"
      "\<forall>g. frame_free b g \<longleftrightarrow> frame_free a g \<or> g \<in> set [?s..<?e]" by blast
    let ?b = "b\<lparr>total_frames := max (total_frames b) ?e\<rparr>"
    have "mark_usable a base sz = Some ?b"
      using b(1) False small assms(3,4) by (simp add: mark_usable_def rust_simps Let_def)
    moreover have "phys_inv ?b" using b(2) by (simp add: phys_inv_def)
    moreover have "tracked ?b" using assms(2) b(3,4) by (auto simp: tracked_def less_max_iff_disj)
    ultimately show ?thesis using b(4) within by (intro exI [of _ ?b]) auto
  qed
qed

definition frame_touches :: "nat \<Rightarrow> nat \<Rightarrow> nat \<Rightarrow> bool" where
  "frame_touches base sz f \<longleftrightarrow> 0 < sz \<and> base < frame_addr (f + 1) \<and> frame_addr f < base + sz"

lemma mark_reserved_ok:
  assumes "phys_inv a" "tracked a" "base + sz + FRAME_SIZE < 2 ^ 64"
  shows "\<exists>a'. mark_reserved a base sz = Some a' \<and> phys_inv a' \<and> tracked a'
    \<and> (\<forall>f. frame_free a' f \<longleftrightarrow> frame_free a f \<and> \<not> frame_touches base sz f)"
proof (cases "sz = 0")
  case True
  then show ?thesis using assms by (auto simp: mark_reserved_def frame_touches_def)
next
  case False
  let ?s = "base div FRAME_SIZE" and ?e = "min ((base + sz + FRAME_SIZE - 1) div FRAME_SIZE) MAX_FRAMES"
  have touch: "f < MAX_FRAMES \<Longrightarrow> frame_touches base sz f \<longleftrightarrow> f \<in> set [?s..<?e]" for f
    using False by (auto simp: frame_touches_def frame_addr_def FRAME_SIZE_def)
  have "\<forall>f \<in> set [?s..<?e]. f < MAX_FRAMES" by auto
  from reserved_loop_ok [OF assms(1) this] obtain b where
    b: "reserved_loop a [?s..<?e] = Some b" "phys_inv b" "total_frames b = total_frames a"
    "\<forall>g. frame_free b g \<longleftrightarrow> frame_free a g \<and> g \<notin> set [?s..<?e]" by blast
  have "mark_reserved a base sz = Some b"
    using b(1) False assms(3) by (simp add: mark_reserved_def rust_simps Let_def)
  moreover have "tracked b" using assms(2) b(3,4) by (simp add: tracked_def)
  moreover have "frame_free b f \<longleftrightarrow> frame_free a f \<and> \<not> frame_touches base sz f" for f
    using b(4) touch [of f] by (auto simp: frame_free_def)
  ultimately show ?thesis using b(2) by blast
qed

text \<open>A frame that lies wholly in a usable region of the map; a map whose usable regions end
  below the top of the address space.\<close>

definition in_usable :: "MemoryMapEntry list \<Rightarrow> nat \<Rightarrow> bool" where
  "in_usable es f \<longleftrightarrow> list_ex (\<lambda>(base, sz, u). u \<and> frame_within base sz f) es"

definition map_sane :: "MemoryMapEntry list \<Rightarrow> bool" where
  "map_sane es \<longleftrightarrow> list_all (\<lambda>(base, sz, u). u \<longrightarrow> base + FRAME_SIZE < 2 ^ 64 \<and> base + sz < 2 ^ 64) es"

lemma phys_new_tracked: "tracked phys_new"
  by (simp add: tracked_def phys_new_none_free)

lemma init_from_memory_map_ok:
  "phys_inv a \<Longrightarrow> tracked a \<Longrightarrow> map_sane es \<Longrightarrow>
    \<exists>a'. init_from_memory_map a es = Some a' \<and> phys_inv a' \<and> tracked a'
      \<and> (\<forall>f. frame_free a' f \<longleftrightarrow> frame_free a f \<or> (f < MAX_FRAMES \<and> in_usable es f))"
proof (induction es arbitrary: a)
  case (Cons e es)
  obtain base sz u where e: "e = (base, sz, u)" by (cases e)
  have ms: "map_sane es" using Cons.prems(3) by (simp add: map_sane_def)
  show ?case
  proof (cases u)
    case True
    obtain b where b: "mark_usable a base sz = Some b" "phys_inv b" "tracked b"
      "\<forall>f. frame_free b f \<longleftrightarrow> frame_free a f \<or> (f < MAX_FRAMES \<and> frame_within base sz f)"
      using mark_usable_ok [OF Cons.prems(1,2), of base sz] Cons.prems(3) e True by (auto simp: map_sane_def)
    show ?thesis using Cons.IH [OF b(2,3) ms] b(1,4) e True by (auto simp: in_usable_def)
  next
    case False
    then show ?thesis using Cons.IH [OF Cons.prems(1,2) ms] e by (auto simp: in_usable_def)
  qed
qed (simp add: in_usable_def)

section \<open>Counting\<close>

lemma count_zeros_card: "count_zeros (w :: u64) = card {j. j < 64 \<and> \<not> bit w j}"
proof -
  have "{i. i < 64 \<and> \<not> bit w ([0..<64] ! i)} = {j. j < 64 \<and> \<not> bit w j}" by auto
  then show ?thesis by (simp add: count_zeros_def length_filter_conv_card)
qed

lemma zeros_loop_append:
  "zeros_loop bm (is @ js) = (case zeros_loop bm is of None \<Rightarrow> None
     | Some c \<Rightarrow> map_option (\<lambda>d. c + d) (zeros_loop bm js))"
proof (induction "is")
  case Nil
  show ?case by (cases "zeros_loop bm js") simp_all
next
  case (Cons i "is")
  then show ?case by (cases "zeros_loop bm is"; cases "zeros_loop bm js"; cases "aget bm i") simp_all
qed

lemma zeros_loop_card:
  "n \<le> length bm \<Longrightarrow> zeros_loop bm [0..<n] = Some (card {f. f < 64 * n \<and> \<not> bm_bit bm f})"
proof (induction n)
  case (Suc n)
  let ?new = "(\<lambda>j. 64 * n + j) ` {j. j < 64 \<and> \<not> bit (bm ! n) j}"
  have "{f. f < 64 * Suc n \<and> \<not> bm_bit bm f} = {f. f < 64 * n \<and> \<not> bm_bit bm f} \<union> ?new"
  proof (intro set_eqI iffI)
    fix f assume f: "f \<in> {f. f < 64 * Suc n \<and> \<not> bm_bit bm f}"
    show "f \<in> {f. f < 64 * n \<and> \<not> bm_bit bm f} \<union> ?new"
    proof (cases "f < 64 * n")
      case False
      then obtain j where "f = 64 * n + j" "j < 64" using f le_Suc_ex [of "64 * n" f] by auto
      then show ?thesis using f by (auto simp: bm_bit_def)
    qed (use f in simp)
  qed (auto simp: bm_bit_def)
  moreover have "card ?new = count_zeros (bm ! n)"
    by (subst card_image) (auto simp: count_zeros_card inj_on_def)
  moreover have "{f. f < 64 * n \<and> \<not> bm_bit bm f} \<inter> ?new = {}" by auto
  ultimately have "card {f. f < 64 * Suc n \<and> \<not> bm_bit bm f}
      = card {f. f < 64 * n \<and> \<not> bm_bit bm f} + count_zeros (bm ! n)"
    by (simp add: card_Un_disjoint)
  then show ?case using Suc by (simp add: zeros_loop_append rust_simps)
qed simp

section \<open>Properties\<close>

text \<open>C7: starting from the allocator set up from the memory map, over any sequence of contiguous allocations and
  releases of owned frames, nothing panics, every run handed out is disjoint from all frames
  owned at that moment, and no owned frame is free.\<close>

theorem frames_exclusive:
  assumes "map_sane es" "init_from_memory_map phys_new es = Some a"
  shows "\<exists>a' owned log. physf.frame_run a {} ops = Some (a', owned, log)
    \<and> (\<forall>f \<in> owned. \<not> frame_free a' f) \<and> (\<forall>(run, before) \<in> set log. run \<inter> before = {})"
proof -
  have "phys_inv a" using init_from_memory_map_ok [OF phys_new_inv phys_new_tracked assms(1)] assms(2) by auto
  then show ?thesis using physf.frame_run_disjoint [of a "{}" ops] by blast
qed

theorem frames_exclusive_witness:
  "\<exists>a a' owned log. init_from_memory_map phys_new [(0x100000, 0x9000, True)] = Some a
    \<and> physf.frame_run a {} [FAlloc 2, FFree 0x100, FAlloc 3] = Some (a', owned, log)
    \<and> (\<forall>(run, before) \<in> set log. run \<inter> before = {})"
proof -
  let ?es = "[(0x100000, 0x9000, True)]"
  have s: "map_sane ?es" by (simp add: map_sane_def FRAME_SIZE_def)
  obtain a where a: "init_from_memory_map phys_new ?es = Some a"
    using init_from_memory_map_ok [OF phys_new_inv phys_new_tracked s] by blast
  show ?thesis using frames_exclusive [OF s a, of "[FAlloc 2, FFree 0x100, FAlloc 3]"] a by blast
qed

text \<open>C8: a request for a run of frames returns the first run of free frames below the
  end of memory and marks exactly it, or reports out of memory, changing nothing, when there is
  none (or the request is empty).\<close>

theorem alloc_contiguous_first_fit:
  assumes "phys_inv a"
  shows "\<exists>r. alloc_contiguous a n = Some r \<and> contiguous_result a n r"
  using alloc_contiguous_ok [OF assms] .

theorem alloc_contiguous_first_fit_witness:
  "\<exists>r. alloc_contiguous phys_new 3 = Some r \<and> contiguous_result phys_new 3 r"
  using alloc_contiguous_first_fit [OF phys_new_inv] .

text \<open>C10: after the boot sequence a frame is free exactly when it is below the frame limit, lies
  wholly inside a region the firmware reports as usable, and shares no byte with the first 16 MiB nor with the
  framebuffer (if its address is not 0). The usable regions and the framebuffer are assumed to end, rounded up
  by a frame, below the top of the 64-bit address space.\<close>

theorem memory_map_exact:
  assumes "map_sane es" "pitch * height < 2 ^ 64" "address + pitch * height + FRAME_SIZE < 2 ^ 64"
  shows "\<exists>a. boot_frames es (address, pitch, height) = Some a \<and> tracked a
    \<and> (\<forall>f. frame_free a f \<longleftrightarrow> f < MAX_FRAMES \<and> in_usable es f \<and> \<not> frame_touches 0 (16 * 1024 * 1024) f
         \<and> \<not> (address \<noteq> 0 \<and> frame_touches address (pitch * height) f))"
proof -
  obtain a where a: "init_from_memory_map phys_new es = Some a" "phys_inv a" "tracked a"
    "\<forall>f. frame_free a f \<longleftrightarrow> f < MAX_FRAMES \<and> in_usable es f"
    using init_from_memory_map_ok [OF phys_new_inv phys_new_tracked assms(1)] by (auto simp: phys_new_none_free)
  obtain b where b: "mark_reserved a 0 (16 * 1024 * 1024) = Some b" "phys_inv b" "tracked b"
    "\<forall>f. frame_free b f \<longleftrightarrow> frame_free a f \<and> \<not> frame_touches 0 (16 * 1024 * 1024) f"
    using mark_reserved_ok [OF a(2,3), of 0 "16 * 1024 * 1024"] by (auto simp: FRAME_SIZE_def)
  obtain c where c: "mark_reserved b address (pitch * height) = Some c" "phys_inv c" "tracked c"
    "\<forall>f. frame_free c f \<longleftrightarrow> frame_free b f \<and> \<not> frame_touches address (pitch * height) f"
    using mark_reserved_ok [OF b(2,3) assms(3)] by blast
  show ?thesis using a b c assms(2) by (cases "address = 0") (simp_all add: boot_frames_def cmul64_def)
qed

theorem memory_map_exact_witness:
  "\<exists>a. boot_frames [(0x100000, 0x800, True), (0x2000000, 0x3000, True)] (0xC0000000, 4096, 768) = Some a
    \<and> frame_free a 0x2001 \<and> \<not> frame_free a 0x1FFF"
proof -
  let ?es = "[(0x100000, 0x800, True), (0x2000000, 0x3000, True)]"
  have "map_sane ?es" by (simp add: map_sane_def FRAME_SIZE_def)
  from memory_map_exact [OF this, of 4096 768 "0xC0000000"] show ?thesis
    by (auto simp: in_usable_def frame_within_def frame_touches_def frame_addr_def FRAME_SIZE_def MAX_FRAMES_def)
qed

text \<open>C11: \<open>free_frame_count\<close> subtracts the unused bits of the last bitmap word although they are
  set, so that with the end of memory not on a 64-frame boundary it reports too few frames, and
  panics when fewer are free than there are unused bits.\<close>

theorem free_count_short:
  assumes "phys_inv a" "tracked a" "total_frames a mod 64 \<noteq> 0"
  shows "free_frame_count a = csub (card {f. frame_free a f}) (64 - total_frames a mod 64)"
proof -
  let ?n = "(total_frames a + 63) div 64"
  have n: "?n \<le> BITMAP_SIZE" "min ?n BITMAP_SIZE = ?n"
    using assms(1) by (auto simp: phys_inv_def BITMAP_SIZE_def MAX_FRAMES_def)
  have "64 * ?n \<le> MAX_FRAMES" using n(1) by (auto simp: BITMAP_SIZE_def MAX_FRAMES_def)
  then have "{f. f < 64 * ?n \<and> \<not> bm_bit (bitmap a) f} = {f. frame_free a f}"
    using assms(2) by (auto simp: tracked_def frame_free_def)
  then show ?thesis
    using zeros_loop_card [of ?n "bitmap a"] n assms(1,3) by (simp add: free_frame_count_def phys_inv_def)
qed

theorem free_count_short_witness:
  "free_frame_count (phys_new\<lparr>total_frames := 65\<rparr>) = None"
proof -
  let ?a = "phys_new\<lparr>total_frames := 65\<rparr>"
  have "phys_inv ?a" "tracked ?a"
    using phys_new_inv phys_new_none_free by (simp_all add: phys_inv_def tracked_def MAX_FRAMES_def)
  from free_count_short [OF this] show ?thesis by (simp add: phys_new_none_free csub_def)
qed

end
