(* ===== verification/PhysSmp.thy ===== *)
theory PhysSmp imports Phys begin

text \<open>
  The two allocations of \<open>kernel/src/mm/phys.rs\<close> on a machine with several processors. Every access to
  the bitmap is one atomic operation, and before each of them the other processors may act: they
  claim frames (an atomic \<open>fetch_or\<close> that owns the frame if its bit was clear) and release frames they
  own. The frames they own are ghost state that the allocation itself never reads. With no action
  of others the functions are those of \<open>Phys\<close>.
\<close>

datatype other = OClaim nat | ORelease nat

text \<open>\<open>sched\<close> lists what the others do before our next access, before the one after it, and so on.\<close>

record Shared =
  sh_bitmap :: bitmap
  sh_others :: "nat set"
  sh_sched :: "other list list"

definition other_act :: "other \<Rightarrow> Shared \<Rightarrow> Shared" where
  "other_act x s = (case x of
     OClaim f \<Rightarrow> (case bm_set (sh_bitmap s) f of
         None \<Rightarrow> s
       | Some (bm, prev) \<Rightarrow> if bit prev (f mod 64) then s
           else s\<lparr>sh_bitmap := bm, sh_others := insert f (sh_others s)\<rparr>)
   | ORelease f \<Rightarrow> if f \<in> sh_others s
       then (case bm_clear (sh_bitmap s) f of
           None \<Rightarrow> s
         | Some (bm, _) \<Rightarrow> s\<lparr>sh_bitmap := bm, sh_others := sh_others s - {f}\<rparr>)
       else s)"

definition interfere :: "Shared \<Rightarrow> Shared" where
  "interfere s = (case sh_sched s of [] \<Rightarrow> s | acts # rest \<Rightarrow> fold other_act acts (s\<lparr>sh_sched := rest\<rparr>))"

section \<open>Atomic accesses\<close>

definition load :: "nat \<Rightarrow> Shared \<Rightarrow> (u64 \<times> Shared) option" where
  "load idx s = (let s = interfere s in do { w \<leftarrow> aget (sh_bitmap s) idx; Some (w, s) })"

definition fetch_or :: "nat \<Rightarrow> Shared \<Rightarrow> (u64 \<times> Shared) option" where
  "fetch_or f s = (let s = interfere s in do { (bm, prev) \<leftarrow> bm_set (sh_bitmap s) f; Some (prev, s\<lparr>sh_bitmap := bm\<rparr>) })"

definition fetch_and :: "nat \<Rightarrow> Shared \<Rightarrow> (u64 \<times> Shared) option" where
  "fetch_and f s = (let s = interfere s in do { (bm, prev) \<leftarrow> bm_clear (sh_bitmap s) f; Some (prev, s\<lparr>sh_bitmap := bm\<rparr>) })"

section \<open>The allocations\<close>

text \<open>\<open>nframes\<close> is \<open>total_frames\<close>, fixed after boot.\<close>

fun smp_alloc_loop :: "nat \<Rightarrow> nat \<Rightarrow> nat \<Rightarrow> Shared \<Rightarrow> ((FrameError + PhysFrame) \<times> Shared) option" where
  "smp_alloc_loop nframes idx 0 s = Some (Inl OutOfMemory, s)"
| "smp_alloc_loop nframes idx (Suc n) s = do {
     (val, s) \<leftarrow> load idx s;
     if val = - 1 then smp_alloc_loop nframes (Suc idx) n s
     else do {
       let b = trailing_zeros (NOT val);
       let frame = idx * 64 + b;
       if frame \<ge> nframes then Some (Inl OutOfMemory, s)
       else do {
         (prev, s) \<leftarrow> fetch_or frame s;
         if \<not> bit prev b then Some (Inr frame, s)
         else smp_alloc_loop nframes (Suc idx) n s } } }"

definition smp_alloc :: "nat \<Rightarrow> Shared \<Rightarrow> ((FrameError + PhysFrame) \<times> Shared) option" where
  "smp_alloc nframes s = smp_alloc_loop nframes 0 (min ((nframes + 63) div 64) BITMAP_SIZE) s"

fun smp_scan :: "nat \<Rightarrow> nat \<Rightarrow> nat \<Rightarrow> nat \<Rightarrow> nat \<Rightarrow> Shared \<Rightarrow> (nat option \<times> Shared) option" where
  "smp_scan count frame run_start run_len 0 s = Some (None, s)"
| "smp_scan count frame run_start run_len (Suc n) s = do {
     (w, s) \<leftarrow> load (frame div 64) s;
     if bit w (frame mod 64) then smp_scan count (frame + 1) (frame + 1) 0 n s
     else if run_len + 1 = count then Some (Some run_start, s)
     else smp_scan count (frame + 1) run_start (run_len + 1) n s }"

fun smp_claim :: "nat \<Rightarrow> nat \<Rightarrow> Shared \<Rightarrow> (nat option \<times> Shared) option" where
  "smp_claim f 0 s = Some (None, s)"
| "smp_claim f (Suc n) s = do {
     (prev, s) \<leftarrow> fetch_or f s;
     if bit prev (f mod 64) then Some (Some f, s) else smp_claim (f + 1) n s }"

fun smp_undo :: "nat list \<Rightarrow> Shared \<Rightarrow> Shared option" where
  "smp_undo [] s = Some s"
| "smp_undo (f # fs) s = do { (_, s) \<leftarrow> fetch_and f s; smp_undo fs s }"

text \<open>\<open>k\<close> bounds the retries as in \<open>contiguous_loop\<close>.\<close>

fun smp_loop :: "nat \<Rightarrow> nat \<Rightarrow> nat \<Rightarrow> nat \<Rightarrow> Shared \<Rightarrow> ((FrameError + PhysFrame) \<times> Shared) option" where
  "smp_loop nframes count search_from 0 s = None"
| "smp_loop nframes count search_from (Suc k) s = do {
     (found, s) \<leftarrow> smp_scan count search_from search_from 0 (nframes - search_from) s;
     case found of
       None \<Rightarrow> Some (Inl OutOfMemory, s)
     | Some start \<Rightarrow> do {
         (conflict_at, s) \<leftarrow> smp_claim start count s;
         case conflict_at of
           None \<Rightarrow> Some (Inr start, s)
         | Some conflict \<Rightarrow> do {
             s \<leftarrow> smp_undo [start..<conflict] s;
             if conflict + 1 + count > nframes then Some (Inl OutOfMemory, s)
             else smp_loop nframes count (conflict + 1) k s } } }"

definition smp_alloc_contiguous :: "nat \<Rightarrow> nat \<Rightarrow> Shared \<Rightarrow> ((FrameError + PhysFrame) \<times> Shared) option" where
  "smp_alloc_contiguous nframes count s =
     (if count = 0 then Some (Inl OutOfMemory, s)
      else if count = 1 then smp_alloc nframes s
      else if count > nframes then Some (Inl OutOfMemory, s)
      else smp_loop nframes count 0 (nframes + 1) s)"

section \<open>Ownership\<close>

text \<open>
  Frames are held by others or by us; the latter are the set bits outside \<open>sh_others\<close> (reserved
  frames included). \<open>owns s M\<close>: the bitmap is well formed, what others own is set, and we hold \<open>M\<close>.
\<close>

definition owns :: "Shared \<Rightarrow> nat set \<Rightarrow> bool" where
  "owns s M \<longleftrightarrow> length (sh_bitmap s) = BITMAP_SIZE \<and> sh_others s \<inter> M = {}
     \<and> (\<forall>g < MAX_FRAMES. bm_bit (sh_bitmap s) g \<longleftrightarrow> g \<in> sh_others s \<or> g \<in> M)
     \<and> sh_others s \<subseteq> {..<MAX_FRAMES} \<and> M \<subseteq> {..<MAX_FRAMES}"

lemma bm_set_at:
  assumes "length bm = BITMAP_SIZE" "f < MAX_FRAMES"
  obtains b where "bm_set bm f = Some (b, bm ! (f div 64))" "length b = BITMAP_SIZE"
    "\<And>g. bm_bit b g \<longleftrightarrow> g = f \<or> bm_bit bm g"
  using bm_set_ok [of f bm] assms by auto

lemma bm_clear_at:
  assumes "length bm = BITMAP_SIZE" "f < MAX_FRAMES"
  obtains b where "bm_clear bm f = Some (b, bm ! (f div 64))" "length b = BITMAP_SIZE"
    "\<And>g. bm_bit b g \<longleftrightarrow> g \<noteq> f \<and> bm_bit bm g"
  using bm_clear_ok [of f bm] assms by auto

lemma bm_set_out: "length bm = BITMAP_SIZE \<Longrightarrow> \<not> f < MAX_FRAMES \<Longrightarrow> bm_set bm f = None"
  by (auto simp: bm_set_def aget_def BITMAP_SIZE_def MAX_FRAMES_def)

lemma other_act_owns:
  assumes "owns s M"
  shows "owns (other_act x s) M"
proof (cases x)
  case (OClaim f)
  show ?thesis
  proof (cases "f < MAX_FRAMES")
    case True
    obtain b where b: "bm_set (sh_bitmap s) f = Some (b, sh_bitmap s ! (f div 64))" "length b = BITMAP_SIZE"
      "\<And>g. bm_bit b g \<longleftrightarrow> g = f \<or> bm_bit (sh_bitmap s) g"
      using bm_set_at [of "sh_bitmap s" f] True assms by (auto simp: owns_def)
    show ?thesis
    proof (cases "bm_bit (sh_bitmap s) f")
      case True
      then show ?thesis using b assms OClaim by (simp add: other_act_def bm_bit_def)
    next
      case False
      then have e: "other_act x s = s\<lparr>sh_bitmap := b, sh_others := insert f (sh_others s)\<rparr>"
        using b OClaim by (simp add: other_act_def bm_bit_def)
      have "f \<notin> M" using False assms True by (auto simp: owns_def)
      then show ?thesis using e b assms True by (auto simp: owns_def)
    qed
  next
    case False
    then have "bm_set (sh_bitmap s) f = None" using assms by (intro bm_set_out) (simp_all add: owns_def)
    then show ?thesis using assms OClaim by (simp add: other_act_def)
  qed
next
  case (ORelease f)
  show ?thesis
  proof (cases "f \<in> sh_others s")
    case True
    then have "f < MAX_FRAMES" using assms by (auto simp: owns_def)
    then obtain b where b: "bm_clear (sh_bitmap s) f = Some (b, sh_bitmap s ! (f div 64))" "length b = BITMAP_SIZE"
      "\<And>g. bm_bit b g \<longleftrightarrow> g \<noteq> f \<and> bm_bit (sh_bitmap s) g"
      using bm_clear_at [of "sh_bitmap s" f] assms by (auto simp: owns_def)
    then show ?thesis using True assms ORelease by (auto simp: other_act_def owns_def)
  qed (use assms ORelease in \<open>simp add: other_act_def\<close>)
qed

lemma interfere_owns: "owns s M \<Longrightarrow> owns (interfere s) M"
proof -
  assume a: "owns s M"
  have "owns t M \<Longrightarrow> owns (fold other_act acts t) M" for t acts
    by (induction acts arbitrary: t) (simp_all add: other_act_owns)
  moreover have "owns (s\<lparr>sh_sched := r\<rparr>) M" for r using a by (simp add: owns_def)
  ultimately show ?thesis using a by (simp add: interfere_def split: list.splits)
qed

section \<open>Each access, seen by the owner\<close>

lemma load_owns:
  assumes "owns s M" "idx < BITMAP_SIZE"
  obtains w s' where "load idx s = Some (w, s')" "owns s' M"
proof -
  have o: "owns (interfere s) M" by (rule interfere_owns [OF assms(1)])
  then have "load idx s = Some (sh_bitmap (interfere s) ! idx, interfere s)"
    using assms(2) by (simp add: load_def owns_def rust_simps Let_def)
  then show thesis using that o by blast
qed

lemma fetch_or_owns:
  assumes "owns s M" "f < MAX_FRAMES"
  obtains prev s' where "fetch_or f s = Some (prev, s')"
    "bit prev (f mod 64) \<Longrightarrow> owns s' M" "\<not> bit prev (f mod 64) \<Longrightarrow> f \<notin> M \<and> owns s' (insert f M)"
proof -
  let ?s = "interfere s"
  have o: "owns ?s M" by (rule interfere_owns [OF assms(1)])
  then obtain b where b: "bm_set (sh_bitmap ?s) f = Some (b, sh_bitmap ?s ! (f div 64))" "length b = BITMAP_SIZE"
    "\<And>g. bm_bit b g \<longleftrightarrow> g = f \<or> bm_bit (sh_bitmap ?s) g"
    using bm_set_at [of "sh_bitmap ?s" f] assms(2) by (auto simp: owns_def)
  have "owns (?s\<lparr>sh_bitmap := b\<rparr>) M" if "bm_bit (sh_bitmap ?s) f"
    using o b that assms(2) by (auto simp: owns_def)
  moreover have "f \<notin> M \<and> owns (?s\<lparr>sh_bitmap := b\<rparr>) (insert f M)" if "\<not> bm_bit (sh_bitmap ?s) f"
    using o b that assms(2) by (auto simp: owns_def)
  ultimately show thesis
    using that [of "sh_bitmap ?s ! (f div 64)" "?s\<lparr>sh_bitmap := b\<rparr>"] b(1) by (simp add: fetch_or_def bm_bit_def Let_def)
qed

lemma fetch_and_owns:
  assumes "owns s M" "f \<in> M"
  obtains prev s' where "fetch_and f s = Some (prev, s')" "owns s' (M - {f})"
proof -
  let ?s = "interfere s"
  have o: "owns ?s M" by (rule interfere_owns [OF assms(1)])
  have f: "f < MAX_FRAMES" using assms by (auto simp: owns_def)
  then obtain b where b: "bm_clear (sh_bitmap ?s) f = Some (b, sh_bitmap ?s ! (f div 64))" "length b = BITMAP_SIZE"
    "\<And>g. bm_bit b g \<longleftrightarrow> g \<noteq> f \<and> bm_bit (sh_bitmap ?s) g"
    using bm_clear_at [of "sh_bitmap ?s" f] o by (auto simp: owns_def)
  have "owns (?s\<lparr>sh_bitmap := b\<rparr>) (M - {f})" using o b assms(2) by (auto simp: owns_def)
  then show thesis using that b(1) by (simp add: fetch_and_def Let_def)
qed

section \<open>The allocations, seen by the owner\<close>

text \<open>What an allocation of \<open>n\<close> frames may do to what we hold.\<close>

definition taken_run :: "nat \<Rightarrow> nat \<Rightarrow> nat set \<Rightarrow> (FrameError + PhysFrame) \<times> Shared \<Rightarrow> bool" where
  "taken_run nframes n M r \<longleftrightarrow> (case r of
     (Inl e, s) \<Rightarrow> e = OutOfMemory \<and> owns s M
   | (Inr f, s) \<Rightarrow> f + n \<le> nframes \<and> {f..<f + n} \<inter> M = {} \<and> owns s (M \<union> {f..<f + n}))"

lemma smp_alloc_loop_owns:
  "owns s M \<Longrightarrow> idx + n \<le> BITMAP_SIZE \<Longrightarrow> nframes \<le> MAX_FRAMES
   \<Longrightarrow> \<exists>r. smp_alloc_loop nframes idx n s = Some r \<and> taken_run nframes 1 M r"
proof (induction n arbitrary: idx s)
  case 0
  then show ?case by (simp add: taken_run_def)
next
  case (Suc n)
  obtain w s1 where l: "load idx s = Some (w, s1)" "owns s1 M" using load_owns [OF Suc.prems(1), of idx] Suc.prems(2) by auto
  have ih: "\<exists>r. smp_alloc_loop nframes (Suc idx) n t = Some r \<and> taken_run nframes 1 M r" if "owns t M" for t
    using Suc.IH [OF that, of "Suc idx"] Suc.prems(2,3) by simp
  show ?case
  proof (cases "w = - 1 \<or> idx * 64 + trailing_zeros (NOT w) \<ge> nframes")
    case True
    then show ?thesis using l ih by (auto simp: taken_run_def Let_def)
  next
    case False
    define b where "b = trailing_zeros (NOT w)"
    define f where "f = idx * 64 + b"
    have f: "f < nframes" "b < 64" using False first_free_in_word [of w] by (auto simp: f_def b_def)
    then have m: "f mod 64 = b" by (simp add: f_def)
    obtain prev s2 where o: "fetch_or f s1 = Some (prev, s2)" "bit prev (f mod 64) \<Longrightarrow> owns s2 M"
      "\<not> bit prev (f mod 64) \<Longrightarrow> f \<notin> M \<and> owns s2 (insert f M)"
      using fetch_or_owns [OF l(2), of f] f(1) Suc.prems(3) by auto
    have e: "smp_alloc_loop nframes idx (Suc n) s = (if \<not> bit prev b then Some (Inr f, s2) else smp_alloc_loop nframes (Suc idx) n s2)"
      using False l(1) o(1) by (simp add: Let_def f_def b_def)
    show ?thesis unfolding e using o(2,3) m f(1) ih by (auto simp: taken_run_def)
  qed
qed

lemma smp_scan_owns:
  "owns s M \<Longrightarrow> run_start + run_len = frame \<Longrightarrow> run_len < count \<Longrightarrow> frame + n \<le> MAX_FRAMES
   \<Longrightarrow> \<exists>r s'. smp_scan count frame run_start run_len n s = Some (r, s') \<and> owns s' M
     \<and> (case r of None \<Rightarrow> True | Some st \<Rightarrow> run_start \<le> st \<and> st + count \<le> frame + n)"
proof (induction n arbitrary: frame run_start run_len s)
  case (Suc n)
  have "frame div 64 < BITMAP_SIZE" using Suc.prems(4) by (simp add: BITMAP_SIZE_def MAX_FRAMES_def)
  then obtain w s1 where l: "load (frame div 64) s = Some (w, s1)" "owns s1 M" using load_owns [OF Suc.prems(1)] by blast
  show ?case
  proof (cases "bit w (frame mod 64)")
    case True
    obtain r s' where "smp_scan count (frame + 1) (frame + 1) 0 n s1 = Some (r, s')" "owns s' M"
      "case r of None \<Rightarrow> True | Some st \<Rightarrow> frame + 1 \<le> st \<and> st + count \<le> frame + 1 + n"
      using Suc.IH [OF l(2), of "frame + 1" 0 "frame + 1"] Suc.prems by auto
    then show ?thesis using True l(1) Suc.prems(2) by (auto split: option.splits)
  next
    case False
    show ?thesis
    proof (cases "run_len + 1 = count")
      case True
      then show ?thesis using False l Suc.prems(2) by auto
    next
      case more: False
      obtain r s' where "smp_scan count (frame + 1) run_start (run_len + 1) n s1 = Some (r, s')" "owns s' M"
        "case r of None \<Rightarrow> True | Some st \<Rightarrow> run_start \<le> st \<and> st + count \<le> frame + 1 + n"
        using Suc.IH [OF l(2), of run_start "run_len + 1" "frame + 1"] Suc.prems more by auto
      then show ?thesis using False more l(1) by (auto split: option.splits)
    qed
  qed
qed auto

lemma smp_claim_owns:
  "owns s M \<Longrightarrow> f + n \<le> MAX_FRAMES \<Longrightarrow> \<exists>c s'. smp_claim f n s = Some (c, s')
     \<and> (case c of None \<Rightarrow> {f..<f + n} \<inter> M = {} \<and> owns s' (M \<union> {f..<f + n})
        | Some x \<Rightarrow> f \<le> x \<and> x < f + n \<and> {f..<x} \<inter> M = {} \<and> owns s' (M \<union> {f..<x}))"
proof (induction n arbitrary: f s M)
  case (Suc n)
  obtain prev s1 where o: "fetch_or f s = Some (prev, s1)" "bit prev (f mod 64) \<Longrightarrow> owns s1 M"
    "\<not> bit prev (f mod 64) \<Longrightarrow> f \<notin> M \<and> owns s1 (insert f M)"
    using fetch_or_owns [OF Suc.prems(1), of f] Suc.prems(2) by auto
  show ?case
  proof (cases "bit prev (f mod 64)")
    case True
    then show ?thesis using o by auto
  next
    case False
    then have f: "f \<notin> M" "owns s1 (insert f M)" using o(3) by auto
    obtain c s' where c: "smp_claim (f + 1) n s1 = Some (c, s')" "case c of
        None \<Rightarrow> {f + 1..<f + 1 + n} \<inter> insert f M = {} \<and> owns s' (insert f M \<union> {f + 1..<f + 1 + n})
      | Some x \<Rightarrow> f + 1 \<le> x \<and> x < f + 1 + n \<and> {f + 1..<x} \<inter> insert f M = {} \<and> owns s' (insert f M \<union> {f + 1..<x})"
      using Suc.IH [OF f(2), of "f + 1"] Suc.prems(2) by auto
    have e: "smp_claim f (Suc n) s = Some (c, s')" using c(1) False o(1) by simp
    have un: "insert f M \<union> {f + 1..<y} = M \<union> {f..<y}" if "f < y" for y using that by auto
    have dis: "{f..<y} \<inter> M = {}" if "{f + 1..<y} \<inter> insert f M = {}" for y
    proof -
      have "{f..<y} \<subseteq> insert f {f + 1..<y}" by auto
      then show ?thesis using that f(1) by blast
    qed
    show ?thesis
    proof (cases c)
      case None
      then have "{f + 1..<f + Suc n} \<inter> insert f M = {}" "owns s' (insert f M \<union> {f + 1..<f + Suc n})" using c(2) by simp_all
      then show ?thesis using e None dis un [of "f + Suc n"] by simp
    next
      case (Some x)
      then have x: "f + 1 \<le> x" "x < f + 1 + n" "{f + 1..<x} \<inter> insert f M = {}" "owns s' (insert f M \<union> {f + 1..<x})" using c(2) by simp_all
      have "owns s' (M \<union> {f..<x})" using x(1,4) un [of x] by simp
      moreover have "{f..<x} \<inter> M = {}" using dis [OF x(3)] .
      ultimately show ?thesis using e Some x(1,2) by simp
    qed
  qed
qed simp

lemma smp_undo_owns:
  "owns s M \<Longrightarrow> set fs \<subseteq> M \<Longrightarrow> distinct fs \<Longrightarrow> \<exists>s'. smp_undo fs s = Some s' \<and> owns s' (M - set fs)"
proof (induction fs arbitrary: s M)
  case (Cons f fs)
  obtain prev s1 where o: "fetch_and f s = Some (prev, s1)" "owns s1 (M - {f})"
    using fetch_and_owns [OF Cons.prems(1), of f] Cons.prems(2) by auto
  have "set fs \<subseteq> M - {f}" using Cons.prems(2,3) by auto
  then obtain s' where "smp_undo fs s1 = Some s'" "owns s' (M - {f} - set fs)" using Cons.IH [OF o(2)] Cons.prems(3) by auto
  moreover have "M - {f} - set fs = M - set (f # fs)" by auto
  ultimately show ?case using o(1) by simp
qed simp

lemma smp_loop_owns:
  "owns s M \<Longrightarrow> nframes \<le> MAX_FRAMES \<Longrightarrow> 0 < count \<Longrightarrow> sf \<le> nframes \<Longrightarrow> nframes < sf + k
   \<Longrightarrow> \<exists>r. smp_loop nframes count sf k s = Some r \<and> taken_run nframes count M r"
proof (induction k arbitrary: sf s)
  case (Suc k)
  obtain r s1 where r: "smp_scan count sf sf 0 (nframes - sf) s = Some (r, s1)" "owns s1 M"
    "case r of None \<Rightarrow> True | Some st \<Rightarrow> sf \<le> st \<and> st + count \<le> sf + (nframes - sf)"
    using smp_scan_owns [OF Suc.prems(1), of sf 0 sf count "nframes - sf"] Suc.prems by auto
  show ?case
  proof (cases r)
    case None
    then show ?thesis using r by (simp add: taken_run_def)
  next
    case (Some st)
    then have st: "sf \<le> st" "st + count \<le> nframes" using r(3) Suc.prems(4) by auto
    obtain c s2 where c: "smp_claim st count s1 = Some (c, s2)" "case c of
        None \<Rightarrow> {st..<st + count} \<inter> M = {} \<and> owns s2 (M \<union> {st..<st + count})
      | Some x \<Rightarrow> st \<le> x \<and> x < st + count \<and> {st..<x} \<inter> M = {} \<and> owns s2 (M \<union> {st..<x})"
      using smp_claim_owns [OF r(2), of st count] st(2) Suc.prems(2) by auto
    show ?thesis
    proof (cases c)
      case None
      then show ?thesis using r(1) Some c st(2) by (simp add: taken_run_def)
    next
      case (Some x)
      then have x: "st \<le> x" "x < st + count" "{st..<x} \<inter> M = {}" "owns s2 (M \<union> {st..<x})" using c(2) by auto
      obtain s3 where s3: "smp_undo [st..<x] s2 = Some s3" "owns s3 (M \<union> {st..<x} - {st..<x})"
        using smp_undo_owns [OF x(4), of "[st..<x]"] by auto
      have "M \<union> {st..<x} - {st..<x} = M" using x(3) by auto
      then have o: "owns s3 M" using s3(2) by simp
      show ?thesis
      proof (cases "x + 1 + count > nframes")
        case True
        then show ?thesis using r(1) \<open>r = Some st\<close> c(1) Some s3(1) o by (simp add: taken_run_def)
      next
        case False
        then have "\<exists>q. smp_loop nframes count (x + 1) k s3 = Some q \<and> taken_run nframes count M q"
          using Suc.prems(2,3,5) st(1) x(1) by (intro Suc.IH [OF o]) auto
        then show ?thesis using r(1) \<open>r = Some st\<close> c(1) Some s3(1) False by simp
      qed
    qed
  qed
qed simp

section \<open>Without others\<close>

text \<open>On an idle machine the functions are those of one processor.\<close>

definition idle :: "BitmapAllocator \<Rightarrow> Shared" where
  "idle a = \<lparr>sh_bitmap = bitmap a, sh_others = {}, sh_sched = []\<rparr>"

lemma interfere_idle [simp]: "interfere \<lparr>sh_bitmap = bm, sh_others = O', sh_sched = []\<rparr> = \<lparr>sh_bitmap = bm, sh_others = O', sh_sched = []\<rparr>"
  by (simp add: interfere_def)

lemma smp_scan_idle: "smp_scan count frame rs rl n (idle a) = map_option (\<lambda>r. (r, idle a)) (scan_run (bitmap a) count frame rs rl n)"
proof (induction n arbitrary: frame rs rl)
  case (Suc n)
  show ?case using Suc by (cases "aget (bitmap a) (frame div 64)") (simp_all add: load_def idle_def Let_def)
qed simp

lemma smp_claim_idle:
  "smp_claim f n (idle a) = map_option (\<lambda>(bm, c). (c, idle (a\<lparr>bitmap := bm\<rparr>))) (claim_run (bitmap a) f n)"
proof (induction n arbitrary: f a)
  case (Suc n)
  show ?case using Suc.IH [of "f + 1" "a\<lparr>bitmap := _\<rparr>"]
    by (cases "bm_set (bitmap a) f") (auto simp: fetch_or_def idle_def Let_def)
qed (simp add: idle_def)

lemma smp_undo_idle: "smp_undo fs (idle a) = map_option (\<lambda>bm. idle (a\<lparr>bitmap := bm\<rparr>)) (undo_run (bitmap a) fs)"
proof (induction fs arbitrary: a)
  case (Cons f fs)
  show ?case using Cons.IH [of "a\<lparr>bitmap := _\<rparr>"]
    by (cases "bm_clear (bitmap a) f") (auto simp: fetch_and_def idle_def Let_def)
qed (simp add: idle_def)

lemma smp_loop_idle:
  "smp_loop (total_frames a) count sf k (idle a) = map_option (\<lambda>(r, a'). (r, idle a')) (contiguous_loop count a sf k)"
proof (induction k arbitrary: sf a)
  case (Suc k)
  have ih: "smp_loop (total_frames a) count sf' k (idle (a\<lparr>bitmap := bm\<rparr>))
      = map_option (\<lambda>(r, a'). (r, idle a')) (contiguous_loop count (a\<lparr>bitmap := bm\<rparr>) sf' k)" for sf' bm
    using Suc.IH [of "a\<lparr>bitmap := bm\<rparr>" sf'] by simp
  show ?case
  proof (cases "scan_run (bitmap a) count sf sf 0 (total_frames a - sf)")
    case (Some found)
    show ?thesis
    proof (cases found)
      case (Some start)
      note found = \<open>scan_run _ _ _ _ _ _ = Some found\<close> Some
      show ?thesis
      proof (cases "claim_run (bitmap a) start count")
        case (Some cl)
        obtain bm c where cl: "cl = (bm, c)" by (cases cl)
        show ?thesis using found Some cl ih
          by (cases c; cases "undo_run bm [start..<the c]") (simp_all add: smp_scan_idle smp_claim_idle smp_undo_idle)
      qed (use found in \<open>simp add: smp_scan_idle smp_claim_idle\<close>)
    qed (use Some in \<open>simp add: smp_scan_idle\<close>)
  qed (simp add: smp_scan_idle)
qed simp

section \<open>Property\<close>

text \<open>C9: whatever frames the other processors claim and release before each single access
  to the bitmap (during the scan, the claim and the back-out), an allocation of \<open>n\<close> frames ends without
  panicking. Either it returns a run of \<open>n\<close> frames that nobody else owns and that we did not hold, and we then hold
  exactly these in addition; or it reports out of memory and we hold exactly what we held. In both cases
  every frame another processor owns is still marked: the claim takes no frame of theirs and the
  back-out releases none.\<close>

theorem alloc_contiguous_race:
  assumes "owns s M" "nframes \<le> MAX_FRAMES"
  shows "\<exists>r s'. smp_alloc_contiguous nframes n s = Some (r, s') \<and> (case r of
      Inl e \<Rightarrow> e = OutOfMemory \<and> owns s' M
    | Inr f \<Rightarrow> f + n \<le> nframes \<and> {f..<f + n} \<inter> M = {} \<and> {f..<f + n} \<inter> sh_others s' = {}
        \<and> owns s' (M \<union> {f..<f + n}))"
proof -
  have "\<exists>r. smp_alloc_contiguous nframes n s = Some r \<and> taken_run nframes n M r"
  proof -
    consider "n = 0" | "n = 1" | "1 < n" "n > nframes" | "1 < n" "n \<le> nframes" by linarith
    then show ?thesis
    proof cases
      case 2
      then show ?thesis using smp_alloc_loop_owns [OF assms(1), of 0 _ nframes] assms(2)
        by (simp add: smp_alloc_contiguous_def smp_alloc_def)
    next
      case 4
      then show ?thesis using smp_loop_owns [OF assms, of n 0 "nframes + 1"] by (simp add: smp_alloc_contiguous_def)
    qed (use assms in \<open>auto simp: smp_alloc_contiguous_def taken_run_def\<close>)
  qed
  then show ?thesis by (fastforce simp: taken_run_def owns_def split: sum.splits prod.splits)
qed

text \<open>Three free frames; another processor takes the middle one just before our claim reaches it, and
  lets it go during the back-out.\<close>

definition race_demo :: Shared where
  "race_demo = \<lparr>sh_bitmap = (- 8) # replicate (BITMAP_SIZE - 1) (- 1), sh_others = {}, sh_sched = [[], [], [], [OClaim 1], [ORelease 1]]\<rparr>"

theorem alloc_contiguous_race_witness:
  "owns race_demo {3..<MAX_FRAMES}
   \<and> (\<exists>r s'. smp_alloc_contiguous 3 2 race_demo = Some (r, s') \<and> (case r of
      Inl e \<Rightarrow> e = OutOfMemory \<and> owns s' {3..<MAX_FRAMES}
    | Inr f \<Rightarrow> f + 2 \<le> 3 \<and> {f..<f + 2} \<inter> {3..<MAX_FRAMES} = {} \<and> {f..<f + 2} \<inter> sh_others s' = {}
        \<and> owns s' ({3..<MAX_FRAMES} \<union> {f..<f + 2})))"
proof -
  have b: "bm_bit (sh_bitmap race_demo) g \<longleftrightarrow> 3 \<le> g" if "g < MAX_FRAMES" for g
  proof (cases "g < 64")
    case True
    have "(- 8 :: u64) = NOT (mask 3)" by (simp add: mask_numeral)
    moreover have "bit (NOT (mask 3) :: u64) g \<longleftrightarrow> 3 \<le> g" using True by (auto simp: bit_not_iff bit_mask_iff)
    ultimately have "bit (- 8 :: u64) g \<longleftrightarrow> 3 \<le> g" by metis
    then show ?thesis using True by (simp add: race_demo_def bm_bit_def)
  next
    case False
    then have "g div 64 = Suc (g div 64 - 1)" "g div 64 - 1 < BITMAP_SIZE - 1"
      using that by (simp_all add: BITMAP_SIZE_def MAX_FRAMES_def)
    then show ?thesis using False by (simp add: race_demo_def bm_bit_def nth_Cons')
  qed
  have "length (sh_bitmap race_demo) = BITMAP_SIZE" by (simp add: race_demo_def BITMAP_SIZE_def MAX_FRAMES_def)
  moreover have "sh_others race_demo = {}" by (simp add: race_demo_def)
  ultimately have "owns race_demo {3..<MAX_FRAMES}" using b by (auto simp: owns_def)
  then show ?thesis using alloc_contiguous_race [of race_demo "{3..<MAX_FRAMES}" 3 2] by (simp add: MAX_FRAMES_def)
qed

end
