(* ===== verification/Heap.thy ===== *)
theory Heap imports Phys begin

text \<open>
  \<open>kernel/src/mm/heap.rs\<close>: the kernel heap. The address-ordered linked list of free blocks,
  whose headers live in the free memory itself, is the list of its (address, size) pairs in
  link order. The frames come from the bitmap allocator of theory \<open>Phys\<close>.
\<close>

definition INITIAL_HEAP_SIZE :: nat where "INITIAL_HEAP_SIZE = 8 * 1024 * 1024"
definition MAX_HEAP_SIZE :: nat where "MAX_HEAP_SIZE = 32 * 1024 * 1024"
definition MIN_BLOCK_SIZE :: nat where "MIN_BLOCK_SIZE = 16"

type_synonym FreeBlock = "nat \<times> nat"

record KernelHeapAllocator =
  free_list :: "FreeBlock list"
  heap_start :: nat
  heap_size :: nat

definition heap_empty :: KernelHeapAllocator where
  "heap_empty = \<lparr>free_list = [], heap_start = 0, heap_size = 0\<rparr>"

definition heap_init :: "nat \<Rightarrow> nat \<Rightarrow> KernelHeapAllocator" where
  "heap_init start sz = \<lparr>free_list = [(start, sz)], heap_start = start, heap_size = sz\<rparr>"

text \<open>\<open>(value + align - 1) & !(align - 1)\<close> on 64-bit words.\<close>

definition align_up :: "nat \<Rightarrow> nat \<Rightarrow> nat" where
  "align_up v a = unat ((of_nat (v + a - 1) :: u64) AND NOT (of_nat (a - 1)))"

definition insert_free_block :: "FreeBlock \<Rightarrow> FreeBlock list \<Rightarrow> FreeBlock list" where
  "insert_free_block blk fl =
     (let (addr, sz) = blk;
          before = takeWhile (\<lambda>(b, _). b < addr) fl;
          after = dropWhile (\<lambda>(b, _). b < addr) fl;
          (sz', after') = (case after of
             [] \<Rightarrow> (sz, [])
           | (c, t) # r \<Rightarrow> if addr + sz = c then (sz + t, r) else (sz, after)) in
      if before \<noteq> [] \<and> fst (last before) + snd (last before) = addr
      then butlast before @ (fst (last before), snd (last before) + sz') # after'
      else before @ (addr, sz') # after')"

text \<open>The first-fit walk: the block taken, the aligned start, and the list without the block.\<close>

fun take_fit :: "nat \<Rightarrow> nat \<Rightarrow> FreeBlock list \<Rightarrow> (FreeBlock \<times> nat \<times> FreeBlock list) option" where
  "take_fit sz al [] = None"
| "take_fit sz al ((b, s) # r) =
     (let alloc_start = align_up b al in
      if alloc_start + sz \<le> b + s then Some ((b, s), alloc_start, r)
      else map_option (\<lambda>(blk, x, r'). (blk, x, (b, s) # r')) (take_fit sz al r))"

definition try_grow ::
  "nat \<Rightarrow> KernelHeapAllocator \<Rightarrow> BitmapAllocator \<Rightarrow> (bool \<times> KernelHeapAllocator \<times> BitmapAllocator) option" where
  "try_grow min_bytes h ph =
     (let grow_size = max min_bytes (FRAME_SIZE * 64) in
      if heap_size h + grow_size > MAX_HEAP_SIZE then Some (False, h, ph)
      else do {
        let frames_needed = (grow_size + FRAME_SIZE - 1) div FRAME_SIZE;
        (r, ph') \<leftarrow> alloc_contiguous ph frames_needed;
        case r of
          Inl e \<Rightarrow> Some (False, h, ph')
        | Inr frame \<Rightarrow> Some (True,
            h\<lparr>free_list := insert_free_block (frame_addr frame, frames_needed * FRAME_SIZE) (free_list h),
              heap_size := heap_size h + frames_needed * FRAME_SIZE\<rparr>, ph') })"

text \<open>The size and alignment a layout is served with.\<close>

definition block_size :: "nat \<Rightarrow> nat" where
  "block_size sz = align_up (max sz MIN_BLOCK_SIZE) 8"

text \<open>
  The block is cut. Sums and differences are plain here, in \<open>take_fit\<close> and in \<open>try_grow\<close>: for layouts with sizes
  and alignments up to \<open>2 ^ 62\<close> and blocks in physical memory none of them leaves \<open>usize\<close> (lemma \<open>heap_sums_fit\<close>).
\<close>

definition carve :: "nat \<Rightarrow> FreeBlock \<Rightarrow> nat \<Rightarrow> FreeBlock list \<Rightarrow> FreeBlock list" where
  "carve sz blk alloc_start rest =
     (let (b, s) = blk;
          front_padding = alloc_start - b;
          remaining = b + s - (alloc_start + sz);
          fl1 = (if remaining \<ge> MIN_BLOCK_SIZE
                 then insert_free_block (alloc_start + sz, remaining) rest else rest) in
      if front_padding \<ge> MIN_BLOCK_SIZE then insert_free_block (b, front_padding) fl1 else fl1)"

lemma try_grow_increases:
  "try_grow n h ph = Some (True, h', ph') \<Longrightarrow> heap_size h < heap_size h' \<and> heap_size h < MAX_HEAP_SIZE"
  by (auto simp: try_grow_def Let_def FRAME_SIZE_def split: if_splits bind_splits sum.splits prod.splits)

function alloc_inner ::
  "nat \<Rightarrow> nat \<Rightarrow> KernelHeapAllocator \<Rightarrow> BitmapAllocator \<Rightarrow> (nat option \<times> KernelHeapAllocator \<times> BitmapAllocator) option" where
  "alloc_inner sz al h ph =
     (case take_fit (block_size sz) (max al 8) (free_list h) of
        Some (blk, alloc_start, rest) \<Rightarrow>
          Some (Some alloc_start, h\<lparr>free_list := carve (block_size sz) blk alloc_start rest\<rparr>, ph)
      | None \<Rightarrow>
          (case try_grow (block_size sz + max al 8) h ph of
             None \<Rightarrow> None
           | Some (True, h', ph') \<Rightarrow> alloc_inner sz al h' ph'
           | Some (False, h', ph') \<Rightarrow> Some (None, h', ph')))"
  by pat_completeness auto

termination
  by (relation "measure (\<lambda>(sz, al, h, ph). MAX_HEAP_SIZE - heap_size h)")
    (auto dest!: try_grow_increases)

declare alloc_inner.simps [simp del]

definition dealloc_inner :: "nat \<Rightarrow> nat \<Rightarrow> KernelHeapAllocator \<Rightarrow> KernelHeapAllocator" where
  "dealloc_inner p sz h = h\<lparr>free_list := insert_free_block (p, block_size sz) (free_list h)\<rparr>"

definition heap_boot :: "BitmapAllocator \<Rightarrow> ((string + KernelHeapAllocator) \<times> BitmapAllocator) option" where
  "heap_boot ph = do {
     let frames = INITIAL_HEAP_SIZE div FRAME_SIZE;
     (r, ph') \<leftarrow> alloc_contiguous ph frames;
     case r of
       Inl e \<Rightarrow> Some (Inl ''Failed to allocate heap frames'', ph')
     | Inr f \<Rightarrow> Some (Inr (heap_init (frame_addr f) INITIAL_HEAP_SIZE), ph') }"

section \<open>Alignment\<close>

lemma and_not_low_bits:
  "unat ((w :: u64) AND NOT (mask k)) = unat w div 2 ^ k * 2 ^ k"
proof -
  have e: "w AND NOT (mask k) = push_bit k (drop_bit k w)"
    by (rule bit_eqI) (auto simp: bit_simps dest: word_bit_bound)
  have lt: "unat w < 2 ^ 64" using unat_word_less [of w] by simp
  then have "unat (push_bit k (drop_bit k w)) = (unat w div 2 ^ k * 2 ^ k) mod 2 ^ 64"
    by (simp only: unsigned_push_bit_eq unsigned_drop_bit_eq)
      (simp add: take_bit_eq_mod push_bit_eq_mult drop_bit_eq_div)
  moreover have "unat w div 2 ^ k * 2 ^ k < 2 ^ 64"
    using div_times_less_eq_dividend [of "unat w" "2 ^ k"] lt by linarith
  ultimately show ?thesis unfolding e by simp
qed

lemma align_up_eq:
  assumes "v + 2 ^ k \<le> 2 ^ 64"
  shows "align_up v (2 ^ k) = (v + 2 ^ k - 1) div 2 ^ k * 2 ^ k"
proof -
  have m: "(of_nat (2 ^ k - 1) :: u64) = mask k"
    by (simp add: mask_eq_exp_minus_1 of_nat_diff)
  have "0 < (2 :: nat) ^ k" by simp
  then have "v + 2 ^ k - 1 < 2 ^ 64" using assms by linarith
  then have "unat (of_nat (v + 2 ^ k - 1) :: u64) = v + 2 ^ k - 1" by (simp add: unat_of_nat_small)
  then show ?thesis
    unfolding align_up_def m and_not_low_bits by simp
qed

lemma align_up_bounds:
  assumes "v + 2 ^ k \<le> 2 ^ 64"
  shows "v \<le> align_up v (2 ^ k)" "align_up v (2 ^ k) < v + 2 ^ k" "2 ^ k dvd align_up v (2 ^ k)"
proof -
  let ?m = "2 ^ k :: nat"
  have d: "(v + ?m - 1) div ?m * ?m + (v + ?m - 1) mod ?m = v + ?m - 1" by (rule div_mult_mod_eq)
  have "(v + ?m - 1) mod ?m < ?m" by (rule mod_less_divisor) simp
  then show "v \<le> align_up v ?m" "align_up v ?m < v + ?m"
    unfolding align_up_eq [OF assms] using d by linarith+
  show "?m dvd align_up v ?m" unfolding align_up_eq [OF assms] by simp
qed

section \<open>The free list\<close>

definition bytes_of :: "FreeBlock list \<Rightarrow> nat set" where
  "bytes_of fl = (\<Union>(a, s) \<in> set fl. {a..<a + s})"

lemma bytes_of_simps [simp]:
  "bytes_of [] = {}" "bytes_of ((a, s) # fl) = {a..<a + s} \<union> bytes_of fl"
  "bytes_of (xs @ ys) = bytes_of xs \<union> bytes_of ys"
  by (auto simp: bytes_of_def)

text \<open>Sorted by address, apart from each other by at least one byte (so also coalesced), each
  block big enough for its header.\<close>

definition gap :: "FreeBlock \<Rightarrow> FreeBlock \<Rightarrow> bool" where
  "gap p q \<longleftrightarrow> fst p + snd p < fst q"

definition list_wf :: "FreeBlock list \<Rightarrow> bool" where
  "list_wf fl \<longleftrightarrow> sorted_wrt gap fl \<and> (\<forall>p \<in> set fl. MIN_BLOCK_SIZE \<le> snd p)"

lemma MIN_BLOCK_SIZE_pos [simp]: "0 < MIN_BLOCK_SIZE"
  by (simp add: MIN_BLOCK_SIZE_def)

lemma gap_trans: "gap p q \<Longrightarrow> gap q r \<Longrightarrow> gap p r"
  by (auto simp: gap_def)

lemma list_wf_append:
  "list_wf (xs @ ys) \<longleftrightarrow> list_wf xs \<and> list_wf ys \<and> (\<forall>p \<in> set xs. \<forall>q \<in> set ys. gap p q)"
  by (auto simp: list_wf_def sorted_wrt_append)

lemma list_wf_Cons:
  "list_wf (p # ys) \<longleftrightarrow> MIN_BLOCK_SIZE \<le> snd p \<and> list_wf ys \<and> (\<forall>q \<in> set ys. gap p q)"
  by (auto simp: list_wf_def)

lemma split_at_addr:
  assumes "list_wf fl"
  shows "fl = takeWhile (\<lambda>(b, _). b < a) fl @ dropWhile (\<lambda>(b, _). b < a) fl"
    "\<forall>p \<in> set (takeWhile (\<lambda>(b, _). b < a) fl). fst p < a"
    "\<forall>q \<in> set (dropWhile (\<lambda>(b, _). b < a) fl). a \<le> fst q"
proof -
  show "fl = takeWhile (\<lambda>(b, _). b < a) fl @ dropWhile (\<lambda>(b, _). b < a) fl" by simp
  show "\<forall>p \<in> set (takeWhile (\<lambda>(b, _). b < a) fl). fst p < a" by (auto dest: set_takeWhileD)
  show "\<forall>q \<in> set (dropWhile (\<lambda>(b, _). b < a) fl). a \<le> fst q"
    using assms by (induction fl) (auto simp: list_wf_Cons gap_def)
qed

text \<open>Coalescing with the successor, then with the predecessor.\<close>

lemma coalesce_next:
  assumes "list_wf after" "\<forall>q \<in> set after. a \<le> fst q" "MIN_BLOCK_SIZE \<le> s" "{a..<a + s} \<inter> bytes_of after = {}"
    and "(s', after') = (case after of [] \<Rightarrow> (s, []) | (c, t) # r \<Rightarrow> if a + s = c then (s + t, r) else (s, after))"
  shows "list_wf ((a, s') # after')" "bytes_of ((a, s') # after') = {a..<a + s} \<union> bytes_of after"
    "set after' \<subseteq> set after"
proof -
  have "list_wf ((a, s') # after') \<and> bytes_of ((a, s') # after') = {a..<a + s} \<union> bytes_of after \<and> set after' \<subseteq> set after"
  proof (cases after)
    case Nil
    then show ?thesis using assms by (simp add: list_wf_Cons)
  next
    case (Cons ct r)
    obtain c t where ct: "ct = (c, t)" by (cases ct)
    have t: "MIN_BLOCK_SIZE \<le> t" "list_wf r" "\<forall>q \<in> set r. gap (c, t) q" "a \<le> c"
      using assms(1,2) Cons ct by (auto simp: list_wf_Cons)
    have "0 < t" using t(1) MIN_BLOCK_SIZE_pos by linarith
    then have "c \<in> bytes_of after" using Cons ct by simp
    then have "a + s \<le> c" using assms(4) t(4) by (auto simp: not_le)
    then show ?thesis
      using assms(3,5) Cons ct t by (cases "a + s = c") (auto simp: list_wf_Cons gap_def)
  qed
  then show "list_wf ((a, s') # after')" "bytes_of ((a, s') # after') = {a..<a + s} \<union> bytes_of after"
    "set after' \<subseteq> set after" by auto
qed

lemma insert_free_block_ok:
  assumes wf: "list_wf fl" and s: "MIN_BLOCK_SIZE \<le> s" and disj: "{a..<a + s} \<inter> bytes_of fl = {}"
  shows "list_wf (insert_free_block (a, s) fl)" "bytes_of (insert_free_block (a, s) fl) = {a..<a + s} \<union> bytes_of fl"
proof -
  define before where "before = takeWhile (\<lambda>(b, _). b < a) fl"
  define after where "after = dropWhile (\<lambda>(b, _). b < a) fl"
  obtain s' after' where sa: "(s', after') = (case after of [] \<Rightarrow> (s, []) | (c, t) # r \<Rightarrow> if a + s = c then (s + t, r) else (s, after))"
    by (metis surj_pair)
  have fl: "fl = before @ after" and below: "\<forall>p \<in> set before. fst p < a" and above: "\<forall>q \<in> set after. a \<le> fst q"
    using split_at_addr [OF wf, of a] by (auto simp: before_def after_def)
  have w: "list_wf before" "list_wf after" "\<forall>p \<in> set before. \<forall>q \<in> set after. gap p q"
    using wf unfolding fl list_wf_append by auto
  have "{a..<a + s} \<inter> bytes_of after = {}" using disj unfolding fl by auto
  note nx = coalesce_next [OF w(2) above s this sa]
  have s0: "0 < s" using s MIN_BLOCK_SIZE_pos by linarith
  have ends: "fst p + snd p \<le> a" if "p \<in> set before" for p
  proof (rule ccontr)
    assume "\<not> ?thesis"
    then have "a \<in> {fst p..<fst p + snd p}" using below that by auto
    moreover have "{fst p..<fst p + snd p} \<subseteq> bytes_of fl" using that unfolding fl by (auto simp: bytes_of_def)
    ultimately have "a \<in> bytes_of fl" by blast
    moreover have "a \<in> {a..<a + s}" using s0 by simp
    ultimately show False using disj by blast
  qed
  have gap_after: "gap p q" if "p \<in> set before" "q \<in> set after'" for p q using w(3) nx(3) that by blast
  have ins: "insert_free_block (a, s) fl =
      (if before \<noteq> [] \<and> fst (last before) + snd (last before) = a
       then butlast before @ (fst (last before), snd (last before) + s') # after'
       else before @ (a, s') # after')"
    unfolding insert_free_block_def Let_def prod.case before_def [symmetric] after_def [symmetric] sa [symmetric] ..
  have wa: "MIN_BLOCK_SIZE \<le> s'" "list_wf after'" "\<forall>q \<in> set after'. gap (a, s') q"
    using nx(1) by (auto simp: list_wf_Cons)
  have "list_wf (insert_free_block (a, s) fl) \<and> bytes_of (insert_free_block (a, s) fl) = {a..<a + s} \<union> bytes_of fl"
  proof (cases "before \<noteq> [] \<and> fst (last before) + snd (last before) = a")
    case True
    obtain bs p ps where b: "before = bs @ [(p, ps)]" using True by (metis append_butlast_last_id surj_pair)
    have e: "p + ps = a" "insert_free_block (a, s) fl = bs @ (p, ps + s') # after'" using True ins b by auto
    have "{p..<p + (ps + s')} = {p..<p + ps} \<union> {a..<a + s'}" using e(1) by auto
    then have "bytes_of (bs @ (p, ps + s') # after') = {a..<a + s} \<union> bytes_of ((bs @ [(p, ps)]) @ after)"
      using nx(2) by (simp only: bytes_of_simps) blast
    then have "bytes_of (insert_free_block (a, s) fl) = {a..<a + s} \<union> bytes_of fl"
      unfolding e(2) unfolding fl b .
    moreover have "list_wf (bs @ (p, ps + s') # after')"
      using w(1) wa gap_after e(1) unfolding b list_wf_append list_wf_Cons by (auto simp: gap_def add.assoc)
    ultimately show ?thesis using e(2) by simp
  next
    case False
    have "gap p (a, s')" if "p \<in> set before" for p
    proof -
      have "before \<noteq> []" using that by auto
      then obtain bs l where b: "before = bs @ [l]" by (metis append_butlast_last_id)
      have "fst l + snd l < a" using ends [of l] False b by (auto simp: le_less)
      then show ?thesis using that w(1) unfolding b list_wf_append by (auto simp: gap_def)
    qed
    then have "list_wf (before @ (a, s') # after')"
      using w(1) nx(1) gap_after unfolding list_wf_append by auto
    moreover have "bytes_of (before @ (a, s') # after') = {a..<a + s} \<union> bytes_of fl"
      using nx(2) unfolding fl by auto
    ultimately show ?thesis unfolding ins using False by auto
  qed
  then show "list_wf (insert_free_block (a, s) fl)" "bytes_of (insert_free_block (a, s) fl) = {a..<a + s} \<union> bytes_of fl"
    by auto
qed

lemma take_fit_Some:
  "take_fit sz al fl = Some (blk, x, rest) \<Longrightarrow> \<exists>xs ys. fl = xs @ blk # ys \<and> rest = xs @ ys
     \<and> x = align_up (fst blk) al \<and> x + sz \<le> fst blk + snd blk"
proof (induction fl arbitrary: rest)
  case (Cons p fl)
  obtain b s where p: "p = (b, s)" by (cases p)
  show ?case
  proof (cases "align_up b al + sz \<le> b + s")
    case True
    then show ?thesis using Cons.prems p by (intro exI [of _ "[]"] exI [of _ fl]) (auto simp: Let_def)
  next
    case False
    then obtain r' where r': "take_fit sz al fl = Some (blk, x, r')" "rest = (b, s) # r'"
      using Cons.prems p by (auto simp: Let_def)
    from Cons.IH [OF r'(1)] obtain xs ys where "fl = xs @ blk # ys" "r' = xs @ ys"
      "x = align_up (fst blk) al" "x + sz \<le> fst blk + snd blk" by blast
    then show ?thesis using r'(2) p by (intro exI [of _ "(b, s) # xs"] exI [of _ ys]) auto
  qed
qed simp

lemma take_fit_None:
  "take_fit sz al fl = None \<Longrightarrow> (b, s) \<in> set fl \<Longrightarrow> b + s < align_up b al + sz"
  by (induction fl) (auto simp: Let_def not_le split: if_splits)

lemma block_disjoint:
  assumes "list_wf (xs @ (b, s) # ys)"
  shows "list_wf (xs @ ys)" "{b..<b + s} \<inter> bytes_of (xs @ ys) = {}"
  using assms by (auto simp: list_wf_append list_wf_Cons bytes_of_def gap_def)

lemma carve_ok:
  assumes wf: "list_wf fl" and tf: "take_fit sz al fl = Some ((b, s), x, rest)" and x: "b \<le> x"
  shows "list_wf (carve sz (b, s) x rest)" "{x..<x + sz} \<subseteq> bytes_of fl"
    "bytes_of (carve sz (b, s) x rest) \<subseteq> bytes_of fl - {x..<x + sz}"
proof -
  obtain xs ys where fl: "fl = xs @ (b, s) # ys" "rest = xs @ ys" "x + sz \<le> b + s"
    using take_fit_Some [OF tf] by auto
  note bd = block_disjoint [OF wf [unfolded fl(1)]]
  let ?rem = "b + s - (x + sz)"
  define fl1 where "fl1 = (if ?rem \<ge> MIN_BLOCK_SIZE then insert_free_block (x + sz, ?rem) rest else rest)"
  have sub: "{x + sz..<b + s} \<subseteq> {b..<b + s}" "{b..<x} \<subseteq> {b..<b + s}" "{x..<x + sz} \<subseteq> {b..<b + s}"
    using x fl(3) by auto
  have apart: "{b..<b + s} \<inter> bytes_of rest = {}" using bd(2) fl(2) by simp
  have e: "x + sz + ?rem = b + s" using fl(3) by simp
  have "{x + sz..<x + sz + ?rem} \<inter> bytes_of rest = {}" unfolding e using sub(1) apart by blast
  then have f1: "list_wf fl1" "bytes_of fl1 \<subseteq> bytes_of rest \<union> {x + sz..<b + s}"
    using insert_free_block_ok [of rest ?rem "x + sz"] bd(1) unfolding e fl(2) [symmetric] fl1_def by auto
  have c: "carve sz (b, s) x rest = (if x - b \<ge> MIN_BLOCK_SIZE then insert_free_block (b, x - b) fl1 else fl1)"
    by (simp add: carve_def fl1_def Let_def)
  have "{b..<x} \<inter> bytes_of fl1 = {}" 
  proof -
    have "{b..<x} \<inter> {x + sz..<b + s} = {}" by auto
    then show ?thesis using f1(2) sub(2) apart by blast
  qed
  then have "{b..<b + (x - b)} \<inter> bytes_of fl1 = {}" using x by simp
  then have f2: "list_wf (carve sz (b, s) x rest)" "bytes_of (carve sz (b, s) x rest) \<subseteq> {b..<x} \<union> bytes_of fl1"
    using insert_free_block_ok [of fl1 "x - b" b] f1(1) x unfolding c by auto
  show "list_wf (carve sz (b, s) x rest)" by (rule f2(1))
  show "{x..<x + sz} \<subseteq> bytes_of fl" using x fl by auto
  show "bytes_of (carve sz (b, s) x rest) \<subseteq> bytes_of fl - {x..<x + sz}"
  proof -
    have "bytes_of fl = {b..<b + s} \<union> bytes_of rest" using fl by auto
    moreover have "({b..<x} \<union> {x + sz..<b + s}) \<inter> {x..<x + sz} = {}" by auto
    ultimately show ?thesis using f2(2) f1(2) sub apart by blast
  qed
qed

section \<open>The heap as a whole\<close>

text \<open>
  A heap, the frame allocator under it and the allocations handed out and not yet returned, as
  (address, requested size) pairs. The invariant: the free list is well formed; free blocks and
  live allocations do not overlap, nor do two live allocations; all of them lie in frames that
  the frame allocator regards as taken; the heap keeps to whole frames and its maximal size.
\<close>

definition live_region :: "nat \<times> nat \<Rightarrow> nat set" where
  "live_region x = {fst x..<fst x + block_size (snd x)}"

definition live_bytes :: "(nat \<times> nat) list \<Rightarrow> nat set" where
  "live_bytes live = (\<Union>x \<in> set live. live_region x)"

definition live_disjoint :: "(nat \<times> nat) list \<Rightarrow> bool" where
  "live_disjoint live \<longleftrightarrow> sorted_wrt (\<lambda>x y. live_region x \<inter> live_region y = {}) live"

definition taken :: "BitmapAllocator \<Rightarrow> nat set \<Rightarrow> bool" where
  "taken ph X \<longleftrightarrow> (\<forall>x \<in> X. x < MAX_FRAMES * FRAME_SIZE \<and> \<not> frame_free ph (x div FRAME_SIZE))"

definition heap_inv :: "KernelHeapAllocator \<Rightarrow> BitmapAllocator \<Rightarrow> (nat \<times> nat) list \<Rightarrow> bool" where
  "heap_inv h ph live \<longleftrightarrow> list_wf (free_list h) \<and> phys_inv ph
     \<and> bytes_of (free_list h) \<inter> live_bytes live = {} \<and> live_disjoint live
     \<and> taken ph (bytes_of (free_list h) \<union> live_bytes live)
     \<and> FRAME_SIZE dvd heap_size h \<and> heap_size h \<le> MAX_HEAP_SIZE"

lemma live_bytes_Cons [simp]: "live_bytes (x # live) = live_region x \<union> live_bytes live"
  by (simp add: live_bytes_def)

lemma live_disjoint_Cons:
  "live_disjoint (x # live) \<longleftrightarrow> live_region x \<inter> live_bytes live = {} \<and> live_disjoint live"
  by (auto simp: live_disjoint_def live_bytes_def)

lemma taken_mono: "taken ph X \<Longrightarrow> Y \<subseteq> X \<Longrightarrow> taken ph Y"
  by (auto simp: taken_def)

lemma taken_Un: "taken ph (X \<union> Y) \<longleftrightarrow> taken ph X \<and> taken ph Y"
  by (auto simp: taken_def)

lemma block_size_bounds:
  assumes "sz \<le> 2 ^ 62"
  shows "MIN_BLOCK_SIZE \<le> block_size sz" "sz \<le> block_size sz" "8 dvd block_size sz"
proof -
  have b: "max sz MIN_BLOCK_SIZE + 2 ^ 3 \<le> 2 ^ 64" using assms by (simp add: MIN_BLOCK_SIZE_def max_def)
  have "max sz MIN_BLOCK_SIZE \<le> block_size sz" using align_up_bounds(1) [OF b] by (simp add: block_size_def)
  then show "MIN_BLOCK_SIZE \<le> block_size sz" "sz \<le> block_size sz" by auto
  show "8 dvd block_size sz" using align_up_bounds(3) [OF b] by (simp add: block_size_def)
qed

text \<open>A run of frames that was free is disjoint from everything taken.\<close>

lemma fresh_run:
  assumes "taken ph X" "\<forall>f. s \<le> f \<and> f < s + n \<longrightarrow> frame_free ph f"
  shows "{frame_addr s..<frame_addr s + n * FRAME_SIZE} \<inter> X = {}"
proof -
  have "s \<le> x div FRAME_SIZE \<and> x div FRAME_SIZE < s + n"
    if "frame_addr s \<le> x" "x < frame_addr s + n * FRAME_SIZE" for x
    using that by (auto simp: frame_addr_def FRAME_SIZE_def)
  then show ?thesis using assms by (auto simp: taken_def)
qed

lemma run_taken:
  assumes "s + n \<le> MAX_FRAMES" "\<forall>g. frame_free ph' g \<longrightarrow> \<not> (s \<le> g \<and> g < s + n)"
  shows "taken ph' {frame_addr s..<frame_addr s + n * FRAME_SIZE}"
proof -
  have "s \<le> x div FRAME_SIZE \<and> x div FRAME_SIZE < s + n"
    if "frame_addr s \<le> x" "x < frame_addr s + n * FRAME_SIZE" for x
    using that by (auto simp: frame_addr_def FRAME_SIZE_def)
  moreover have "frame_addr s + n * FRAME_SIZE \<le> MAX_FRAMES * FRAME_SIZE"
    using assms(1) by (simp add: frame_addr_def FRAME_SIZE_def)
  ultimately show ?thesis using assms(2) unfolding taken_def by fastforce
qed

lemma try_grow_ok:
  assumes "heap_inv h ph live"
  shows "\<exists>ok h' ph'. try_grow n h ph = Some (ok, h', ph') \<and> heap_inv h' ph' live \<and> (\<not> ok \<longrightarrow> h' = h)"
proof (cases "heap_size h + max n (FRAME_SIZE * 64) > MAX_HEAP_SIZE")
  case True
  then show ?thesis using assms by (auto simp: try_grow_def)
next
  case False
  define k where "k = (max n (FRAME_SIZE * 64) + FRAME_SIZE - 1) div FRAME_SIZE"
  have inv: "phys_inv ph" using assms by (simp add: heap_inv_def)
  obtain r ph' where r: "alloc_contiguous ph k = Some (r, ph')" "contiguous_result ph k (r, ph')"
    using alloc_contiguous_ok [OF inv, of k] by fastforce
  have tg: "try_grow n h ph = (case r of Inl e \<Rightarrow> Some (False, h, ph') | Inr f \<Rightarrow> Some (True,
       h\<lparr>free_list := insert_free_block (frame_addr f, k * FRAME_SIZE) (free_list h),
         heap_size := heap_size h + k * FRAME_SIZE\<rparr>, ph'))"
    using False r(1) unfolding try_grow_def Let_def k_def [symmetric] by simp
  have k: "64 \<le> k" unfolding k_def FRAME_SIZE_def by linarith
  obtain q where q: "heap_size h = 4096 * q" using assms by (auto simp: heap_inv_def FRAME_SIZE_def)
  have "4096 * q + max n (FRAME_SIZE * 64) \<le> 4096 * 8192"
    using False q by (simp add: MAX_HEAP_SIZE_def)
  then have "q + k \<le> 8192" unfolding k_def by (simp add: FRAME_SIZE_def)
  then have size: "heap_size h + k * FRAME_SIZE \<le> MAX_HEAP_SIZE" "FRAME_SIZE dvd heap_size h + k * FRAME_SIZE"
    using q by (simp_all add: FRAME_SIZE_def MAX_HEAP_SIZE_def)
  show ?thesis
  proof (cases r)
    case (Inl e)
    then show ?thesis using tg r(2) assms by (auto simp: contiguous_result_def)
  next
    case (Inr f)
    note c = r(2) [unfolded Inr contiguous_result_def prod.case sum.case]
    let ?new = "{frame_addr f..<frame_addr f + k * FRAME_SIZE}"
    have lim: "f + k \<le> MAX_FRAMES" using c inv by (simp add: phys_inv_def)
    have t: "taken ph (bytes_of (free_list h) \<union> live_bytes live)" using assms by (simp add: heap_inv_def)
    have disj: "?new \<inter> (bytes_of (free_list h) \<union> live_bytes live) = {}"
      using fresh_run [OF t] c by blast
    have "MIN_BLOCK_SIZE \<le> k * FRAME_SIZE" using k by (simp add: MIN_BLOCK_SIZE_def FRAME_SIZE_def)
    note ins = insert_free_block_ok [of "free_list h" "k * FRAME_SIZE" "frame_addr f", OF _ this]
    have "list_wf (free_list h)" using assms by (simp add: heap_inv_def)
    note ins = ins [OF this]
    have t': "taken ph' (bytes_of (free_list h) \<union> live_bytes live)" using t c by (auto simp: taken_def)
    have "?new \<inter> bytes_of (free_list h) = {}" using disj by blast
    note ins = ins [OF this]
    have "taken ph' ?new" using run_taken [OF lim] c by blast
    then have "taken ph' (bytes_of (insert_free_block (frame_addr f, k * FRAME_SIZE) (free_list h)) \<union> live_bytes live)"
      using t' unfolding ins(2) by (simp add: taken_Un)
    moreover have "bytes_of (insert_free_block (frame_addr f, k * FRAME_SIZE) (free_list h)) \<inter> live_bytes live = {}"
      using disj assms unfolding ins(2) heap_inv_def by blast
    ultimately have "heap_inv (h\<lparr>free_list := insert_free_block (frame_addr f, k * FRAME_SIZE) (free_list h),
         heap_size := heap_size h + k * FRAME_SIZE\<rparr>) ph' live"
      using assms ins(1) size c by (simp add: heap_inv_def)
    then show ?thesis using tg Inr by auto
  qed
qed

text \<open>Layouts: a power-of-two alignment and a size within the address range.\<close>

definition layout_ok :: "nat \<Rightarrow> nat \<Rightarrow> bool" where
  "layout_ok sz al \<longleftrightarrow> (\<exists>k \<le> 62. al = 2 ^ k) \<and> sz \<le> 2 ^ 62"

lemma layout_align:
  assumes "layout_ok sz al" "b < MAX_FRAMES * FRAME_SIZE"
  shows "b \<le> align_up b (max al 8) \<and> al dvd align_up b (max al 8)"
proof -
  obtain k where k: "k \<le> 62" "al = 2 ^ k" using assms(1) by (auto simp: layout_ok_def)
  have m: "max al 8 = 2 ^ max k 3"
    using k(2) power_increasing_iff [of "2 :: nat" k 3] power_increasing_iff [of "2 :: nat" 3 k] by (auto simp: max_def)
  have "(2 :: nat) ^ max k 3 \<le> 2 ^ 62" using k(1) by (intro power_increasing) auto
  moreover have "MAX_FRAMES * FRAME_SIZE = 2 ^ 32" by (simp add: MAX_FRAMES_def FRAME_SIZE_def)
  ultimately have "b + 2 ^ max k 3 \<le> 2 ^ 32 + 2 ^ 62" using assms(2) by (metis add_mono less_imp_le)
  then have "b + 2 ^ max k 3 \<le> 2 ^ 64" by simp
  from align_up_bounds [OF this] have "b \<le> align_up b (max al 8)" "2 ^ max k 3 dvd align_up b (max al 8)"
    unfolding m by auto
  moreover have "al dvd 2 ^ max k 3" using k(2) by (simp add: le_imp_power_dvd)
  ultimately show ?thesis using dvd_trans by blast
qed

lemma heap_sums_fit:
  assumes "layout_ok sz al" "b + s \<le> MAX_FRAMES * FRAME_SIZE" "b < MAX_FRAMES * FRAME_SIZE"
  shows "b + s < 2 ^ 64" "b + max al 8 < 2 ^ 64" "b \<le> align_up b (max al 8)" "align_up b (max al 8) + block_size sz < 2 ^ 64"
    "MAX_HEAP_SIZE + max (block_size sz + max al 8) (FRAME_SIZE * 64) + FRAME_SIZE < 2 ^ 64"
proof -
  obtain k where k: "k \<le> 62" "al = 2 ^ k" using assms(1) by (auto simp: layout_ok_def)
  have sz: "sz \<le> 2 ^ 62" using assms(1) by (simp add: layout_ok_def)
  have m: "MAX_FRAMES * FRAME_SIZE = 2 ^ 32" by (simp add: MAX_FRAMES_def FRAME_SIZE_def)
  have al: "max al 8 = 2 ^ max k 3"
    using k(2) power_increasing_iff [of "2 :: nat" k 3] power_increasing_iff [of "2 :: nat" 3 k] by (auto simp: max_def)
  have "max k 3 \<le> 62" using k(1) by simp
  then have a62: "(2 :: nat) ^ max k 3 \<le> 2 ^ 62" by (rule power_increasing) simp
  have b32: "b < 2 ^ 32" "b + s \<le> 2 ^ 32" using assms(2,3) m by simp_all
  have up: "b + 2 ^ max k 3 \<le> 2 ^ 64" using a62 b32(1) by simp
  have bs: "block_size sz < 2 ^ 62 + 32"
  proof -
    have "max sz MIN_BLOCK_SIZE + 2 ^ 3 \<le> 2 ^ 64" using sz by (simp add: MIN_BLOCK_SIZE_def max_def)
    from align_up_bounds(2) [OF this] show ?thesis using sz by (simp add: block_size_def MIN_BLOCK_SIZE_def max_def split: if_splits)
  qed
  show "b + s < 2 ^ 64" using b32(2) by simp
  show "b + max al 8 < 2 ^ 64" using a62 b32(1) unfolding al by simp
  show "b \<le> align_up b (max al 8)" unfolding al by (rule align_up_bounds(1) [OF up])
  show "align_up b (max al 8) + block_size sz < 2 ^ 64"
    using align_up_bounds(2) [OF up] a62 b32(1) bs unfolding al by simp
  show "MAX_HEAP_SIZE + max (block_size sz + max al 8) (FRAME_SIZE * 64) + FRAME_SIZE < 2 ^ 64"
    using a62 bs unfolding al by (simp add: MAX_HEAP_SIZE_def FRAME_SIZE_def max_def)
qed

lemma alloc_inner_ok:
  "heap_inv h ph live \<Longrightarrow> layout_ok sz al \<Longrightarrow>
   \<exists>r h' ph'. alloc_inner sz al h ph = Some (r, h', ph') \<and> (case r of
      None \<Rightarrow> heap_inv h' ph' live
    | Some p \<Rightarrow> heap_inv h' ph' ((p, sz) # live) \<and> al dvd p)"
proof (induction sz al h ph rule: alloc_inner.induct)
  case (1 sz al h ph)
  note inv = 1(2) and lay = 1(3)
  have wf: "list_wf (free_list h)" using inv by (simp add: heap_inv_def)
  show ?case
  proof (cases "take_fit (block_size sz) (max al 8) (free_list h)")
    case (Some t)
    obtain b s x rest where t: "t = ((b, s), x, rest)" by (metis surj_pair)
    note tf = Some [unfolded t]
    obtain xs ys where fl: "free_list h = xs @ (b, s) # ys" "x = align_up b (max al 8)" using take_fit_Some [OF tf] by auto
    have "MIN_BLOCK_SIZE \<le> s" using wf fl(1) by (simp add: list_wf_append list_wf_Cons)
    then have "0 < s" using MIN_BLOCK_SIZE_pos by linarith
    then have "b \<in> bytes_of (free_list h)" using fl(1) by simp
    then have "b < MAX_FRAMES * FRAME_SIZE" using inv by (auto simp: heap_inv_def taken_def)
    from layout_align [OF lay this] have x: "b \<le> x" "al dvd x" using fl(2) by auto
    note c = carve_ok [OF wf tf x(1)]
    let ?h = "h\<lparr>free_list := carve (block_size sz) (b, s) x rest\<rparr>"
    have reg: "live_region (x, sz) = {x..<x + block_size sz}" by (simp add: live_region_def)
    have "heap_inv ?h ph ((x, sz) # live)"
      using inv c unfolding heap_inv_def live_bytes_Cons live_disjoint_Cons reg
      by (auto simp: taken_Un intro: taken_mono)
    then show ?thesis using Some t x(2) by (simp add: alloc_inner.simps [of sz al h ph])
  next
    case None
    obtain ok h' ph' where g: "try_grow (block_size sz + max al 8) h ph = Some (ok, h', ph')"
      "heap_inv h' ph' live" "\<not> ok \<longrightarrow> h' = h" using try_grow_ok [OF inv] by blast
    show ?thesis
    proof (cases ok)
      case True
      then show ?thesis using 1(1) [OF None g(1), of ok "(h', ph')" h' ph'] g lay None
        by (simp add: alloc_inner.simps [of sz al h ph])
    next
      case False
      then show ?thesis using g None by (simp add: alloc_inner.simps [of sz al h ph])
    qed
  qed
qed

lemma dealloc_inner_ok:
  assumes "heap_inv h ph (xs @ (p, sz) # ys)" "sz \<le> 2 ^ 62"
  shows "heap_inv (dealloc_inner p sz h) ph (xs @ ys)"
proof -
  have reg: "live_region (p, sz) = {p..<p + block_size sz}" by (simp add: live_region_def)
  have lb: "live_bytes (xs @ (p, sz) # ys) = live_region (p, sz) \<union> live_bytes (xs @ ys)"
    by (auto simp: live_bytes_def)
  have ld: "live_region (p, sz) \<inter> live_bytes (xs @ ys) = {}" "live_disjoint (xs @ ys)"
    using assms(1) by (auto simp: heap_inv_def live_disjoint_def live_bytes_def sorted_wrt_append)
  have "{p..<p + block_size sz} \<inter> bytes_of (free_list h) = {}" "list_wf (free_list h)"
    using assms(1) unfolding heap_inv_def lb reg by auto
  note ins = insert_free_block_ok [OF this(2) block_size_bounds(1) [OF assms(2)] this(1)]
  show ?thesis
    using assms(1) ins ld unfolding heap_inv_def dealloc_inner_def lb reg by (auto simp: taken_Un)
qed

section \<open>Properties\<close>

text \<open>A client of the heap: allocate with a layout, or return the \<open>i\<close>-th live allocation.\<close>

datatype heap_op = HAlloc nat nat | HFree nat

fun heap_run ::
  "KernelHeapAllocator \<Rightarrow> BitmapAllocator \<Rightarrow> (nat \<times> nat) list \<Rightarrow> heap_op list
    \<Rightarrow> (KernelHeapAllocator \<times> BitmapAllocator \<times> (nat \<times> nat) list) option" where
  "heap_run h ph live [] = Some (h, ph, live)"
| "heap_run h ph live (HAlloc sz al # ops) = do {
     (r, h', ph') \<leftarrow> alloc_inner sz al h ph;
     heap_run h' ph' (case r of None \<Rightarrow> live | Some p \<Rightarrow> (p, sz) # live) ops }"
| "heap_run h ph live (HFree i # ops) =
     (if i < length live
      then heap_run (dealloc_inner (fst (live ! i)) (snd (live ! i)) h) ph (take i live @ drop (Suc i) live) ops
      else heap_run h ph live ops)"

definition ops_ok :: "heap_op list \<Rightarrow> bool" where
  "ops_ok ops \<longleftrightarrow> (\<forall>sz al. HAlloc sz al \<in> set ops \<longrightarrow> layout_ok sz al)"

lemma heap_run_ok:
  "heap_inv h ph live \<Longrightarrow> (\<forall>x \<in> set live. snd x \<le> 2 ^ 62) \<Longrightarrow> ops_ok ops \<Longrightarrow>
   \<exists>h' ph' live'. heap_run h ph live ops = Some (h', ph', live') \<and> heap_inv h' ph' live'"
proof (induction ops arbitrary: h ph live)
  case (Cons op ops)
  have ok: "ops_ok ops" using Cons.prems(3) by (simp add: ops_ok_def)
  show ?case
  proof (cases op)
    case (HAlloc sz al)
    have lay: "layout_ok sz al" using Cons.prems(3) HAlloc by (simp add: ops_ok_def)
    obtain r h' ph' where r: "alloc_inner sz al h ph = Some (r, h', ph')" "case r of None \<Rightarrow> heap_inv h' ph' live
        | Some p \<Rightarrow> heap_inv h' ph' ((p, sz) # live) \<and> al dvd p"
      using alloc_inner_ok [OF Cons.prems(1) lay] by blast
    show ?thesis
      using Cons.IH [of h' ph' "case r of None \<Rightarrow> live | Some p \<Rightarrow> (p, sz) # live"] r HAlloc Cons.prems(2) ok lay
      by (cases r) (auto simp: layout_ok_def)
  next
    case (HFree i)
    show ?thesis
    proof (cases "i < length live")
      case True
      have sp: "live = take i live @ (fst (live ! i), snd (live ! i)) # drop (Suc i) live"
        using id_take_nth_drop [OF True] by simp
      have "snd (live ! i) \<le> 2 ^ 62" using Cons.prems(2) True by simp
      from dealloc_inner_ok [OF _ this] Cons.prems(1)
      have "heap_inv (dealloc_inner (fst (live ! i)) (snd (live ! i)) h) ph (take i live @ drop (Suc i) live)"
        using sp by metis
      moreover have "\<forall>x \<in> set (take i live @ drop (Suc i) live). snd x \<le> 2 ^ 62"
        using Cons.prems(2) by (auto dest: in_set_takeD in_set_dropD)
      ultimately show ?thesis using Cons.IH ok HFree True by simp
    qed (use Cons ok HFree in simp)
  qed
qed simp

lemma heap_boot_ok:
  assumes "phys_inv ph" "heap_boot ph = Some (Inr h, ph')"
  shows "heap_inv h ph' []"
proof -
  define n where "n = INITIAL_HEAP_SIZE div FRAME_SIZE"
  obtain f where f: "alloc_contiguous ph n = Some (Inr f, ph')" "h = heap_init (frame_addr f) INITIAL_HEAP_SIZE"
    using assms(2) unfolding heap_boot_def Let_def n_def [symmetric] by (auto split: bind_splits sum.splits)
  have c: "contiguous_result ph n (Inr f, ph')" using alloc_contiguous_ok [OF assms(1), of n] f(1) by auto
  note c = c [unfolded contiguous_result_def prod.case sum.case]
  have n: "n * FRAME_SIZE = INITIAL_HEAP_SIZE" by (simp add: n_def INITIAL_HEAP_SIZE_def FRAME_SIZE_def)
  have "f + n \<le> MAX_FRAMES" using c assms(1) by (simp add: phys_inv_def)
  from run_taken [OF this, of ph'] c n have "taken ph' {frame_addr f..<frame_addr f + INITIAL_HEAP_SIZE}" by auto
  then show ?thesis using c f(2)
    by (simp add: heap_inv_def heap_init_def list_wf_def live_bytes_def live_disjoint_def
        MIN_BLOCK_SIZE_def INITIAL_HEAP_SIZE_def MAX_HEAP_SIZE_def FRAME_SIZE_def)
qed

text \<open>C12: from the booted heap, over any sequence of allocations and of releases of live
  allocations, nothing panics, live allocations never overlap each other or the free list, the
  free list stays sorted, disjoint and fully coalesced, all of it lies in frames the heap owns, and
  the heap never exceeds its maximal size.\<close>

theorem heap_safe:
  assumes "phys_inv ph" "heap_boot ph = Some (Inr h, ph')" "ops_ok ops"
  shows "\<exists>h' ph'' live. heap_run h ph' [] ops = Some (h', ph'', live) \<and> heap_inv h' ph'' live"
  using heap_run_ok [OF heap_boot_ok [OF assms(1,2)] _ assms(3)] by simp

lemma boot_64MiB:
  "\<exists>a h ph'. init_from_memory_map phys_new [(0x100000, 0x4000000, True)] = Some a \<and> phys_inv a
     \<and> heap_boot a = Some (Inr h, ph')"
proof -
  let ?es = "[(0x100000, 0x4000000, True)]" and ?n = "INITIAL_HEAP_SIZE div FRAME_SIZE"
  have "map_sane ?es" by (simp add: map_sane_def FRAME_SIZE_def)
  from init_from_memory_map_ok [OF phys_new_inv phys_new_tracked this] obtain a where
    a: "init_from_memory_map phys_new ?es = Some a" "phys_inv a" "tracked a"
    "\<forall>f. frame_free a f \<longleftrightarrow> frame_free phys_new f \<or> (f < MAX_FRAMES \<and> in_usable ?es f)" by blast
  have "f < MAX_FRAMES \<and> in_usable ?es f \<longleftrightarrow> 256 \<le> f \<and> f < 16640" for f
    by (auto simp: in_usable_def frame_within_def frame_addr_def FRAME_SIZE_def MAX_FRAMES_def)
  then have fr: "frame_free a f \<longleftrightarrow> 256 \<le> f \<and> f < 16640" for f
    using a(4) phys_new_none_free by blast
  then have "16639 < total_frames a" using a(3) by (simp add: tracked_def)
  moreover have n: "?n = 2048" by (simp add: INITIAL_HEAP_SIZE_def FRAME_SIZE_def)
  obtain r q where r: "alloc_contiguous a ?n = Some (r, q)" "contiguous_result a ?n (r, q)"
    using alloc_contiguous_ok [OF a(2), of ?n] by fastforce
  ultimately have "\<exists>f. r = Inr f"
    using fr unfolding n by (cases r) (auto simp: contiguous_result_def dest!: spec [of _ 256])
  then show ?thesis using a r(1) unfolding heap_boot_def by auto
qed

theorem heap_safe_witness:
  "\<exists>a h ph' h' ph'' live. heap_boot a = Some (Inr h, ph')
     \<and> heap_run h ph' [] [HAlloc 100 8, HAlloc 5000 4096, HFree 0] = Some (h', ph'', live) \<and> heap_inv h' ph'' live"
proof -
  obtain a h ph' where b: "phys_inv a" "heap_boot a = Some (Inr h, ph')" using boot_64MiB by blast
  have "layout_ok 100 8" "layout_ok 5000 4096"
    unfolding layout_ok_def by (intro conjI exI [of _ 3] exI [of _ 12], simp_all)+
  then have "ops_ok [HAlloc 100 8, HAlloc 5000 4096, HFree 0]" by (simp add: ops_ok_def)
  from heap_safe [OF b this] b(2) show ?thesis by blast
qed

text \<open>The heap cannot grow by \<open>n\<close> bytes: it would exceed its maximum, or no run of frames is free.\<close>

definition cannot_grow :: "nat \<Rightarrow> KernelHeapAllocator \<Rightarrow> BitmapAllocator \<Rightarrow> bool" where
  "cannot_grow n h ph \<longleftrightarrow> heap_size h + max n (FRAME_SIZE * 64) > MAX_HEAP_SIZE
     \<or> contiguous_result ph ((max n (FRAME_SIZE * 64) + FRAME_SIZE - 1) div FRAME_SIZE) (Inl OutOfMemory, ph)"

lemma try_grow_False:
  assumes "phys_inv ph" "try_grow n h ph = Some (False, h', ph')"
  shows "h' = h \<and> ph' = ph \<and> cannot_grow n h ph"
proof -
  define k where "k = (max n (FRAME_SIZE * 64) + FRAME_SIZE - 1) div FRAME_SIZE"
  obtain r q where r: "alloc_contiguous ph k = Some (r, q)" "contiguous_result ph k (r, q)"
    using alloc_contiguous_ok [OF assms(1), of k] by fastforce
  then show ?thesis
    using assms(2) unfolding try_grow_def Let_def k_def [symmetric] cannot_grow_def
    by (auto simp: contiguous_result_def split: if_splits sum.splits)
qed

lemma alloc_inner_null:
  "heap_inv h ph live \<Longrightarrow> layout_ok sz al \<Longrightarrow> alloc_inner sz al h ph = Some (None, h', ph') \<Longrightarrow>
   (\<forall>(b, s) \<in> set (free_list h'). b + s < align_up b (max al 8) + block_size sz)
     \<and> cannot_grow (block_size sz + max al 8) h' ph'"
proof (induction sz al h ph rule: alloc_inner.induct)
  case (1 sz al h ph)
  note eq = 1(4) [unfolded alloc_inner.simps [of sz al h ph]]
  have tf: "take_fit (block_size sz) (max al 8) (free_list h) = None" using eq by (auto split: option.splits)
  obtain ok h1 ph1 where g: "try_grow (block_size sz + max al 8) h ph = Some (ok, h1, ph1)"
      "heap_inv h1 ph1 live" using try_grow_ok [OF 1(2)] by blast
  show ?case
  proof (cases ok)
    case True
    then show ?thesis using 1(1) [OF tf g(1), of ok "(h1, ph1)" h1 ph1] g 1(3) eq tf by simp
  next
    case False
    have "phys_inv ph" using 1(2) by (simp add: heap_inv_def)
    from try_grow_False [OF this] g(1) False have f: "h1 = h" "ph1 = ph" "cannot_grow (block_size sz + max al 8) h ph" by auto
    have "h' = h1" "ph' = ph1" using eq tf g(1) False by auto
    then show ?thesis using f take_fit_None [OF tf] by auto
  qed
qed

text \<open>C13: an allocation never panics; a returned block is aligned as requested and
  disjoint from every live allocation; a null pointer means that no free block fits and that the
  heap cannot grow.\<close>

theorem heap_alloc_contract:
  assumes "heap_inv h ph live" "layout_ok sz al"
  shows "\<exists>r h' ph'. alloc_inner sz al h ph = Some (r, h', ph') \<and> (case r of
      None \<Rightarrow> (\<forall>(b, s) \<in> set (free_list h'). b + s < align_up b (max al 8) + block_size sz)
        \<and> cannot_grow (block_size sz + max al 8) h' ph'
    | Some p \<Rightarrow> al dvd p \<and> live_region (p, sz) \<inter> live_bytes live = {} \<and> heap_inv h' ph' ((p, sz) # live))"
proof -
  obtain r h' ph' where r: "alloc_inner sz al h ph = Some (r, h', ph')" "case r of None \<Rightarrow> heap_inv h' ph' live
      | Some p \<Rightarrow> heap_inv h' ph' ((p, sz) # live) \<and> al dvd p" using alloc_inner_ok [OF assms] by blast
  then show ?thesis using alloc_inner_null [OF assms, of h' ph']
    by (cases r) (auto simp: heap_inv_def live_disjoint_Cons)
qed

text \<open>A small heap for the witnesses: one megabyte at frame 256, taken from an exhausted allocator.\<close>

lemma small_heap_inv:
  "heap_inv (heap_init 0x100000 0x100000) phys_new []"
proof -
  have "frame_free phys_new f = False" for f by (simp add: phys_new_none_free)
  then show ?thesis using phys_new_inv
    by (simp add: heap_inv_def heap_init_def list_wf_def live_bytes_def live_disjoint_def taken_def
        MIN_BLOCK_SIZE_def MAX_HEAP_SIZE_def FRAME_SIZE_def MAX_FRAMES_def)
qed

theorem heap_alloc_contract_witness:
  "\<exists>r h' ph'. alloc_inner 100 64 (heap_init 0x100000 0x100000) phys_new = Some (r, h', ph')"
proof -
  have "layout_ok 100 64" unfolding layout_ok_def by (intro conjI exI [of _ 6]) simp_all
  from heap_alloc_contract [OF small_heap_inv this] show ?thesis by blast
qed

end
