(* ===== verification/VmSpace.thy ===== *)
theory VmSpace imports Inode begin

text \<open>
  \<open>kernel/src/mm/vm.rs\<close>: the record of a process's mappings, and what \<open>sys_mmap\<close>,
  \<open>sys_munmap\<close> and \<open>sys_mprotect\<close> do to it. Addresses are natural numbers below \<open>2 ^ 64\<close>; an
  addition that the code does not check panics on overflow.
\<close>

definition PAGE_SIZE :: nat where "PAGE_SIZE = 4096"
definition USER_FLOOR :: nat where "USER_FLOOR = 0x100000000"
definition USER_CEILING :: nat where "USER_CEILING = 0x800000000000"
definition MMAP_TOP :: nat where "MMAP_TOP = 0x7FF000000000"
definition PROT_MASK :: u32 where "PROT_MASK = 7"

datatype AreaKind = Elf | Stack | Anon

record VmArea =
  va_start :: nat
  va_end :: nat
  va_prot :: u32
  va_kind :: AreaKind

definition va_len :: "VmArea \<Rightarrow> nat option" where
  "va_len a = csub (va_end a) (va_start a)"

type_synonym VmSpace = "VmArea list"

datatype VmError = Invalid | Overlap

definition vm_new :: VmSpace where "vm_new = []"

definition range_is_valid :: "nat \<Rightarrow> nat \<Rightarrow> bool" where
  "range_is_valid s e \<longleftrightarrow> PAGE_SIZE dvd s \<and> PAGE_SIZE dvd e \<and> s < e \<and> s \<ge> USER_FLOOR \<and> e \<le> USER_CEILING"

definition vm_find :: "VmSpace \<Rightarrow> nat \<Rightarrow> VmArea option" where
  "vm_find sp addr = find (\<lambda>a. va_start a \<le> addr \<and> addr < va_end a) sp"

definition overlaps :: "VmSpace \<Rightarrow> nat \<Rightarrow> nat \<Rightarrow> bool" where
  "overlaps sp s e \<longleftrightarrow> list_ex (\<lambda>a. va_start a < e \<and> s < va_end a) sp"

lemma vm_find_SomeD: "vm_find sp x = Some a \<Longrightarrow> a \<in> set sp \<and> va_start a \<le> x \<and> x < va_end a"
  by (auto simp: vm_find_def find_Some_iff)

lemma vm_find_NoneD: "vm_find sp x = None \<Longrightarrow> a \<in> set sp \<Longrightarrow> \<not> (va_start a \<le> x \<and> x < va_end a)"
  by (auto simp: vm_find_def find_None_iff)

function covers :: "VmSpace \<Rightarrow> nat \<Rightarrow> nat \<Rightarrow> bool" where
  "covers sp at e =
     (if at < e then (case vm_find sp at of Some a \<Rightarrow> covers sp (va_end a) e | None \<Rightarrow> False) else True)"
  by pat_completeness auto

termination
  by (relation "measure (\<lambda>(sp, at, e). e - at)") (auto dest: vm_find_SomeD)

declare covers.simps [simp del]

text \<open>The position of the first area that starts after the new one, and the insertion there.\<close>

definition vm_insert :: "VmSpace \<Rightarrow> VmArea \<Rightarrow> (VmError + unit) \<times> VmSpace" where
  "vm_insert sp area =
     (if \<not> range_is_valid (va_start area) (va_end area) then (Inl Invalid, sp)
      else if overlaps sp (va_start area) (va_end area) then (Inl Overlap, sp)
      else (Inr (), takeWhile (\<lambda>a. \<not> va_start a > va_start area) sp @ area #
                    dropWhile (\<lambda>a. \<not> va_start a > va_start area) sp))"

definition next_start :: "VmSpace \<Rightarrow> nat \<Rightarrow> nat \<Rightarrow> nat" where
  "next_start sp at e =
     (case filter (\<lambda>s. s > at) (map va_start sp) of [] \<Rightarrow> e | s # ss \<Rightarrow> min (foldr min ss s) e)"

lemma foldr_min_in: "foldr min ss (s :: nat) \<in> set (s # ss)"
  by (induction ss) (auto simp: min_def)

lemma next_start_gt: "at < e \<Longrightarrow> at < next_start sp at e"
proof (cases "filter (\<lambda>s. s > at) (map va_start sp)")
  case (Cons s ss)
  have "foldr min ss s \<in> set (filter (\<lambda>s. s > at) (map va_start sp))" unfolding Cons by (rule foldr_min_in)
  then have "at < foldr min ss s" by simp
  then show "at < e \<Longrightarrow> at < next_start sp at e" unfolding next_start_def Cons by simp
qed (simp add: next_start_def)

function uncovered_loop :: "VmArea \<Rightarrow> VmSpace \<Rightarrow> nat \<Rightarrow> (VmError + unit) \<times> VmSpace" where
  "uncovered_loop area sp at =
     (if at < va_end area then
        (case vm_find sp at of
           Some a \<Rightarrow> uncovered_loop area sp (va_end a)
         | None \<Rightarrow>
             (case vm_insert sp (area\<lparr>va_start := at, va_end := next_start sp at (va_end area)\<rparr>) of
                (Inl e, sp') \<Rightarrow> (Inl e, sp')
              | (Inr u, sp') \<Rightarrow> uncovered_loop area sp' (next_start sp at (va_end area))))
      else (Inr (), sp))"
  by pat_completeness auto

termination
  by (relation "measure (\<lambda>(area, sp, at). va_end area - at)")
    (auto dest: vm_find_SomeD intro: diff_less_mono2 next_start_gt)

declare uncovered_loop.simps [simp del]

definition insert_uncovered :: "VmSpace \<Rightarrow> VmArea \<Rightarrow> (VmError + unit) \<times> VmSpace" where
  "insert_uncovered sp area =
     (if \<not> range_is_valid (va_start area) (va_end area) then (Inl Invalid, sp)
      else uncovered_loop area sp (va_start area))"

fun free_below_loop :: "VmArea list \<Rightarrow> nat \<Rightarrow> nat \<Rightarrow> nat option option" where
  "free_below_loop [] len limit = do {
     fl \<leftarrow> cadd64 USER_FLOOR len;
     Some (if limit \<ge> fl then Some (limit - len) else None) }"
| "free_below_loop (a # rs) len limit =
     (if va_end a \<le> limit then
        (if limit - va_end a \<ge> len \<and> limit - len \<ge> USER_FLOOR then Some (Some (limit - len))
         else free_below_loop rs len (va_start a))
      else if va_start a < limit then free_below_loop rs len (va_start a)
      else free_below_loop rs len limit)"

definition find_free_below :: "VmSpace \<Rightarrow> nat \<Rightarrow> nat \<Rightarrow> nat option option" where
  "find_free_below sp len top' = free_below_loop (rev sp) len (min top' USER_CEILING)"

fun remove_range :: "VmSpace \<Rightarrow> nat \<Rightarrow> nat \<Rightarrow> VmSpace" where
  "remove_range [] s e = []"
| "remove_range (a # sp) s e =
     (if va_end a \<le> s \<or> va_start a \<ge> e then [a]
      else (if va_start a < s then [a\<lparr>va_end := s\<rparr>] else []) @
           (if va_end a > e then [a\<lparr>va_start := e\<rparr>] else [])) @ remove_range sp s e"

fun set_prot :: "VmSpace \<Rightarrow> nat \<Rightarrow> nat \<Rightarrow> u32 \<Rightarrow> VmSpace" where
  "set_prot [] s e p = []"
| "set_prot (a # sp) s e p =
     (if va_end a \<le> s \<or> va_start a \<ge> e then [a]
      else (if va_start a < s then [a\<lparr>va_end := s\<rparr>] else []) @
           [a\<lparr>va_start := max (va_start a) s, va_end := min (va_end a) e, va_prot := p\<rparr>] @
           (if va_end a > e then [a\<lparr>va_start := e\<rparr>] else [])) @ set_prot sp s e p"

section \<open>System calls on the record\<close>

text \<open>\<open>(length + PAGE_SIZE - 1) & !(PAGE_SIZE - 1)\<close>, with the addition checked.\<close>

definition page_len :: "nat \<Rightarrow> nat option" where
  "page_len l = (if l + (PAGE_SIZE - 1) < 2 ^ 64 then Some ((l + (PAGE_SIZE - 1)) div PAGE_SIZE * PAGE_SIZE) else None)"

definition MAP_FIXED :: u32 where "MAP_FIXED = 0x10"
definition MAP_ANONYMOUS :: u32 where "MAP_ANONYMOUS = 0x20"

text \<open>The reservation of \<open>sys_mmap\<close>, made under the lock: the address chosen, or the error.\<close>

definition mmap_reserve ::
  "VmSpace \<Rightarrow> nat \<Rightarrow> nat \<Rightarrow> u32 \<Rightarrow> u32 \<Rightarrow> ((SyscallError + nat) \<times> VmSpace) option" where
  "mmap_reserve sp addr len prot flags = do {
     choice \<leftarrow>
       (if flags AND MAP_FIXED \<noteq> 0 then
          Some (if addr + len \<ge> 2 ^ 64 then Inl EINVAL
                else if \<not> range_is_valid addr (addr + len) then Inl EINVAL
                else if overlaps sp addr (addr + len) then Inl EEXIST
                else Inr addr)
        else if addr \<noteq> 0 \<and> addr + len < 2 ^ 64 \<and> range_is_valid addr (addr + len) \<and> \<not> overlaps sp addr (addr + len)
        then Some (Inr addr)
        else do {
          r \<leftarrow> find_free_below sp len MMAP_TOP;
          Some (case r of None \<Rightarrow> Inl ENOMEM | Some s \<Rightarrow> Inr s) });
     case choice of
       Inl e \<Rightarrow> Some (Inl e, sp)
     | Inr start \<Rightarrow> do {
         e \<leftarrow> cadd64 start len;
         Some (case vm_insert sp \<lparr>va_start = start, va_end = e, va_prot = prot, va_kind = Anon\<rparr> of
                 (Inl _, sp') \<Rightarrow> (Inl ENOMEM, sp')
               | (Inr _, sp') \<Rightarrow> (Inr start, sp')) } }"

text \<open>
  \<open>sys_mmap\<close> of a user task. \<open>mapped_all\<close> says whether the loop over the pages found a frame and a
  page-table entry for every one; otherwise the reservation is taken back.
\<close>

definition sys_mmap ::
  "bool \<Rightarrow> VmSpace \<Rightarrow> nat \<Rightarrow> nat \<Rightarrow> u32 \<Rightarrow> u32 \<Rightarrow> int \<Rightarrow> ((SyscallError + nat) \<times> VmSpace) option" where
  "sys_mmap mapped_all sp addr l prot flags fd =
     (if l = 0 \<or> prot AND NOT PROT_MASK \<noteq> 0 then Some (Inl EINVAL, sp)
      else if flags AND MAP_ANONYMOUS = 0 then Some (Inl (if fd < 0 then EBADF else ENOSYS), sp)
      else case page_len l of
        None \<Rightarrow> Some (Inl ENOMEM, sp)
      | Some len \<Rightarrow> do {
          (r, sp) \<leftarrow> mmap_reserve sp addr len prot flags;
          case r of
            Inl e \<Rightarrow> Some (Inl e, sp)
          | Inr start \<Rightarrow>
              if mapped_all then Some (Inr start, sp)
              else do { e \<leftarrow> cadd64 start len; Some (Inl ENOMEM, remove_range sp start e) } })"

text \<open>\<open>sys_munmap\<close> of a user task up to the release of the pages.\<close>

definition munmap_record :: "VmSpace \<Rightarrow> nat \<Rightarrow> nat \<Rightarrow> (SyscallError + (nat \<times> nat)) \<times> VmSpace" where
  "munmap_record sp addr l =
     (if \<not> PAGE_SIZE dvd addr \<or> l = 0 then (Inl EINVAL, sp)
      else case page_len l of
        None \<Rightarrow> (Inl EINVAL, sp)
      | Some len \<Rightarrow>
          if addr + len \<ge> 2 ^ 64 then (Inl EINVAL, sp)
          else if \<not> range_is_valid addr (addr + len) then (Inl EINVAL, sp)
          else if \<not> covers sp addr (addr + len) then (Inl EINVAL, sp)
          else (Inr (addr, addr + len), remove_range sp addr (addr + len)))"

text \<open>\<open>sys_mprotect\<close> of a user task up to the page-table update; \<open>Inr None\<close> is the empty request.\<close>

definition mprotect_record ::
  "VmSpace \<Rightarrow> nat \<Rightarrow> nat \<Rightarrow> u32 \<Rightarrow> (SyscallError + (nat \<times> nat) option) \<times> VmSpace" where
  "mprotect_record sp addr l prot =
     (if \<not> PAGE_SIZE dvd addr \<or> prot AND NOT PROT_MASK \<noteq> 0 then (Inl EINVAL, sp)
      else if l = 0 then (Inr None, sp)
      else case page_len l of
        None \<Rightarrow> (Inl ENOMEM, sp)
      | Some len \<Rightarrow>
          if addr + len \<ge> 2 ^ 64 then (Inl ENOMEM, sp)
          else if \<not> range_is_valid addr (addr + len) then (Inl ENOMEM, sp)
          else if \<not> covers sp addr (addr + len) then (Inl ENOMEM, sp)
          else (Inr (Some (addr, addr + len)), set_prot sp addr (addr + len) prot))"

section \<open>Well-formed address spaces and their view\<close>

definition area_ok :: "VmArea \<Rightarrow> bool" where
  "area_ok a \<longleftrightarrow> range_is_valid (va_start a) (va_end a)"

definition vm_inv :: "VmSpace \<Rightarrow> bool" where
  "vm_inv sp \<longleftrightarrow> sorted_wrt (\<lambda>a b. va_end a \<le> va_start b) sp \<and> list_all area_ok sp"

text \<open>What the process sees at an address: the access and kind of the mapping there, if any.\<close>

definition vm_view :: "VmSpace \<Rightarrow> nat \<Rightarrow> (u32 \<times> AreaKind) option" where
  "vm_view sp x = map_option (\<lambda>a. (va_prot a, va_kind a)) (vm_find sp x)"

lemma vm_find_simps [simp]:
  "vm_find [] x = None"
  "vm_find (a # sp) x = (if va_start a \<le> x \<and> x < va_end a then Some a else vm_find sp x)"
  by (simp_all add: vm_find_def)

lemma vm_view_simps [simp]:
  "vm_view [] x = None"
  "vm_view (a # sp) x = (if va_start a \<le> x \<and> x < va_end a then Some (va_prot a, va_kind a) else vm_view sp x)"
  by (simp_all add: vm_view_def)

lemma vm_view_append:
  "vm_view (xs @ ys) x = (case vm_view xs x of None \<Rightarrow> vm_view ys x | Some r \<Rightarrow> Some r)"
  by (induction xs) auto

lemma vm_inv_Nil [simp]: "vm_inv []"
  by (simp add: vm_inv_def)

lemma vm_inv_Cons:
  "vm_inv (a # sp) \<longleftrightarrow> area_ok a \<and> (\<forall>b \<in> set sp. va_end a \<le> va_start b) \<and> vm_inv sp"
  by (auto simp: vm_inv_def)

lemma vm_inv_append:
  "vm_inv (xs @ ys) \<longleftrightarrow> vm_inv xs \<and> vm_inv ys \<and> (\<forall>a \<in> set xs. \<forall>b \<in> set ys. va_end a \<le> va_start b)"
  by (auto simp: vm_inv_def sorted_wrt_append)

lemma area_okD: "area_ok a \<Longrightarrow> va_start a < va_end a"
  by (simp add: area_ok_def range_is_valid_def)

lemma vm_view_outside:
  "\<forall>a \<in> set sp. \<not> (va_start a \<le> x \<and> x < va_end a) \<Longrightarrow> vm_view sp x = None"
  by (induction sp) auto

lemma vm_view_None_iff: "vm_view sp x = None \<longleftrightarrow> (\<forall>a \<in> set sp. \<not> (va_start a \<le> x \<and> x < va_end a))"
  by (induction sp) auto

lemma overlaps_iff: "overlaps sp s e \<longleftrightarrow> (\<exists>a \<in> set sp. va_start a < e \<and> s < va_end a)"
  by (auto simp: overlaps_def list_ex_iff)

lemma overlaps_view:
  assumes "vm_inv sp" "s < e"
  shows "overlaps sp s e \<longleftrightarrow> (\<exists>x. s \<le> x \<and> x < e \<and> vm_view sp x \<noteq> None)"
proof
  assume "overlaps sp s e"
  then obtain a where a: "a \<in> set sp" "va_start a < e" "s < va_end a" by (auto simp: overlaps_iff)
  have "va_start a < va_end a" using a(1) assms(1) by (auto simp: vm_inv_def list_all_iff intro: area_okD)
  then show "\<exists>x. s \<le> x \<and> x < e \<and> vm_view sp x \<noteq> None"
    using a assms(2) by (intro exI [of _ "max s (va_start a)"]) (auto simp: vm_view_None_iff)
next
  assume "\<exists>x. s \<le> x \<and> x < e \<and> vm_view sp x \<noteq> None"
  then obtain x a where "s \<le> x" "x < e" "a \<in> set sp" "va_start a \<le> x" "x < va_end a"
    by (auto simp del: not_None_eq simp: vm_view_None_iff)
  then show "overlaps sp s e" by (auto simp: overlaps_iff intro!: bexI [of _ a])
qed

lemma covers_iff:
  "vm_inv sp \<Longrightarrow> covers sp s e \<longleftrightarrow> (\<forall>x. s \<le> x \<and> x < e \<longrightarrow> vm_view sp x \<noteq> None)"
proof (induction sp s e rule: covers.induct)
  case (1 sp at e)
  show ?case
  proof (cases "at < e")
    case True
    show ?thesis
    proof (cases "vm_find sp at")
      case None
      then show ?thesis using True by (auto simp: covers.simps [of sp at] vm_view_def)
    next
      case (Some a)
      have a: "a \<in> set sp" "va_start a \<le> at" "at < va_end a" using vm_find_SomeD [OF Some] by auto
      have "vm_view sp x \<noteq> None" if "at \<le> x" "x < va_end a" for x 
        using a that by (auto simp: vm_view_None_iff intro!: bexI [of _ a])
      then have "(\<forall>x. at \<le> x \<and> x < e \<longrightarrow> vm_view sp x \<noteq> None) \<longleftrightarrow> (\<forall>x. va_end a \<le> x \<and> x < e \<longrightarrow> vm_view sp x \<noteq> None)"
        using a(3) by (meson not_le order.strict_trans2 less_imp_le)
      then show ?thesis using 1(1) [OF True Some 1(2)] True Some by (simp add: covers.simps [of sp at])
    qed
  qed (auto simp: covers.simps [of sp at])
qed

section \<open>Each operation against the view\<close>

lemma vm_insert_ok:
  assumes "vm_inv sp" "range_is_valid (va_start n) (va_end n)" "\<not> overlaps sp (va_start n) (va_end n)"
  shows "vm_inv (snd (vm_insert sp n))" "fst (vm_insert sp n) = Inr ()"
    "vm_view (snd (vm_insert sp n)) x = (if va_start n \<le> x \<and> x < va_end n then Some (va_prot n, va_kind n) else vm_view sp x)"
proof -
  let ?P = "\<lambda>a. \<not> va_start a > va_start n"
  define xs where "xs = takeWhile ?P sp"
  define ys where "ys = dropWhile ?P sp"
  have sp: "sp = xs @ ys" by (simp add: xs_def ys_def)
  have ins: "vm_insert sp n = (Inr (), xs @ n # ys)" using assms(2,3) by (simp add: vm_insert_def xs_def ys_def)
  have w: "vm_inv xs" "vm_inv ys" "\<forall>a \<in> set xs. \<forall>b \<in> set ys. va_end a \<le> va_start b"
    using assms(1) unfolding sp vm_inv_append by auto
  have no: "va_end n \<le> va_start a \<or> va_end a \<le> va_start n" if "a \<in> set sp" for a
    using assms(3) that by (auto simp: overlaps_iff not_less)
  have n: "area_ok n" "va_start n < va_end n" using assms(2) by (auto simp: area_ok_def range_is_valid_def)
  have left: "va_end a \<le> va_start n" if "a \<in> set xs" for a
  proof -
    have "va_start a \<le> va_start n" using that by (auto simp: xs_def dest: set_takeWhileD)
    then show ?thesis using no [of a] that n(2) sp by auto
  qed
  have right: "va_end n \<le> va_start b" if b: "b \<in> set ys" for b
  proof -
    obtain c zs where ys: "ys = c # zs" using b by (cases ys) auto
    have "va_start c > va_start n" using hd_dropWhile [of ?P sp] ys by (auto simp: ys_def [symmetric])
    moreover have "va_start c \<le> va_start b" using b w(2) area_okD [of c] unfolding ys vm_inv_Cons by auto
    moreover have "va_start b < va_end b" using b w(2) by (auto simp: vm_inv_def list_all_iff intro: area_okD)
    ultimately show ?thesis using no [of b] b sp by auto
  qed
  show "vm_inv (snd (vm_insert sp n))" using w left right n(1) by (simp add: ins vm_inv_append vm_inv_Cons)
  show "fst (vm_insert sp n) = Inr ()" by (simp add: ins)
  have "vm_view xs x = None" if "va_start n \<le> x"
    using left that by (intro vm_view_outside) fastforce
  then show "vm_view (snd (vm_insert sp n)) x = (if va_start n \<le> x \<and> x < va_end n then Some (va_prot n, va_kind n) else vm_view sp x)"
    unfolding ins unfolding sp by (auto simp: vm_view_append split: option.splits)
qed

lemma remove_range_bounds:
  "b \<in> set (remove_range sp s e) \<Longrightarrow> \<exists>a \<in> set sp. va_start a \<le> va_start b \<and> va_end b \<le> va_end a"
  by (induction sp) (auto split: if_splits)

lemma remove_range_view:
  "vm_inv sp \<Longrightarrow> vm_view (remove_range sp s e) x = (if s \<le> x \<and> x < e then None else vm_view sp x)"
proof (induction sp)
  case (Cons a sp)
  have "vm_view sp x = None" if "x < va_end a"
    using Cons.prems that by (intro vm_view_outside) (auto simp: vm_inv_Cons)
  then show ?case using Cons by (auto simp: vm_inv_Cons)
qed simp

lemma remove_range_inv:
  assumes "range_is_valid s e"
  shows "vm_inv sp \<Longrightarrow> vm_inv (remove_range sp s e)"
proof (induction sp)
  case (Cons a sp)
  have "\<forall>b \<in> set (remove_range sp s e). va_end a \<le> va_start b"
    using Cons.prems remove_range_bounds [of _ sp s e] by (fastforce simp: vm_inv_Cons)
  moreover have "vm_inv (remove_range sp s e)" using Cons by (simp add: vm_inv_Cons)
  ultimately show ?case using Cons.prems assms
    by (auto simp: vm_inv_Cons area_ok_def range_is_valid_def)
qed simp

lemma set_prot_bounds:
  "b \<in> set (set_prot sp s e p) \<Longrightarrow> \<exists>a \<in> set sp. va_start a \<le> va_start b \<and> va_end b \<le> va_end a"
  by (induction sp) (auto split: if_splits)

lemma set_prot_view:
  "vm_inv sp \<Longrightarrow> vm_view (set_prot sp s e p) x =
     (if s \<le> x \<and> x < e then map_option (\<lambda>(_, k). (p, k)) (vm_view sp x) else vm_view sp x)"
proof (induction sp)
  case (Cons a sp)
  have "vm_view sp x = None" if "x < va_end a"
    using Cons.prems that by (intro vm_view_outside) (auto simp: vm_inv_Cons)
  then show ?case using Cons by (auto simp: vm_inv_Cons)
qed simp

lemma set_prot_inv:
  assumes "range_is_valid s e"
  shows "vm_inv sp \<Longrightarrow> vm_inv (set_prot sp s e p)"
proof (induction sp)
  case (Cons a sp)
  have "\<forall>b \<in> set (set_prot sp s e p). va_end a \<le> va_start b"
    using Cons.prems set_prot_bounds [of _ sp s e p] by (fastforce simp: vm_inv_Cons)
  moreover have "vm_inv (set_prot sp s e p)" using Cons by (simp add: vm_inv_Cons)
  ultimately show ?case using Cons.prems assms
    by (auto simp: vm_inv_Cons area_ok_def range_is_valid_def max_def min_def)
qed simp

section \<open>Placement\<close>

text \<open>A start address whose range lies between the floor and the limit and meets no area.\<close>

definition placeable :: "VmArea list \<Rightarrow> nat \<Rightarrow> nat \<Rightarrow> nat \<Rightarrow> bool" where
  "placeable sp len limit r \<longleftrightarrow> USER_FLOOR \<le> r \<and> r + len \<le> limit \<and> \<not> overlaps sp r (r + len)"

text \<open>The search finds the highest such address.\<close>

definition placed :: "VmArea list \<Rightarrow> nat \<Rightarrow> nat \<Rightarrow> nat option \<Rightarrow> bool" where
  "placed sp len limit r \<longleftrightarrow> (case r of
      None \<Rightarrow> (\<forall>r'. \<not> placeable sp len limit r')
    | Some x \<Rightarrow> placeable sp len limit x \<and> (\<forall>r'. placeable sp len limit r' \<longrightarrow> r' \<le> x))"

lemma placeable_Cons:
  "placeable (a # rs) len limit r \<longleftrightarrow> placeable rs len limit r \<and> (r + len \<le> va_start a \<or> va_end a \<le> r)"
  by (auto simp: placeable_def overlaps_def not_less)

lemma placed_lower:
  assumes "placed rs len low r" "low \<le> limit"
    and "\<And>x. placeable rs len limit x \<Longrightarrow> (x + len \<le> va_start a \<or> va_end a \<le> x) \<Longrightarrow> x + len \<le> low"
    and "\<And>x. x + len \<le> low \<Longrightarrow> x + len \<le> va_start a \<or> va_end a \<le> x"
  shows "placed (a # rs) len limit r"
proof -
  have "placeable (a # rs) len limit x \<longleftrightarrow> placeable rs len low x" for x
    unfolding placeable_Cons using assms(2) assms(3,4) [of x] by (auto simp: placeable_def)
  then show ?thesis using assms(1) by (simp add: placed_def split: option.splits)
qed

lemma free_below_loop_ok:
  assumes "0 < len" "USER_FLOOR + len < 2 ^ 64"
  shows "sorted_wrt (\<lambda>b a. va_end a \<le> va_start b) rs \<Longrightarrow> list_all area_ok rs \<Longrightarrow>
    \<exists>r. free_below_loop rs len limit = Some r \<and> placed rs len limit r"
proof (induction rs arbitrary: limit)
  case Nil
  have "placed [] len limit (if limit \<ge> USER_FLOOR + len then Some (limit - len) else None)"
    by (auto simp: placed_def placeable_def overlaps_def)
  then show ?case using assms(2) by (simp add: rust_simps)
next
  case (Cons a rs)
  have a: "va_start a < va_end a" using Cons.prems(2) by (auto intro: area_okD)
  have IH: "\<And>l. \<exists>r. free_below_loop rs len l = Some r \<and> placed rs len l r" using Cons by simp
  have rest: "va_end b \<le> va_start a" if "b \<in> set rs" for b using Cons.prems(1) that by simp
  consider (hit) "va_end a \<le> limit" "limit - va_end a \<ge> len \<and> limit - len \<ge> USER_FLOOR"
    | (miss) "va_end a \<le> limit" "\<not> (limit - va_end a \<ge> len \<and> limit - len \<ge> USER_FLOOR)"
    | (straddle) "\<not> va_end a \<le> limit" "va_start a < limit" | (above) "\<not> va_end a \<le> limit" "\<not> va_start a < limit" by blast
  then show ?case
  proof cases
    case hit
    have "placeable (a # rs) len limit (limit - len)"
      using hit a rest assms(1) by (fastforce simp: placeable_def overlaps_iff)
    then have "placed (a # rs) len limit (Some (limit - len))" by (auto simp: placed_def placeable_def)
    then show ?thesis using hit by simp
  next
    case miss
    obtain r where r: "free_below_loop rs len (va_start a) = Some r" "placed rs len (va_start a) r" using IH by blast
    have "placed (a # rs) len limit r"
      by (rule placed_lower [OF r(2)]) (use miss a in \<open>auto simp: placeable_def\<close>)
    then show ?thesis using miss r(1) by auto
  next
    case straddle
    obtain r where r: "free_below_loop rs len (va_start a) = Some r" "placed rs len (va_start a) r" using IH by blast
    have "placed (a # rs) len limit r"
      by (rule placed_lower [OF r(2)]) (use straddle a assms(1) in \<open>auto simp: placeable_def\<close>)
    then show ?thesis using straddle r(1) by simp
  next
    case above
    obtain r where r: "free_below_loop rs len limit = Some r" "placed rs len limit r" using IH by blast
    have "placed (a # rs) len limit r"
      by (rule placed_lower [OF r(2)]) (use above a in \<open>auto simp: placeable_def\<close>)
    then show ?thesis using above r(1) by simp
  qed
qed

lemma placed_rev: "placed (rev sp) len limit r = placed sp len limit r"
  by (simp add: placed_def placeable_def overlaps_iff cong: option.case_cong)

lemma find_free_below_ok:
  assumes "vm_inv sp" "0 < len" "USER_FLOOR + len < 2 ^ 64"
  shows "\<exists>r. find_free_below sp len top' = Some r \<and> placed sp len (min top' USER_CEILING) r"
proof -
  have "sorted_wrt (\<lambda>b a. va_end a \<le> va_start b) (rev sp)" "list_all area_ok (rev sp)"
    using assms(1) by (simp_all add: vm_inv_def sorted_wrt_rev)
  from free_below_loop_ok [OF assms(2,3) this] show ?thesis
    by (simp add: find_free_below_def placed_rev)
qed

text \<open>A length that overflows when added to the floor fits no gap, so the search ends in that addition.\<close>

lemma free_below_huge:
  "2 ^ 64 \<le> USER_FLOOR + len \<Longrightarrow> limit \<le> USER_CEILING \<Longrightarrow> list_all area_ok rs \<Longrightarrow> free_below_loop rs len limit = None"
  by (induction rs len limit rule: free_below_loop.induct)
    (auto simp: cadd64_def USER_FLOOR_def USER_CEILING_def area_ok_def range_is_valid_def)

text \<open>The loop returns page-aligned addresses for page-aligned lengths.\<close>

lemma free_below_loop_aligned:
  "free_below_loop rs len limit = Some (Some r) \<Longrightarrow> PAGE_SIZE dvd len \<Longrightarrow> PAGE_SIZE dvd limit \<Longrightarrow>
   list_all area_ok rs \<Longrightarrow> PAGE_SIZE dvd r"
  by (induction rs len limit rule: free_below_loop.induct)
    (auto simp: cadd64_def area_ok_def range_is_valid_def split: if_splits)

section \<open>Filling in an area\<close>

lemma next_start_le: "next_start sp at e \<le> e"
  by (simp add: next_start_def split: list.splits)

lemma foldr_min_le: "x \<in> set (s # ss) \<Longrightarrow> foldr min ss (s :: nat) \<le> x"
  by (induction ss) (auto simp: min.coboundedI1 min.coboundedI2)

lemma next_start_least: "a \<in> set sp \<Longrightarrow> at < va_start a \<Longrightarrow> next_start sp at e \<le> va_start a"
proof -
  assume "a \<in> set sp" "at < va_start a"
  then have m: "va_start a \<in> set (filter (\<lambda>s. s > at) (map va_start sp))" by simp
  then obtain s ss where c: "filter (\<lambda>s. s > at) (map va_start sp) = s # ss"
    by (cases "filter (\<lambda>s. s > at) (map va_start sp)") auto
  then have "foldr min ss s \<le> va_start a" using m foldr_min_le [of "va_start a" s ss] by simp
  then show ?thesis unfolding next_start_def c by simp
qed

lemma next_start_aligned:
  assumes "vm_inv sp" "PAGE_SIZE dvd e"
  shows "PAGE_SIZE dvd next_start sp at e"
proof (cases "filter (\<lambda>s. s > at) (map va_start sp)")
  case (Cons s ss)
  have "foldr min ss s \<in> set (filter (\<lambda>s. s > at) (map va_start sp))" unfolding Cons by (rule foldr_min_in)
  then have "PAGE_SIZE dvd foldr min ss s"
    using assms(1) by (auto simp: vm_inv_def list_all_iff area_ok_def range_is_valid_def)
  then show ?thesis using assms(2) unfolding next_start_def Cons by (simp add: min_def)
qed (use assms(2) in \<open>simp add: next_start_def\<close>)

lemma uncovered_loop_ok:
  "vm_inv sp \<Longrightarrow> PAGE_SIZE dvd at \<Longrightarrow> USER_FLOOR \<le> at \<Longrightarrow> PAGE_SIZE dvd va_end n \<Longrightarrow> va_end n \<le> USER_CEILING \<Longrightarrow>
   fst (uncovered_loop n sp at) = Inr () \<and> vm_inv (snd (uncovered_loop n sp at))
   \<and> (\<forall>x. vm_view (snd (uncovered_loop n sp at)) x =
        (if vm_view sp x = None \<and> at \<le> x \<and> x < va_end n then Some (va_prot n, va_kind n) else vm_view sp x))"
proof (induction n sp at rule: uncovered_loop.induct)
  case (1 n sp at)
  note eq = uncovered_loop.simps [of n sp at]
  show ?case
  proof (cases "at < va_end n")
    case False
    then show ?thesis using 1(3) by (auto simp: eq)
  next
    case lt: True
    show ?thesis
    proof (cases "vm_find sp at")
      case (Some a)
      have a: "a \<in> set sp" "va_start a \<le> at" "at < va_end a" using vm_find_SomeD [OF Some] by auto
      have "area_ok a" using a(1) 1(3) by (auto simp: vm_inv_def list_all_iff)
      then have al: "PAGE_SIZE dvd va_end a" "USER_FLOOR \<le> va_end a" using a 1(5) by (auto simp: area_ok_def range_is_valid_def)
      have seen: "vm_view sp x \<noteq> None" if "at \<le> x" "x < va_end a" for x
        using a that by (auto simp: vm_view_None_iff intro!: bexI [of _ a])
      have "(vm_view sp x = None \<and> va_end a \<le> x \<and> x < va_end n) = (vm_view sp x = None \<and> at \<le> x \<and> x < va_end n)" for x
        using seen [of x] a(3) by (auto simp: not_less [symmetric])
      then show ?thesis using 1(2) [OF lt Some 1(3) al 1(6,7)] lt Some by (simp add: eq)
    next
      case None
      let ?m = "next_start sp at (va_end n)"
      let ?n = "n\<lparr>va_start := at, va_end := ?m\<rparr>"
      have m: "at < ?m" "?m \<le> va_end n" "PAGE_SIZE dvd ?m"
        using next_start_gt [OF lt] next_start_le next_start_aligned [OF 1(3,6)] by auto
      have v: "range_is_valid at ?m" using m 1(4,5,7) by (simp add: range_is_valid_def)
      have free: "vm_view sp x = None" if "at \<le> x" "x < ?m" for x
        unfolding vm_view_None_iff using vm_find_NoneD [OF None] next_start_least [of _ sp at "va_end n"] that
        by (meson leD le_less_trans not_le_imp_less order.strict_trans2)
      have "\<not> overlaps sp at ?m" using overlaps_view [OF 1(3) m(1)] free by auto
      note ins = vm_insert_ok [OF 1(3), of ?n, simplified, OF v this]
      obtain sp' where sp': "vm_insert sp ?n = (Inr (), sp')" using ins(2) by (metis prod.collapse)
      have view': "vm_view sp' x = (if at \<le> x \<and> x < ?m then Some (va_prot n, va_kind n) else vm_view sp x)" for x
        using ins(3) [of x] sp' by simp
      have "vm_inv sp'" "USER_FLOOR \<le> ?m" using ins(1) sp' m(1) 1(5) by auto
      note IH = 1(1) [OF lt None sp' [symmetric] refl this(1) m(3) this(2) 1(6,7)]
      have "uncovered_loop n sp at = uncovered_loop n sp' ?m" using lt None sp' by (simp add: eq)
      then show ?thesis using IH view' free m by auto
    qed
  qed
qed

section \<open>Properties\<close>

text \<open>The calls that change a record: exec's segments and stack, mmap, munmap, mprotect.\<close>

inductive vm_step :: "VmSpace \<Rightarrow> VmSpace \<Rightarrow> bool" where
  insert: "vm_step sp (snd (vm_insert sp a))"
| uncovered: "vm_step sp (snd (insert_uncovered sp a))"
| mmap: "sys_mmap mapped_all sp addr l prot flags fd = Some (r, sp') \<Longrightarrow> vm_step sp sp'"
| munmap: "vm_step sp (snd (munmap_record sp addr l))"
| mprotect: "vm_step sp (snd (mprotect_record sp addr l p))"

lemma vm_insert_inv: "vm_inv sp \<Longrightarrow> vm_inv (snd (vm_insert sp a))"
  by (cases "range_is_valid (va_start a) (va_end a) \<and> \<not> overlaps sp (va_start a) (va_end a)")
    (auto intro: vm_insert_ok(1), auto simp: vm_insert_def)

lemma insert_uncovered_inv: "vm_inv sp \<Longrightarrow> vm_inv (snd (insert_uncovered sp a))"
  using uncovered_loop_ok [of sp "va_start a" a] by (auto simp: insert_uncovered_def range_is_valid_def)

lemma mmap_reserve_inv:
  "vm_inv sp \<Longrightarrow> mmap_reserve sp addr len prot flags = Some (r, sp') \<Longrightarrow> vm_inv sp'"
  using vm_insert_inv [of sp]
  by (auto simp: mmap_reserve_def split: bind_splits sum.splits prod.splits if_splits) (metis snd_conv)+

lemma mmap_reserve_range:
  assumes "mmap_reserve sp addr len prot flags = Some (Inr start, sp')"
  shows "range_is_valid start (start + len)"
  using assms by (auto simp: mmap_reserve_def vm_insert_def cadd64_def split: bind_splits sum.splits prod.splits if_splits)

lemma sys_mmap_inv:
  assumes "vm_inv sp" "sys_mmap mapped_all sp addr l prot flags fd = Some (r, sp')"
  shows "vm_inv sp'"
  using assms(2) mmap_reserve_inv [OF assms(1)] mmap_reserve_range [of sp] assms(1)
  by (fastforce simp: sys_mmap_def cadd64_def intro: remove_range_inv split: if_splits option.splits bind_splits sum.splits)

text \<open>The reservation panics exactly when the search for a gap overflows.\<close>

lemma mmap_reserve_None:
  assumes "vm_inv sp" "0 < len"
  shows "mmap_reserve sp addr len prot flags = None \<longleftrightarrow> flags AND MAP_FIXED = 0 \<and> 2 ^ 64 \<le> USER_FLOOR + len"
proof (cases "USER_FLOOR + len < 2 ^ 64")
  case True
  obtain q where "find_free_below sp len MMAP_TOP = Some q" "placed sp len (min MMAP_TOP USER_CEILING) q"
    using find_free_below_ok [OF assms True] by blast
  then show ?thesis using True
    by (auto simp: mmap_reserve_def cadd64_def placed_def placeable_def USER_CEILING_def range_is_valid_def
        split: option.splits prod.splits sum.splits)
next
  case False
  then have "\<not> range_is_valid a (a + len)" for a by (simp add: range_is_valid_def USER_FLOOR_def USER_CEILING_def)
  then show ?thesis using False free_below_huge [of len _ "rev sp"] assms(1)
    by (simp add: mmap_reserve_def find_free_below_def vm_inv_def)
qed

lemma munmap_record_inv: "vm_inv sp \<Longrightarrow> vm_inv (snd (munmap_record sp addr l))"
  by (auto simp: munmap_record_def remove_range_inv split: option.splits)

lemma mprotect_record_inv: "vm_inv sp \<Longrightarrow> vm_inv (snd (mprotect_record sp addr l p))"
  by (auto simp: mprotect_record_def set_prot_inv split: option.splits)

lemmas vm_ops_inv = vm_insert_inv insert_uncovered_inv sys_mmap_inv munmap_record_inv mprotect_record_inv

lemma vm_step_inv: "vm_step sp sp' \<Longrightarrow> vm_inv sp \<Longrightarrow> vm_inv sp'"
  by (induction rule: vm_step.induct) (auto intro: vm_ops_inv)

text \<open>C14: whatever sequence of mapping calls a process makes, its areas stay sorted,
  disjoint, page aligned, non-empty and inside the user address range.\<close>

theorem vm_always_wf:
  assumes "vm_step\<^sup>*\<^sup>* vm_new sp"
  shows "vm_inv sp"
  using assms by (induction rule: rtranclp_induct) (auto simp: vm_new_def intro: vm_step_inv)

theorem vm_always_wf_witness:
  "vm_inv (snd (munmap_record (snd (vm_insert vm_new \<lparr>va_start = 0x100000000, va_end = 0x100003000, va_prot = 3, va_kind = Anon\<rparr>)) 0x100001000 10))"
  by (rule vm_always_wf) (meson rtranclp.rtrancl_into_rtrancl rtranclp.rtrancl_refl vm_step.insert vm_step.munmap)

text \<open>C15: \<open>munmap\<close> on a well-formed record succeeds exactly when the rounded range is a valid
  user range every byte of which is mapped, and then removes exactly that range from what the
  process sees; otherwise it fails with \<open>EINVAL\<close> and changes nothing.\<close>

theorem munmap_refines:
  assumes "vm_inv sp" "0 < l" "l + 4095 < 2 ^ 64"
  shows "let e = addr + (l + 4095) div 4096 * 4096 in
    if range_is_valid addr e \<and> (\<forall>x. addr \<le> x \<and> x < e \<longrightarrow> vm_view sp x \<noteq> None)
    then fst (munmap_record sp addr l) = Inr (addr, e)
      \<and> (\<forall>x. vm_view (snd (munmap_record sp addr l)) x = (if addr \<le> x \<and> x < e then None else vm_view sp x))
    else munmap_record sp addr l = (Inl EINVAL, sp)"
proof -
  define e where "e = addr + (l + 4095) div 4096 * 4096"
  have pl: "page_len l = Some (e - addr)" "addr + (e - addr) = e"
    using assms(3) by (simp_all add: page_len_def PAGE_SIZE_def e_def)
  have "range_is_valid addr e \<Longrightarrow> PAGE_SIZE dvd addr \<and> e < 2 ^ 64"
    by (auto simp: range_is_valid_def USER_CEILING_def)
  then show ?thesis unfolding e_def [symmetric] Let_def
    using assms(1,2) covers_iff [OF assms(1), of addr e] remove_range_view [OF assms(1), of addr e]
    by (auto simp: munmap_record_def pl)
qed

theorem munmap_refines_witness:
  "munmap_record [\<lparr>va_start = 0x100000000, va_end = 0x100003000, va_prot = 3, va_kind = Anon\<rparr>] 0x100002000 5000
     = (Inl EINVAL, [\<lparr>va_start = 0x100000000, va_end = 0x100003000, va_prot = 3, va_kind = Anon\<rparr>])"
proof -
  let ?sp = "[\<lparr>va_start = 0x100000000, va_end = 0x100003000, va_prot = 3, va_kind = Anon\<rparr>]"
  have "vm_inv ?sp" by (simp add: vm_inv_Cons area_ok_def range_is_valid_def PAGE_SIZE_def USER_FLOOR_def USER_CEILING_def)
  moreover have "\<exists>x. 0x100002000 \<le> x \<and> x < 0x100004000 \<and> vm_view ?sp x = None"
    by (intro exI [of _ "0x100003000"]) simp
  ultimately show ?thesis using munmap_refines [of ?sp 5000 "0x100002000"]
    by (auto simp: Let_def split: if_splits)
qed

text \<open>on a well-formed record a successful \<open>mprotect\<close> changes the access of exactly the
  rounded range, keeping the kinds, and everything else is as it was; it fails with \<open>ENOMEM\<close>,
  changing nothing, when some byte of the range is not mapped.\<close>

theorem mprotect_refines:
  assumes "vm_inv sp" "0 < l" "l + 4095 < 2 ^ 64" "PAGE_SIZE dvd addr" "p AND NOT PROT_MASK = 0"
  shows "let e = addr + (l + 4095) div 4096 * 4096 in
    if range_is_valid addr e \<and> (\<forall>x. addr \<le> x \<and> x < e \<longrightarrow> vm_view sp x \<noteq> None)
    then fst (mprotect_record sp addr l p) = Inr (Some (addr, e))
      \<and> (\<forall>x. vm_view (snd (mprotect_record sp addr l p)) x =
           (if addr \<le> x \<and> x < e then map_option (\<lambda>(_, k). (p, k)) (vm_view sp x) else vm_view sp x))
    else mprotect_record sp addr l p = (Inl ENOMEM, sp)"
proof -
  define e where "e = addr + (l + 4095) div 4096 * 4096"
  have pl: "page_len l = Some (e - addr)" "addr + (e - addr) = e"
    using assms(3) by (simp_all add: page_len_def PAGE_SIZE_def e_def)
  have "range_is_valid addr e \<Longrightarrow> e < 2 ^ 64"
    by (auto simp: range_is_valid_def USER_CEILING_def)
  then show ?thesis unfolding e_def [symmetric] Let_def
    using assms(1,2,4,5) covers_iff [OF assms(1), of addr e] set_prot_view [OF assms(1), of addr e p]
    by (auto simp: mprotect_record_def pl)
qed

theorem mprotect_refines_witness:
  "vm_view (snd (mprotect_record [\<lparr>va_start = 0x100000000, va_end = 0x100003000, va_prot = 3, va_kind = Anon\<rparr>] 0x100001000 1 1)) 0x100001000
     = Some (1, Anon)"
proof -
  let ?sp = "[\<lparr>va_start = 0x100000000, va_end = 0x100003000, va_prot = 3, va_kind = Anon\<rparr>]"
  have "vm_inv ?sp" "range_is_valid 0x100001000 0x100002000"
    by (simp_all add: vm_inv_Cons area_ok_def range_is_valid_def PAGE_SIZE_def USER_FLOOR_def USER_CEILING_def)
  then show ?thesis using mprotect_refines [of ?sp 1 "0x100001000" 1]
    by (auto simp: Let_def PAGE_SIZE_def PROT_MASK_def split: if_splits)
qed

text \<open>C16: for a non-empty length that does not overflow above the user floor, the search for a
  gap never panics and returns the highest address below the limit where the range fits between
  the areas, or nothing when it fits nowhere.\<close>

theorem free_gap_highest:
  assumes "vm_inv sp" "0 < len" "USER_FLOOR + len < 2 ^ 64"
  shows "\<exists>r. find_free_below sp len t = Some r \<and> placed sp len (min t USER_CEILING) r"
  using find_free_below_ok [OF assms] .

theorem free_gap_highest_witness:
  "\<exists>r. find_free_below vm_new 4096 MMAP_TOP = Some r \<and> placed vm_new 4096 (min MMAP_TOP USER_CEILING) r"
  using free_gap_highest [of vm_new 4096 MMAP_TOP] by (simp add: vm_new_def USER_FLOOR_def)

text \<open>C17: on a well-formed record \<open>sys_mmap\<close> panics exactly on an anonymous non-fixed request, with
  legal protection bits, whose rounded length added to the user floor reaches \<open>2 ^ 64\<close>: the length
  is checked against rounding only, no hint can be valid for it, and the search adds it to the
  floor unchecked. Every other request returns an address or an error.\<close>

theorem mmap_huge_panics:
  assumes "vm_inv sp"
  shows "sys_mmap mapped_all sp addr l prot flags fd = None \<longleftrightarrow>
    0 < l \<and> prot AND NOT PROT_MASK = 0 \<and> flags AND MAP_ANONYMOUS \<noteq> 0 \<and> flags AND MAP_FIXED = 0
    \<and> (\<exists>len. page_len l = Some len \<and> 2 ^ 64 \<le> USER_FLOOR + len)"
proof (cases "0 < l \<and> prot AND NOT PROT_MASK = 0 \<and> flags AND MAP_ANONYMOUS \<noteq> 0")
  case True
  show ?thesis
  proof (cases "page_len l")
    case (Some len)
    have "0 < len" using Some True by (auto simp: page_len_def PAGE_SIZE_def split: if_splits)
    note n = mmap_reserve_None [OF assms this, of addr prot flags]
    show ?thesis
    proof (cases "mmap_reserve sp addr len prot flags")
      case None
      then show ?thesis using n True Some by (simp add: sys_mmap_def)
    next
      case (Some q)
      have "sys_mmap mapped_all sp addr l prot flags fd \<noteq> None"
        using Some \<open>page_len l = Some len\<close> True mmap_reserve_range [of sp addr len prot flags]
        by (cases q; cases "fst q") (auto simp: sys_mmap_def cadd64_def range_is_valid_def USER_CEILING_def)
      then show ?thesis using n Some \<open>page_len l = Some len\<close> by (simp del: not_None_eq)
    qed
  qed (use True in \<open>simp add: sys_mmap_def\<close>)
qed (auto simp: sys_mmap_def)

theorem mmap_huge_panics_witness:
  "sys_mmap True [\<lparr>va_start = 0x100000000, va_end = 0x100003000, va_prot = 3, va_kind = Anon\<rparr>] 0 (2 ^ 64 - 2 ^ 32) 3 0x22 (- 1) = None"
proof -
  have "vm_inv [\<lparr>va_start = 0x100000000, va_end = 0x100003000, va_prot = 3, va_kind = Anon\<rparr>]"
    by (simp add: vm_inv_Cons area_ok_def range_is_valid_def PAGE_SIZE_def USER_FLOOR_def USER_CEILING_def)
  moreover have "page_len (2 ^ 64 - 2 ^ 32) = Some (2 ^ 64 - 2 ^ 32)" by (simp add: page_len_def PAGE_SIZE_def)
  ultimately show ?thesis
    by (simp add: mmap_huge_panics PROT_MASK_def MAP_ANONYMOUS_def MAP_FIXED_def USER_FLOOR_def)
qed

end
