(* ===== verification/Tty.thy ===== *)
theory Tty imports Signals begin

text \<open>
  \<open>kernel/src/tty/line_discipline.rs\<close> and \<open>kernel/src/tty/pty.rs\<close>: output processing, the line
  discipline, and the pseudo-terminal that sits on it. A \<open>VecDeque<u8>\<close> is a list of bytes,
  front first. Signals sent to a process group are returned as a log of (group, signal) pairs.
\<close>

datatype LineMode = Canonical | Raw

record WinSize =
  ws_rows :: nat
  ws_cols :: nat

definition winsize_default :: WinSize where
  "winsize_default = \<lparr>ws_rows = 25, ws_cols = 80\<rparr>"

datatype TtySignal = Interrupt | Quit | Suspend | Eof

datatype LdiscOutput = Echo byte | EchoSeq "byte list" nat | LineReady | LdSignal TtySignal
  | Passthrough byte | LdNone

section \<open>Output processing\<close>

definition LF :: byte where "LF = 10"
definition CR :: byte where "CR = 13"

text \<open>The items of the iterator: bytes consumed and bytes for the terminal.\<close>

function onlcr :: "byte list \<Rightarrow> (nat \<times> byte list) list" where
  "onlcr [] = []"
| "onlcr (b # bs) =
     (if b = LF then (1, [CR, LF]) # onlcr bs
      else (length (takeWhile (\<lambda>c. c \<noteq> LF) (b # bs)), takeWhile (\<lambda>c. c \<noteq> LF) (b # bs))
             # onlcr (dropWhile (\<lambda>c. c \<noteq> LF) (b # bs)))"
  by pat_completeness auto

termination
  by (relation "measure length") (auto simp: length_dropWhile_le less_Suc_eq_le)

section \<open>Line discipline\<close>

record LineDiscipline =
  ld_mode :: LineMode
  input_buf :: "byte list"
  cooked_buf :: "byte list"
  ld_echo :: bool
  erase_char :: byte
  intr_char :: byte
  quit_char :: byte
  susp_char :: byte
  eof_char :: byte

definition ldisc_new :: LineDiscipline where
  "ldisc_new = \<lparr>ld_mode = Canonical, input_buf = [], cooked_buf = [], ld_echo = True,
     erase_char = 0x7F, intr_char = 0x03, quit_char = 0x1C, susp_char = 0x1A, eof_char = 0x04\<rparr>"

text \<open>The \<open>while let Some(b) = input_buf.pop_front()\<close> transfer.\<close>

definition submit_input :: "LineDiscipline \<Rightarrow> LineDiscipline" where
  "submit_input l = l\<lparr>cooked_buf := cooked_buf l @ input_buf l, input_buf := []\<rparr>"

definition set_mode :: "LineDiscipline \<Rightarrow> LineMode \<Rightarrow> LineDiscipline" where
  "set_mode l m = (let l' = l\<lparr>ld_mode := m\<rparr> in if m = Raw then submit_input l' else l')"

definition set_echo :: "LineDiscipline \<Rightarrow> bool \<Rightarrow> LineDiscipline" where
  "set_echo l e = l\<lparr>ld_echo := e\<rparr>"

definition process_canonical :: "LineDiscipline \<Rightarrow> byte \<Rightarrow> LdiscOutput \<times> LineDiscipline" where
  "process_canonical l b =
     (if b = intr_char l then (LdSignal Interrupt, l\<lparr>input_buf := []\<rparr>)
      else if b = quit_char l then (LdSignal Quit, l\<lparr>input_buf := []\<rparr>)
      else if b = susp_char l then (LdSignal Suspend, l)
      else if b = eof_char l then (LdSignal Eof, submit_input l)
      else if b = erase_char l \<or> b = 0x08 then
        (let l' = l\<lparr>input_buf := butlast (input_buf l)\<rparr> in
         if input_buf l \<noteq> [] \<and> ld_echo l then (EchoSeq [0x08, 0x20, 0x08, 0] 3, l') else (LdNone, l'))
      else if b = LF \<or> b = CR then
        (let l' = submit_input l; l'' = l'\<lparr>cooked_buf := cooked_buf l' @ [LF]\<rparr> in
         if ld_echo l then (Echo LF, l'') else (LineReady, l''))
      else
        (let l' = l\<lparr>input_buf := input_buf l @ [b]\<rparr> in
         if ld_echo l then (Echo b, l') else (LdNone, l')))"

definition process_input :: "LineDiscipline \<Rightarrow> byte \<Rightarrow> LdiscOutput \<times> LineDiscipline" where
  "process_input l b = (case ld_mode l of Raw \<Rightarrow> (Passthrough b, l) | Canonical \<Rightarrow> process_canonical l b)"

text \<open>\<open>read\<close> of up to \<open>n\<close> bytes: bytes off the front, in canonical mode up to and including a newline.\<close>

fun cooked_take :: "bool \<Rightarrow> nat \<Rightarrow> byte list \<Rightarrow> byte list \<times> byte list" where
  "cooked_take canon 0 q = ([], q)"
| "cooked_take canon (Suc n) [] = ([], [])"
| "cooked_take canon (Suc n) (b # q) =
     (if canon \<and> b = LF then ([b], q)
      else (case cooked_take canon n q of (r, q') \<Rightarrow> (b # r, q')))"

definition ldisc_read :: "LineDiscipline \<Rightarrow> nat \<Rightarrow> byte list \<times> LineDiscipline" where
  "ldisc_read l n =
     (case cooked_take (ld_mode l = Canonical) n (cooked_buf l) of (r, q) \<Rightarrow> (r, l\<lparr>cooked_buf := q\<rparr>))"

definition ldisc_has_data :: "LineDiscipline \<Rightarrow> bool" where
  "ldisc_has_data l \<longleftrightarrow> cooked_buf l \<noteq> []"

definition ldisc_available :: "LineDiscipline \<Rightarrow> nat" where
  "ldisc_available l = length (cooked_buf l)"

section \<open>Pseudo-terminal\<close>

definition PTY_BUF_SIZE :: nat where "PTY_BUF_SIZE = 4096"

record PtyMaster =
  pty_index :: nat
  slave_buf :: "byte list"
  master_buf :: "byte list"
  ldisc :: LineDiscipline
  pty_winsize :: WinSize
  foreground_pgid :: int

definition alloc_pty :: "nat \<Rightarrow> PtyMaster" where
  "alloc_pty idx = \<lparr>pty_index = idx, slave_buf = [], master_buf = [], ldisc = ldisc_new,
     pty_winsize = winsize_default, foreground_pgid = - 1\<rparr>"

type_synonym signal_log = "(int \<times> Signal) list"

definition deliver_tty_signal :: "PtyMaster \<Rightarrow> TtySignal \<Rightarrow> signal_log" where
  "deliver_tty_signal p sig =
     (case (case sig of Interrupt \<Rightarrow> Some SIGINT | Quit \<Rightarrow> Some SIGQUIT | Suspend \<Rightarrow> Some SIGTSTP | Eof \<Rightarrow> None) of
        None \<Rightarrow> []
      | Some s \<Rightarrow> if foreground_pgid p > 0 then [(foreground_pgid p, s)] else [])"

definition push_bounded :: "byte list \<Rightarrow> byte list \<Rightarrow> byte list" where
  "push_bounded q bs = fold (\<lambda>b q. if length q < PTY_BUF_SIZE then q @ [b] else q) bs q"

lemma cooked_take_length:
  "cooked_take canon n q = (r, q') \<Longrightarrow> length r + length q' = length q \<and> r @ q' = q"
  by (induction canon n q arbitrary: r q' rule: cooked_take.induct) (auto split: if_splits prod.splits)

lemma cooked_take_Nil: "cooked_take canon (Suc n) q = ([], q') \<Longrightarrow> q = []"
  by (cases q) (auto split: if_splits prod.splits)

function flush_ldisc_to_slave :: "PtyMaster \<Rightarrow> PtyMaster" where
  "flush_ldisc_to_slave p =
     (case ldisc_read (ldisc p) 256 of (tmp, l) \<Rightarrow>
        if tmp = [] then p\<lparr>ldisc := l\<rparr>
        else flush_ldisc_to_slave (p\<lparr>ldisc := l, slave_buf := push_bounded (slave_buf p) tmp\<rparr>))"
  by pat_completeness auto

termination
proof (relation "measure (\<lambda>p. length (cooked_buf (ldisc p)))", goal_cases)
  case (2 p tmp l)
  then show ?case
    using cooked_take_length [of "ld_mode (ldisc p) = Canonical" 256 "cooked_buf (ldisc p)" tmp "cooked_buf l"]
    by (cases tmp) (auto simp: ldisc_read_def split: prod.splits)
qed simp

declare flush_ldisc_to_slave.simps [simp del]

text \<open>One turn of the loop in \<open>write_input\<close>: echo bytes, signals sent, new state.\<close>

definition input_step :: "PtyMaster \<Rightarrow> byte \<Rightarrow> byte list \<times> signal_log \<times> PtyMaster" where
  "input_step p b =
     (case process_input (ldisc p) b of (out, l) \<Rightarrow>
        let p1 = p\<lparr>ldisc := l\<rparr> in
        case out of
          Echo c \<Rightarrow> ([c], [], p1)
        | EchoSeq seq n \<Rightarrow> (take n seq, [], p1)
        | LineReady \<Rightarrow> ([], [], flush_ldisc_to_slave p1)
        | Passthrough c \<Rightarrow> ([], [], p1\<lparr>slave_buf := push_bounded (slave_buf p1) [c]\<rparr>)
        | LdSignal sig \<Rightarrow> ([], deliver_tty_signal p1 sig, flush_ldisc_to_slave p1)
        | LdNone \<Rightarrow> ([], [], p1))"

fun write_input_loop :: "PtyMaster \<Rightarrow> byte list \<Rightarrow> byte list \<times> signal_log \<times> PtyMaster" where
  "write_input_loop p [] = ([], [], p)"
| "write_input_loop p (b # bs) =
     (case input_step p b of (echo, sigs, p1) \<Rightarrow>
      case write_input_loop p1 bs of (echo', sigs', p2) \<Rightarrow> (echo @ echo', sigs @ sigs', p2))"

definition write_input :: "PtyMaster \<Rightarrow> byte list \<Rightarrow> byte list \<times> signal_log \<times> PtyMaster" where
  "write_input p d = (case write_input_loop p d of (echo, sigs, p') \<Rightarrow> (echo, sigs, flush_ldisc_to_slave p'))"

definition read_output :: "PtyMaster \<Rightarrow> nat \<Rightarrow> byte list \<times> PtyMaster" where
  "read_output p n = (take n (master_buf p), p\<lparr>master_buf := drop n (master_buf p)\<rparr>)"

definition has_output :: "PtyMaster \<Rightarrow> bool" where
  "has_output p \<longleftrightarrow> master_buf p \<noteq> []"

definition set_winsize :: "PtyMaster \<Rightarrow> nat \<Rightarrow> nat \<Rightarrow> signal_log \<times> PtyMaster" where
  "set_winsize p r c = (if foreground_pgid p > 0 then [(foreground_pgid p, SIGWINCH)] else [],
     p\<lparr>pty_winsize := \<lparr>ws_rows = r, ws_cols = c\<rparr>\<rparr>)"

definition set_foreground :: "PtyMaster \<Rightarrow> int \<Rightarrow> PtyMaster" where
  "set_foreground p g = p\<lparr>foreground_pgid := g\<rparr>"

definition slave_read :: "PtyMaster \<Rightarrow> nat \<Rightarrow> byte list \<times> PtyMaster" where
  "slave_read p n = (take n (slave_buf p), p\<lparr>slave_buf := drop n (slave_buf p)\<rparr>)"

fun slave_write_loop :: "byte list \<Rightarrow> (nat \<times> byte list) list \<Rightarrow> nat \<Rightarrow> nat \<times> byte list" where
  "slave_write_loop mb [] count = (count, mb)"
| "slave_write_loop mb ((consumed, chunk) # cs) count =
     (let free = PTY_BUF_SIZE - length mb in
      if length chunk > free then
        (if consumed = 1 \<and> length chunk > 1 then (count, mb)
         else (count + free, mb @ take free chunk))
      else slave_write_loop (mb @ chunk) cs (count + consumed))"

definition slave_write :: "PtyMaster \<Rightarrow> byte list \<Rightarrow> nat \<times> PtyMaster" where
  "slave_write p d =
     (case slave_write_loop (master_buf p) (onlcr d) 0 of (n, mb) \<Rightarrow> (n, p\<lparr>master_buf := mb\<rparr>))"

definition slave_has_data :: "PtyMaster \<Rightarrow> bool" where
  "slave_has_data p \<longleftrightarrow> slave_buf p \<noteq> []"

section \<open>Lemmas\<close>

text \<open>Reference for the output rule: each newline becomes CR LF, all else is unchanged.\<close>

definition expand :: "byte list \<Rightarrow> byte list" where
  "expand d = concat (map (\<lambda>b. if b = LF then [CR, LF] else [b]) d)"

lemma expand_simps [simp]:
  "expand [] = []" "expand (b # d) = (if b = LF then [CR, LF] else [b]) @ expand d"
  "expand (c @ d) = expand c @ expand d"
  by (simp_all add: expand_def)

lemma expand_plain: "LF \<notin> set d \<Longrightarrow> expand d = d"
  by (induction d) auto

lemma onlcr_expand: "concat (map snd (onlcr d)) = expand d \<and> sum_list (map fst (onlcr d)) = length d"
proof (induction d rule: onlcr.induct)
  case (2 b bs)
  let ?r = "takeWhile (\<lambda>c. c \<noteq> LF) (b # bs)" and ?d = "dropWhile (\<lambda>c. c \<noteq> LF) (b # bs)"
  have "LF \<notin> set ?r" by (auto dest: set_takeWhileD)
  then have "expand ?r = ?r" by (rule expand_plain)
  then have "expand (b # bs) = ?r @ expand ?d"
    using expand_simps(3) [of ?r ?d] by (simp only: takeWhile_dropWhile_id)
  moreover have "length (b # bs) = length ?r + length ?d"
    using arg_cong [OF takeWhile_dropWhile_id [of "\<lambda>c. c \<noteq> LF" "b # bs"], of length] by (simp only: length_append)
  ultimately show ?case using 2 by (cases "b = LF") (simp_all only: onlcr.simps if_True if_False, simp_all)
qed simp

lemma slave_write_loop_ok:
  "length mb \<le> PTY_BUF_SIZE \<Longrightarrow> \<exists>k \<le> length d. slave_write_loop mb (onlcr d) c = (c + k, mb @ expand (take k d))
     \<and> length (mb @ expand (take k d)) \<le> PTY_BUF_SIZE
     \<and> (k < length d \<longrightarrow> length (mb @ expand (take (Suc k) d)) > PTY_BUF_SIZE)"
proof (induction d arbitrary: mb c rule: onlcr.induct)
  case (2 b bs)
  show ?case
  proof (cases "b = LF")
    case True
    show ?thesis
    proof (cases "2 > PTY_BUF_SIZE - length mb")
      case small: True
      then show ?thesis using True 2(3) by (intro exI [of _ 0]) (auto simp: Let_def)
    next
      case False
      then have "length (mb @ [CR, LF]) \<le> PTY_BUF_SIZE" using 2(3) by simp
      from 2(1) [OF True this, of "c + 1"] obtain k where "k \<le> length bs" "slave_write_loop (mb @ [CR, LF]) (onlcr bs) (c + 1) = (c + 1 + k, (mb @ [CR, LF]) @ expand (take k bs))"
        "length ((mb @ [CR, LF]) @ expand (take k bs)) \<le> PTY_BUF_SIZE"
        "k < length bs \<longrightarrow> length ((mb @ [CR, LF]) @ expand (take (Suc k) bs)) > PTY_BUF_SIZE"
        by blast
      then show ?thesis using True False by (intro exI [of _ "Suc k"]) (auto simp: Let_def)
    qed
  next
    case False
    define r where "r = takeWhile (\<lambda>c. c \<noteq> LF) (b # bs)"
    define t where "t = dropWhile (\<lambda>c. c \<noteq> LF) (b # bs)"
    have rt: "b # bs = r @ t" by (simp only: r_def t_def takeWhile_dropWhile_id)
    have "onlcr (b # bs) = (length r, r) # onlcr t" using False by (simp only: onlcr.simps r_def t_def if_False)
    then have o: "onlcr (r @ t) = (length r, r) # onlcr t" by (simp only: rt)
    have plain: "LF \<notin> set r" by (auto simp: r_def dest: set_takeWhileD)
    show ?thesis
    proof (cases "length r > PTY_BUF_SIZE - length mb")
      case True
      let ?f = "PTY_BUF_SIZE - length mb"
      have "expand (take ?f r) = take ?f r" "expand (take (Suc ?f) r) = take (Suc ?f) r"
        using plain by (auto intro!: expand_plain dest: in_set_takeD)
      then show ?thesis using True 2(3) unfolding rt o by (intro exI [of _ ?f]) (auto simp: Let_def)
    next
      case fits: False
      then have "length (mb @ r) \<le> PTY_BUF_SIZE" using 2(3) by simp
      from 2(2) [OF False, folded t_def, OF this, of "c + length r"] obtain k where "k \<le> length t" "slave_write_loop (mb @ r) (onlcr t) (c + length r) = (c + length r + k, (mb @ r) @ expand (take k t))"
        "length ((mb @ r) @ expand (take k t)) \<le> PTY_BUF_SIZE"
        "k < length t \<longrightarrow> length ((mb @ r) @ expand (take (Suc k) t)) > PTY_BUF_SIZE"
        by blast
      then show ?thesis using fits expand_plain [OF plain] unfolding rt o
        by (intro exI [of _ "length r + k"]) (auto simp: Let_def)
    qed
  qed
qed simp

lemma push_bounded_append: "push_bounded q (a @ b) = push_bounded (push_bounded q a) b"
  by (simp add: push_bounded_def)

lemma push_bounded_eq: "length q \<le> PTY_BUF_SIZE \<Longrightarrow> push_bounded q bs = q @ take (PTY_BUF_SIZE - length q) bs"
proof (induction bs arbitrary: q)
  case Nil
  then show ?case by (simp add: push_bounded_def)
next
  case (Cons b bs)
  have "push_bounded q (b # bs) = push_bounded (if length q < PTY_BUF_SIZE then q @ [b] else q) bs"
    by (simp add: push_bounded_def)
  then show ?case using Cons.IH [of "if length q < PTY_BUF_SIZE then q @ [b] else q"] Cons.prems
    by (cases "length q < PTY_BUF_SIZE") (simp_all add: Suc_diff_Suc [symmetric])
qed

lemma push_bounded_length: "length q \<le> PTY_BUF_SIZE \<Longrightarrow> length (push_bounded q bs) \<le> PTY_BUF_SIZE"
  by (simp add: push_bounded_eq)

text \<open>The flush moves all cooked bytes, whatever the chunking.\<close>

lemma flush_eq:
  "flush_ldisc_to_slave p = p\<lparr>ldisc := (ldisc p)\<lparr>cooked_buf := []\<rparr>, slave_buf := push_bounded (slave_buf p) (cooked_buf (ldisc p))\<rparr>"
proof (induction p rule: flush_ldisc_to_slave.induct)
  case (1 p)
  obtain tmp q where t: "cooked_take (ld_mode (ldisc p) = Canonical) 256 (cooked_buf (ldisc p)) = (tmp, q)" by fastforce
  then have r: "ldisc_read (ldisc p) 256 = (tmp, (ldisc p)\<lparr>cooked_buf := q\<rparr>)" by (simp add: ldisc_read_def)
  have all: "tmp @ q = cooked_buf (ldisc p)" using cooked_take_length [OF t] by simp
  show ?case
  proof (cases "tmp = []")
    case True
    then have "cooked_buf (ldisc p) = []" using cooked_take_Nil [of _ 255] t by (simp add: numeral_eq_Suc)
    then show ?thesis using True r all
      by (subst flush_ldisc_to_slave.simps) (simp add: push_bounded_def)
  next
    case False
    then show ?thesis using 1 [OF r [symmetric] False] r all [symmetric]
      by (subst flush_ldisc_to_slave.simps) (simp add: push_bounded_append)
  qed
qed

text \<open>Reference for line editing: an erase byte drops the last byte of the line so far.\<close>

definition edit_line :: "LineDiscipline \<Rightarrow> byte list \<Rightarrow> byte list \<Rightarrow> byte list" where
  "edit_line l = fold (\<lambda>b line. if b = erase_char l \<or> b = 0x08 then butlast line else line @ [b])"

definition line_byte :: "LineDiscipline \<Rightarrow> byte \<Rightarrow> bool" where
  "line_byte l b \<longleftrightarrow> b \<notin> {intr_char l, quit_char l, susp_char l, eof_char l, LF, CR}"

lemma edit_line_simps [simp]:
  "edit_line l [] line = line"
  "edit_line l (b # bs) line = edit_line l bs (if b = erase_char l \<or> b = 0x08 then butlast line else line @ [b])"
  by (simp_all add: edit_line_def)

lemma edit_line_input_buf [simp]: "edit_line (l\<lparr>input_buf := x\<rparr>) bs line = edit_line l bs line"
  by (simp add: edit_line_def)

lemma line_byte_input_buf [simp]: "line_byte (l\<lparr>input_buf := x\<rparr>) = line_byte l"
  by (simp add: line_byte_def fun_eq_iff)

lemma input_step_edit:
  "ld_mode (ldisc p) = Canonical \<Longrightarrow> line_byte (ldisc p) b \<Longrightarrow>
   snd (input_step p b) = ([], p\<lparr>ldisc := (ldisc p)\<lparr>input_buf := edit_line (ldisc p) [b] (input_buf (ldisc p))\<rparr>\<rparr>)"
  by (auto simp: input_step_def process_input_def process_canonical_def line_byte_def Let_def)

lemma write_input_loop_snd [simp]:
  "snd (write_input_loop p (b # bs)) =
     (fst (snd (input_step p b)) @ fst (snd (write_input_loop (snd (snd (input_step p b))) bs)),
      snd (snd (write_input_loop (snd (snd (input_step p b))) bs)))"
  by (simp split: prod.splits)

lemma write_input_loop_append:
  "snd (write_input_loop p (a @ b)) =
     (fst (snd (write_input_loop p a)) @ fst (snd (write_input_loop (snd (snd (write_input_loop p a))) b)),
      snd (snd (write_input_loop (snd (snd (write_input_loop p a))) b)))"
  by (induction a arbitrary: p) (simp_all del: write_input_loop.simps(2))

lemma write_input_loop_edit:
  "ld_mode (ldisc p) = Canonical \<Longrightarrow> list_all (line_byte (ldisc p)) bs \<Longrightarrow>
   snd (write_input_loop p bs) = ([], p\<lparr>ldisc := (ldisc p)\<lparr>input_buf := edit_line (ldisc p) bs (input_buf (ldisc p))\<rparr>\<rparr>)"
proof (induction bs arbitrary: p)
  case (Cons b bs)
  then show ?case
    using Cons.IH [of "p\<lparr>ldisc := (ldisc p)\<lparr>input_buf := edit_line (ldisc p) [b] (input_buf (ldisc p))\<rparr>\<rparr>"]
    by (simp add: input_step_edit del: write_input_loop.simps(2))
qed simp

lemma input_step_newline:
  assumes "ld_mode (ldisc p) = Canonical" "b \<in> {LF, CR}"
    "b \<notin> {intr_char (ldisc p), quit_char (ldisc p), susp_char (ldisc p), eof_char (ldisc p), erase_char (ldisc p)}"
  shows "fst (snd (input_step p b)) = []"
    "flush_ldisc_to_slave (snd (snd (input_step p b))) =
     p\<lparr>ldisc := (ldisc p)\<lparr>input_buf := [], cooked_buf := []\<rparr>,
       slave_buf := push_bounded (slave_buf p) (cooked_buf (ldisc p) @ input_buf (ldisc p) @ [LF])\<rparr>"
  using assms
  by (auto simp: input_step_def process_input_def process_canonical_def submit_input_def Let_def flush_eq LF_def CR_def
      push_bounded_def)

section \<open>Properties\<close>

text \<open>C18: a line typed at a terminal in canonical mode, with erase characters in it,
  reaches the reader as the edited line and a newline, whether echo is on or off and whatever chunks
  the flush uses; nothing of it stays behind in the line discipline and no signal is sent. Bytes
  beyond the 4096 of the slave buffer are the only ones lost.\<close>

theorem tty_line_editing:
  assumes "ld_mode (ldisc p) = Canonical" "input_buf (ldisc p) = []" "cooked_buf (ldisc p) = []"
    and "list_all (line_byte (ldisc p)) bs" "length (slave_buf p) \<le> PTY_BUF_SIZE"
    and "nl \<in> {LF, CR}"
    and "nl \<notin> {intr_char (ldisc p), quit_char (ldisc p), susp_char (ldisc p), eof_char (ldisc p), erase_char (ldisc p)}"
  shows "snd (write_input p (bs @ [nl])) =
    ([], p\<lparr>slave_buf := slave_buf p @ take (PTY_BUF_SIZE - length (slave_buf p)) (edit_line (ldisc p) bs [] @ [LF])\<rparr>)"
proof -
  let ?q = "p\<lparr>ldisc := (ldisc p)\<lparr>input_buf := edit_line (ldisc p) bs []\<rparr>\<rparr>"
  have e: "snd (write_input_loop p bs) = ([], ?q)" using write_input_loop_edit [of p bs] assms by simp
  have n: "fst (snd (input_step ?q nl)) = []" "flush_ldisc_to_slave (snd (snd (input_step ?q nl))) =
     ?q\<lparr>ldisc := (ldisc ?q)\<lparr>input_buf := [], cooked_buf := []\<rparr>,
       slave_buf := push_bounded (slave_buf ?q) (cooked_buf (ldisc ?q) @ input_buf (ldisc ?q) @ [LF])\<rparr>"
    using input_step_newline [of ?q nl] assms by simp_all
  have "snd (write_input_loop p (bs @ [nl])) = ([], snd (snd (input_step ?q nl)))"
    using n(1) by (simp add: write_input_loop_append e del: write_input_loop.simps(2))
  then have "snd (write_input p (bs @ [nl])) = ([], flush_ldisc_to_slave (snd (snd (input_step ?q nl))))"
    by (cases "write_input_loop p (bs @ [nl])") (simp add: write_input_def)
  then show ?thesis using n(2) assms by (cases p, cases "ldisc p") (simp add: push_bounded_eq)
qed

theorem tty_line_editing_witness:
  "snd (write_input (alloc_pty 0) ([104, 0x7F, 104, 105] @ [CR])) = ([], (alloc_pty 0)\<lparr>slave_buf := [104, 105, LF]\<rparr>)"
  using tty_line_editing [of "alloc_pty 0" "[104, 0x7F, 104, 105]" CR]
  by (simp add: alloc_pty_def ldisc_new_def line_byte_def LF_def CR_def PTY_BUF_SIZE_def)

text \<open>C19: a write by the program takes the longest prefix of its bytes whose
  translated form fits the master buffer, returns its length in bytes of the program, and appends
  exactly its translation: each newline as CR LF, never split, every other byte unchanged.\<close>

theorem slave_write_exact:
  assumes "length (master_buf p) \<le> PTY_BUF_SIZE"
  shows "\<exists>n \<le> length d. slave_write p d = (n, p\<lparr>master_buf := master_buf p @ expand (take n d)\<rparr>)
    \<and> length (master_buf p @ expand (take n d)) \<le> PTY_BUF_SIZE
    \<and> (\<forall>m. n < m \<and> m \<le> length d \<longrightarrow> length (master_buf p @ expand (take m d)) > PTY_BUF_SIZE)"
proof -
  from slave_write_loop_ok [OF assms, of d 0] obtain n where n: "n \<le> length d"
      "slave_write_loop (master_buf p) (onlcr d) 0 = (n, master_buf p @ expand (take n d))"
      "length (master_buf p @ expand (take n d)) \<le> PTY_BUF_SIZE"
      "n < length d \<longrightarrow> length (master_buf p @ expand (take (Suc n) d)) > PTY_BUF_SIZE"
    by auto
  have "length (master_buf p @ expand (take m d)) > PTY_BUF_SIZE" if "n < m" "m \<le> length d" for m
  proof -
    have "take m d = take (Suc n) d @ take (m - Suc n) (drop (Suc n) d)"
      using take_add [of "Suc n" "m - Suc n" d] that by simp
    then show ?thesis using n(4) that by simp
  qed
  with n show ?thesis by (intro exI [of _ n]) (simp add: slave_write_def)
qed

theorem slave_write_exact_witness:
  "\<exists>n. slave_write (alloc_pty 0) [104, LF, 105] = (n, (alloc_pty 0)\<lparr>master_buf := expand (take n [104, LF, 105])\<rparr>) \<and> n \<le> 3"
  using slave_write_exact [of "alloc_pty 0" "[104, LF, 105]"] by (auto simp: alloc_pty_def PTY_BUF_SIZE_def)

text \<open>Ctrl-C at a terminal in canonical mode discards the line typed so far,
  passes nothing to the reader and sends SIGINT to the foreground group, once, if there is one.\<close>

theorem tty_interrupt:
  assumes "ld_mode (ldisc p) = Canonical" "input_buf (ldisc p) = []" "cooked_buf (ldisc p) = []"
    and "list_all (line_byte (ldisc p)) bs"
  shows "snd (write_input p (bs @ [intr_char (ldisc p)])) =
    (if foreground_pgid p > 0 then [(foreground_pgid p, SIGINT)] else [], p)"
proof -
  let ?q = "p\<lparr>ldisc := (ldisc p)\<lparr>input_buf := edit_line (ldisc p) bs []\<rparr>\<rparr>"
  have e: "snd (write_input_loop p bs) = ([], ?q)" using write_input_loop_edit [of p bs] assms by simp
  have n: "snd (input_step ?q (intr_char (ldisc p))) = (if foreground_pgid p > 0 then [(foreground_pgid p, SIGINT)] else [], p)"
    using assms by (cases p, cases "ldisc p")
      (simp add: input_step_def process_input_def process_canonical_def deliver_tty_signal_def flush_eq push_bounded_def)
  have "snd (write_input_loop p (bs @ [intr_char (ldisc p)])) = (if foreground_pgid p > 0 then [(foreground_pgid p, SIGINT)] else [], p)"
    using n by (simp add: write_input_loop_append e del: write_input_loop.simps(2))
  moreover have "flush_ldisc_to_slave p = p"
    using assms by (cases p, cases "ldisc p") (simp add: flush_eq push_bounded_def)
  ultimately show ?thesis
    by (cases "write_input_loop p (bs @ [intr_char (ldisc p)])") (auto simp: write_input_def)
qed

theorem tty_interrupt_witness:
  "snd (write_input (set_foreground (alloc_pty 0) 7) ([104, 105] @ [0x03])) = ([(7, SIGINT)], set_foreground (alloc_pty 0) 7)"
  using tty_interrupt [of "set_foreground (alloc_pty 0) 7" "[104, 105]"]
  by (simp add: set_foreground_def alloc_pty_def ldisc_new_def line_byte_def LF_def CR_def)

datatype pty_op = OpInput "byte list" | OpReadOutput nat | OpSlaveRead nat | OpSlaveWrite "byte list"
  | OpMode LineMode | OpEcho bool | OpWinsize nat nat | OpForeground int

fun pty_apply :: "pty_op \<Rightarrow> PtyMaster \<Rightarrow> PtyMaster" where
  "pty_apply (OpInput d) p = snd (snd (write_input p d))"
| "pty_apply (OpReadOutput n) p = snd (read_output p n)"
| "pty_apply (OpSlaveRead n) p = snd (slave_read p n)"
| "pty_apply (OpSlaveWrite d) p = snd (slave_write p d)"
| "pty_apply (OpMode m) p = p\<lparr>ldisc := set_mode (ldisc p) m\<rparr>"
| "pty_apply (OpEcho e) p = p\<lparr>ldisc := set_echo (ldisc p) e\<rparr>"
| "pty_apply (OpWinsize r c) p = snd (set_winsize p r c)"
| "pty_apply (OpForeground g) p = set_foreground p g"

definition pty_ok :: "PtyMaster \<Rightarrow> bool" where
  "pty_ok p \<longleftrightarrow> length (slave_buf p) \<le> PTY_BUF_SIZE \<and> length (master_buf p) \<le> PTY_BUF_SIZE"

lemma input_step_ok: "pty_ok p \<Longrightarrow> pty_ok (snd (snd (input_step p b)))"
  by (auto simp: pty_ok_def input_step_def Let_def flush_eq push_bounded_length split: prod.splits LdiscOutput.splits)

lemma write_input_loop_ok: "pty_ok p \<Longrightarrow> pty_ok (snd (snd (write_input_loop p bs)))"
  by (induction bs arbitrary: p) (simp_all add: input_step_ok del: write_input_loop.simps(2))

lemma pty_apply_ok: "pty_ok p \<Longrightarrow> pty_ok (pty_apply op p)"
proof (cases op)
  case (OpInput d)
  then show ?thesis if "pty_ok p" using write_input_loop_ok [OF that, of d]
    by (auto simp: write_input_def flush_eq pty_ok_def push_bounded_length split: prod.splits)
next
  case (OpSlaveWrite d)
  then show ?thesis if "pty_ok p" using slave_write_loop_ok [of "master_buf p" d 0] that
    by (auto simp: slave_write_def pty_ok_def)
qed (auto simp: pty_ok_def read_output_def slave_read_def set_winsize_def set_foreground_def)

text \<open>C20: whatever is typed, printed, read or reconfigured, in any order, neither buffer of
  a pseudo-terminal grows past 4096 bytes.\<close>

theorem pty_bounded: "pty_ok (fold pty_apply ops (alloc_pty i))"
proof -
  have "pty_ok p \<Longrightarrow> pty_ok (fold pty_apply ops p)" for p
    by (induction ops arbitrary: p) (simp_all add: pty_apply_ok)
  then show ?thesis by (simp add: pty_ok_def alloc_pty_def)
qed

end
