(* ===== verification/Screen.thy ===== *)
theory Screen imports RPrelude begin

text \<open>
  \<open>terminal/src/buffer.rs\<close>: the screen buffer of the terminal emulator. The grids are flat lists of
  cells as in the code; every index that can leave its vector is a checked access. A character is
  its scalar value.
\<close>

datatype Color = ColDefault | Indexed byte | Rgb byte byte byte

record CellAttrs =
  bold :: bool
  italic :: bool
  underline :: bool
  blink :: bool
  reverse :: bool
  strikethrough :: bool

definition attrs_default :: CellAttrs where
  "attrs_default = \<lparr>bold = False, italic = False, underline = False, blink = False, reverse = False,
     strikethrough = False\<rparr>"

record Cell =
  character :: nat
  cell_fg :: Color
  cell_bg :: Color
  cell_attrs :: CellAttrs

definition cell_default :: Cell where
  "cell_default = \<lparr>character = 32, cell_fg = ColDefault, cell_bg = ColDefault, cell_attrs = attrs_default\<rparr>"

record ScreenBuffer =
  rows :: nat
  cols :: nat
  primary :: "Cell list"
  alternate :: "Cell list"
  using_alternate :: bool
  scrollback :: "Cell list list"
  scrollback_limit :: nat
  dirty :: "bool list"

definition buf_new :: "nat \<Rightarrow> nat \<Rightarrow> ScreenBuffer option" where
  "buf_new r c = do {
     sz \<leftarrow> cmul64 r c;
     Some \<lparr>rows = r, cols = c, primary = replicate sz cell_default,
       alternate = replicate sz cell_default, using_alternate = False, scrollback = [],
       scrollback_limit = 10000, dirty = replicate r True\<rparr> }"

definition grid :: "ScreenBuffer \<Rightarrow> Cell list" where
  "grid b = (if using_alternate b then alternate b else primary b)"

definition grid_put :: "ScreenBuffer \<Rightarrow> Cell list \<Rightarrow> ScreenBuffer" where
  "grid_put b g = (if using_alternate b then b\<lparr>alternate := g\<rparr> else b\<lparr>primary := g\<rparr>)"

definition buf_get :: "ScreenBuffer \<Rightarrow> nat \<Rightarrow> nat \<Rightarrow> Cell option" where
  "buf_get b row col = aget (grid b) (row * cols b + col)"

definition mark_dirty :: "nat \<Rightarrow> ScreenBuffer \<Rightarrow> ScreenBuffer option" where
  "mark_dirty row b = do { d \<leftarrow> aset (dirty b) row True; Some (b\<lparr>dirty := d\<rparr>) }"

definition mark_all_dirty :: "ScreenBuffer \<Rightarrow> ScreenBuffer" where
  "mark_all_dirty b = b\<lparr>dirty := replicate (length (dirty b)) True\<rparr>"

definition buf_set :: "nat \<Rightarrow> nat \<Rightarrow> Cell \<Rightarrow> ScreenBuffer \<Rightarrow> ScreenBuffer option" where
  "buf_set row col cell b = do {
     g \<leftarrow> aset (grid b) (row * cols b + col) cell;
     mark_dirty row (grid_put b g) }"

definition put_char :: "ScreenBuffer \<Rightarrow> nat \<Rightarrow> nat \<Rightarrow> nat \<Rightarrow> Color \<Rightarrow> Color \<Rightarrow> CellAttrs \<Rightarrow> ScreenBuffer option" where
  "put_char b row col ch fg bg at =
     (if row < rows b \<and> col < cols b
      then buf_set row col \<lparr>character = ch, cell_fg = fg, cell_bg = bg, cell_attrs = at\<rparr> b
      else Some b)"

text \<open>The inner loops: blank or copy columns of the row that starts at a given index.\<close>

definition blank_cols :: "nat \<Rightarrow> nat \<Rightarrow> nat \<Rightarrow> Cell list \<Rightarrow> Cell list option" where
  "blank_cols start c1 c2 g = for_each [c1..<c2] (\<lambda>c g. aset g (start + c) cell_default) g"

definition copy_cols :: "nat \<Rightarrow> nat \<Rightarrow> nat \<Rightarrow> Cell list \<Rightarrow> Cell list option" where
  "copy_cols w dst src g = for_each [0..<w] (\<lambda>c g. do { v \<leftarrow> aget g (src + c); aset g (dst + c) v }) g"

definition buf_clear :: "ScreenBuffer \<Rightarrow> ScreenBuffer option" where
  "buf_clear b = do {
     sz \<leftarrow> cmul64 (rows b) (cols b);
     g \<leftarrow> blank_cols 0 0 sz (grid b);
     Some (mark_all_dirty (grid_put b g)) }"

definition blank_dirty_row :: "nat \<Rightarrow> ScreenBuffer \<Rightarrow> ScreenBuffer option" where
  "blank_dirty_row r b = do {
     g \<leftarrow> blank_cols (r * cols b) 0 (cols b) (grid b);
     mark_dirty r (grid_put b g) }"

definition clear_below :: "ScreenBuffer \<Rightarrow> nat \<Rightarrow> nat \<Rightarrow> ScreenBuffer option" where
  "clear_below b row col = do {
     b1 \<leftarrow> for_each [col..<cols b] (\<lambda>c. buf_set row c cell_default) b;
     for_each [row + 1..<rows b] blank_dirty_row b1 }"

definition clear_above :: "ScreenBuffer \<Rightarrow> nat \<Rightarrow> nat \<Rightarrow> ScreenBuffer option" where
  "clear_above b row col = do {
     b1 \<leftarrow> for_each [0..<row] blank_dirty_row b;
     last_col \<leftarrow> csub (cols b1) 1;
     for_each [0..<min col last_col + 1] (\<lambda>c. buf_set row c cell_default) b1 }"

definition clear_line :: "ScreenBuffer \<Rightarrow> nat \<Rightarrow> nat \<Rightarrow> nat \<Rightarrow> ScreenBuffer option" where
  "clear_line b row c1 c2 =
     (if row < rows b then do {
        g \<leftarrow> blank_cols (row * cols b) c1 (min c2 (cols b)) (grid b);
        mark_dirty row (grid_put b g) }
      else Some b)"

definition set_scrollback_limit :: "ScreenBuffer \<Rightarrow> nat \<Rightarrow> ScreenBuffer" where
  "set_scrollback_limit b limit =
     (let b' = b\<lparr>scrollback_limit := limit\<rparr> in if limit = 0 then b'\<lparr>scrollback := []\<rparr> else b')"

text \<open>The rows that \<open>scroll_up\<close> keeps: pushed one by one, the oldest dropped when over the limit.\<close>

definition save_row :: "ScreenBuffer \<Rightarrow> nat \<Rightarrow> Cell list list \<Rightarrow> Cell list list option" where
  "save_row b i sb = do {
     row_data \<leftarrow> aslice (primary b) (i * cols b) (i * cols b + cols b);
     let sb' = sb @ [row_data] in
     Some (if length sb' > scrollback_limit b then tl sb' else sb') }"

definition scroll_up :: "ScreenBuffer \<Rightarrow> nat \<Rightarrow> nat \<Rightarrow> nat \<Rightarrow> ScreenBuffer option" where
  "scroll_up b n tp bt = do {
     last_row \<leftarrow> csub (rows b) 1;
     let tp = min tp last_row; bt = min bt (rows b) in
     if tp \<ge> bt then Some b
     else let n = min n (bt - tp); w = cols b in do {
       sb \<leftarrow> (if \<not> using_alternate b \<and> tp = 0 \<and> scrollback_limit b > 0
              then for_each [0..<n] (save_row b) (scrollback b) else Some (scrollback b));
       g1 \<leftarrow> for_each [tp..<bt - n] (\<lambda>r. copy_cols w (r * w) ((r + n) * w)) (grid b);
       g2 \<leftarrow> for_each [bt - n..<bt] (\<lambda>r. blank_cols (r * w) 0 w) g1;
       for_each [tp..<bt] mark_dirty (grid_put (b\<lparr>scrollback := sb\<rparr>) g2) } }"

definition scroll_down :: "ScreenBuffer \<Rightarrow> nat \<Rightarrow> nat \<Rightarrow> nat \<Rightarrow> ScreenBuffer option" where
  "scroll_down b n tp bt = do {
     last_row \<leftarrow> csub (rows b) 1;
     let tp = min tp last_row; bt = min bt (rows b) in
     if tp \<ge> bt then Some b
     else let n = min n (bt - tp); w = cols b in do {
       g1 \<leftarrow> for_each (rev [tp + n..<bt]) (\<lambda>r g. do { s \<leftarrow> csub r n; copy_cols w (r * w) (s * w) g }) (grid b);
       g2 \<leftarrow> for_each [tp..<tp + n] (\<lambda>r. blank_cols (r * w) 0 w) g1;
       for_each [tp..<bt] mark_dirty (grid_put b g2) } }"

definition insert_lines :: "ScreenBuffer \<Rightarrow> nat \<Rightarrow> nat \<Rightarrow> nat \<Rightarrow> ScreenBuffer option" where
  "insert_lines b row n bt = (if row < bt then scroll_down b n row bt else Some b)"

definition delete_lines :: "ScreenBuffer \<Rightarrow> nat \<Rightarrow> nat \<Rightarrow> nat \<Rightarrow> ScreenBuffer option" where
  "delete_lines b row n bt = (if row < bt then scroll_up b n row bt else Some b)"

definition insert_chars :: "ScreenBuffer \<Rightarrow> nat \<Rightarrow> nat \<Rightarrow> nat \<Rightarrow> ScreenBuffer option" where
  "insert_chars b row col n =
     (if row \<ge> rows b \<or> col \<ge> cols b then Some b
      else let w = cols b; start = row * w in do {
        g1 \<leftarrow> for_each (rev [col + n..<w])
               (\<lambda>c g. do { s \<leftarrow> csub (start + c) n; v \<leftarrow> aget g s; aset g (start + c) v }) (grid b);
        g2 \<leftarrow> blank_cols start col (min (col + n) w) g1;
        mark_dirty row (grid_put b g2) })"

definition delete_chars :: "ScreenBuffer \<Rightarrow> nat \<Rightarrow> nat \<Rightarrow> nat \<Rightarrow> ScreenBuffer option" where
  "delete_chars b row col n =
     (if row \<ge> rows b \<or> col \<ge> cols b then Some b
      else let w = cols b; start = row * w in do {
        g \<leftarrow> for_each [col..<w]
               (\<lambda>c g. if c + n < w then do { v \<leftarrow> aget g (start + c + n); aset g (start + c) v }
                      else aset g (start + c) cell_default) (grid b);
        mark_dirty row (grid_put b g) })"

definition erase_chars :: "ScreenBuffer \<Rightarrow> nat \<Rightarrow> nat \<Rightarrow> nat \<Rightarrow> ScreenBuffer option" where
  "erase_chars b row col n =
     (if row \<ge> rows b then Some b
      else do {
        g \<leftarrow> blank_cols (row * cols b) col (min (col + n) (cols b)) (grid b);
        mark_dirty row (grid_put b g) })"

definition enable_alternate :: "ScreenBuffer \<Rightarrow> ScreenBuffer option" where
  "enable_alternate b =
     (if \<not> using_alternate b then do {
        sz \<leftarrow> cmul64 (rows b) (cols b);
        g \<leftarrow> blank_cols 0 0 sz (alternate b);
        Some (mark_all_dirty (b\<lparr>using_alternate := True, alternate := g\<rparr>)) }
      else Some b)"

definition disable_alternate :: "ScreenBuffer \<Rightarrow> ScreenBuffer" where
  "disable_alternate b =
     (if using_alternate b then mark_all_dirty (b\<lparr>using_alternate := False\<rparr>) else b)"

text \<open>The copy of one grid in \<open>resize\<close>; the code copies both grids in the same two loops.\<close>

definition resize_grid :: "nat \<Rightarrow> nat \<Rightarrow> nat \<Rightarrow> nat \<Rightarrow> nat \<Rightarrow> Cell list \<Rightarrow> Cell list option" where
  "resize_grid r c new_r new_c new_size old =
     for_each [0..<min r new_r] (\<lambda>i. for_each [0..<min c new_c]
       (\<lambda>j g. do { v \<leftarrow> aget old (i * c + j); aset g (i * new_c + j) v }))
       (replicate new_size cell_default)"

definition buf_resize :: "ScreenBuffer \<Rightarrow> nat \<Rightarrow> nat \<Rightarrow> ScreenBuffer option" where
  "buf_resize b new_r new_c = do {
     new_size \<leftarrow> cmul64 new_r new_c;
     p \<leftarrow> resize_grid (rows b) (cols b) new_r new_c new_size (primary b);
     a \<leftarrow> resize_grid (rows b) (cols b) new_r new_c new_size (alternate b);
     Some (b\<lparr>primary := p, alternate := a, rows := new_r, cols := new_c, dirty := replicate new_r True\<rparr>) }"

definition is_dirty :: "ScreenBuffer \<Rightarrow> nat \<Rightarrow> bool" where
  "is_dirty b row = (if row < length (dirty b) then dirty b ! row else False)"

definition clear_dirty :: "ScreenBuffer \<Rightarrow> nat \<Rightarrow> ScreenBuffer" where
  "clear_dirty b row = (if row < length (dirty b) then b\<lparr>dirty := (dirty b)[row := False]\<rparr> else b)"

definition scrollback_len :: "ScreenBuffer \<Rightarrow> nat" where
  "scrollback_len b = length (scrollback b)"

definition scrollback_line :: "ScreenBuffer \<Rightarrow> nat \<Rightarrow> Cell list option" where
  "scrollback_line b i = (if i < length (scrollback b) then Some (scrollback b ! i) else None)"

section \<open>The grid loops\<close>

text \<open>Grids are compared by their cells: \<open>g'\<close> has the cells of \<open>g\<close> except on a set of indices.\<close>

definition cells_are :: "Cell list \<Rightarrow> (nat \<Rightarrow> Cell) \<Rightarrow> nat \<Rightarrow> bool" where
  "cells_are g f n \<longleftrightarrow> length g = n \<and> (\<forall>k < n. g ! k = f k)"

lemma cells_are_length: "cells_are g f n \<Longrightarrow> length g = n"
  by (simp add: cells_are_def)

lemma cells_are_nth: "cells_are g f n \<Longrightarrow> k < n \<Longrightarrow> g ! k = f k"
  by (simp add: cells_are_def)

lemma cells_are_cong: "cells_are g f n \<Longrightarrow> (\<And>k. k < n \<Longrightarrow> f k = h k) \<Longrightarrow> cells_are g h n"
  by (simp add: cells_are_def)

lemma blank_cols_cells:
  assumes "start + c2 \<le> length g"
  shows "\<exists>g'. blank_cols start c1 c2 g = Some g' \<and>
    cells_are g' (\<lambda>k. if start + c1 \<le> k \<and> k < start + c2 then cell_default else g ! k) (length g)"
proof (cases "c1 \<le> c2")
  case True
  show ?thesis unfolding blank_cols_def
  proof (rule for_each_up [OF True, where
        I = "\<lambda>i g'. cells_are g' (\<lambda>k. if start + c1 \<le> k \<and> k < start + i then cell_default else g ! k) (length g)"])
  qed (use assms in \<open>auto simp: cells_are_def aset_in nth_list_update\<close>)
qed (auto simp: blank_cols_def cells_are_def)

lemma blank_cols_total: "start + c2 \<le> length g \<Longrightarrow> \<exists>g'. blank_cols start c1 c2 g = Some g' \<and> length g' = length g"
  using blank_cols_cells [of start c2 g c1] cells_are_length by blast

lemma copy_cols_cells:
  assumes "dst + w \<le> length g" "src + w \<le> length g" "dst + w \<le> src \<or> src + w \<le> dst \<or> dst = src"
  shows "\<exists>g'. copy_cols w dst src g = Some g' \<and>
    cells_are g' (\<lambda>k. if dst \<le> k \<and> k < dst + w then g ! (k - dst + src) else g ! k) (length g)"
  unfolding copy_cols_def
proof (rule for_each_up [where
      I = "\<lambda>i g'. cells_are g' (\<lambda>k. if dst \<le> k \<and> k < dst + i then g ! (k - dst + src) else g ! k) (length g)"])
  fix i g' assume i: "i < w" and I: "cells_are g' (\<lambda>k. if dst \<le> k \<and> k < dst + i then g ! (k - dst + src) else g ! k) (length g)"
  have "g' ! (src + i) = g ! (src + i)" using I i assms by (auto simp: cells_are_def add.commute)
  then show "\<exists>s'. do { v \<leftarrow> aget g' (src + i); aset g' (dst + i) v } = Some s' \<and>
      cells_are s' (\<lambda>k. if dst \<le> k \<and> k < dst + Suc i then g ! (k - dst + src) else g ! k) (length g)"
    using I i assms by (auto simp: cells_are_def aget_in aset_in nth_list_update add.commute)
qed (auto simp: cells_are_def)

text \<open>Loops over rows. A block of rows \<open>r1..<r2\<close> is the flat interval \<open>r1 * w..<r2 * w\<close>.\<close>

lemma rows_blank_cells:
  assumes "r1 \<le> r2" "r2 * w \<le> length g"
  shows "\<exists>g'. for_each [r1..<r2] (\<lambda>r. blank_cols (r * w) 0 w) g = Some g' \<and>
    cells_are g' (\<lambda>k. if r1 * w \<le> k \<and> k < r2 * w then cell_default else g ! k) (length g)"
proof (rule for_each_up [OF assms(1), where
      I = "\<lambda>i g'. cells_are g' (\<lambda>k. if r1 * w \<le> k \<and> k < i * w then cell_default else g ! k) (length g)"])
  fix i g' assume i: "r1 \<le> i" "i < r2" and I: "cells_are g' (\<lambda>k. if r1 * w \<le> k \<and> k < i * w then cell_default else g ! k) (length g)"
  have b: "\<And>k. i * w \<le> k \<Longrightarrow> r1 * w \<le> k" "i * w + w \<le> r2 * w"
    using i by (auto intro: mul_le_trans mul_add_le)
  obtain s' where s': "blank_cols (i * w) 0 w g' = Some s'"
      "cells_are s' (\<lambda>k. if i * w + 0 \<le> k \<and> k < i * w + w then cell_default else g' ! k) (length g)"
    using blank_cols_cells [of "i * w" w g' 0] cells_are_length [OF I] b assms(2) by auto
  have "cells_are s' (\<lambda>k. if r1 * w \<le> k \<and> k < Suc i * w then cell_default else g ! k) (length g)"
    by (rule cells_are_cong [OF s'(2)])
      (use b in \<open>auto simp: cells_are_nth [OF I] simp del: mult_le_cancel2 mult_less_cancel2\<close>)
  with s' show "\<exists>s'. blank_cols (i * w) 0 w g' = Some s' \<and>
      cells_are s' (\<lambda>k. if r1 * w \<le> k \<and> k < Suc i * w then cell_default else g ! k) (length g)" by blast
qed (auto simp: cells_are_def)

lemma rows_up_cells:
  assumes "r1 \<le> r2" "(r2 + n) * w \<le> length g"
  shows "\<exists>g'. for_each [r1..<r2] (\<lambda>r. copy_cols w (r * w) ((r + n) * w)) g = Some g' \<and>
    cells_are g' (\<lambda>k. if r1 * w \<le> k \<and> k < r2 * w then g ! (k + n * w) else g ! k) (length g)"
proof (rule for_each_up [OF assms(1), where
      I = "\<lambda>i g'. cells_are g' (\<lambda>k. if r1 * w \<le> k \<and> k < i * w then g ! (k + n * w) else g ! k) (length g)"])
  fix i g' assume i: "r1 \<le> i" "i < r2" and I: "cells_are g' (\<lambda>k. if r1 * w \<le> k \<and> k < i * w then g ! (k + n * w) else g ! k) (length g)"
  have b: "\<And>k. i * w \<le> k \<Longrightarrow> r1 * w \<le> k" "i * w + w \<le> r2 * w" "(r2 + n) * w = r2 * w + n * w" "n \<noteq> 0 \<Longrightarrow> w \<le> n * w"
    using i by (auto simp: add_mult_distrib intro: mul_le_trans mul_add_le)
  obtain s' where s': "copy_cols w (i * w) ((i + n) * w) g' = Some s'"
      "cells_are s' (\<lambda>k. if i * w \<le> k \<and> k < i * w + w then g' ! (k - i * w + (i * w + n * w)) else g' ! k) (length g)"
    using copy_cols_cells [of "i * w" w g' "i * w + n * w"] cells_are_length [OF I] b assms(2)
    by (cases "n = 0") (auto simp: add_mult_distrib)
  have "cells_are s' (\<lambda>k. if r1 * w \<le> k \<and> k < Suc i * w then g ! (k + n * w) else g ! k) (length g)"
    by (rule cells_are_cong [OF s'(2)])
      (use b assms(2) in \<open>auto simp: cells_are_nth [OF I] simp del: mult_le_cancel2 mult_less_cancel2\<close>)
  with s' show "\<exists>s'. copy_cols w (i * w) ((i + n) * w) g' = Some s' \<and>
      cells_are s' (\<lambda>k. if r1 * w \<le> k \<and> k < Suc i * w then g ! (k + n * w) else g ! k) (length g)"
    by blast
qed (auto simp: cells_are_def)

lemma rows_down_cells:
  assumes "n \<le> r1" "r1 \<le> r2" "r2 * w \<le> length g"
  shows "\<exists>g'. for_each (rev [r1..<r2]) (\<lambda>r g. do { s \<leftarrow> csub r n; copy_cols w (r * w) (s * w) g }) g = Some g' \<and>
    cells_are g' (\<lambda>k. if r1 * w \<le> k \<and> k < r2 * w then g ! (k - n * w) else g ! k) (length g)"
proof (rule for_each_down [OF assms(2), where
      I = "\<lambda>i g'. cells_are g' (\<lambda>k. if i * w \<le> k \<and> k < r2 * w then g ! (k - n * w) else g ! k) (length g)"])
  fix i g' assume i: "r1 \<le> i" "i < r2" and I: "cells_are g' (\<lambda>k. if Suc i * w \<le> k \<and> k < r2 * w then g ! (k - n * w) else g ! k) (length g)"
  have b: "i * w + w \<le> r2 * w" "(i - n) * w = i * w - n * w"
      "\<And>k. i * w \<le> k \<Longrightarrow> k - i * w + (i * w - n * w) = k - n * w" "n \<noteq> 0 \<Longrightarrow> i * w - n * w + w \<le> i * w"
    using i assms mul_le_trans [of n i w "i * w"] mul_le_trans [of 1 n w "n * w"]
    by (simp_all only: diff_mult_distrib mul_add_le) linarith+
  obtain s' where s': "copy_cols w (i * w) (i * w - n * w) g' = Some s'"
      "cells_are s' (\<lambda>k. if i * w \<le> k \<and> k < i * w + w then g' ! (k - i * w + (i * w - n * w)) else g' ! k) (length g)"
    using copy_cols_cells [of "i * w" w g' "i * w - n * w"] cells_are_length [OF I] b assms(3)
    by (cases "n = 0") auto
  have "cells_are s' (\<lambda>k. if i * w \<le> k \<and> k < r2 * w then g ! (k - n * w) else g ! k) (length g)"
    by (rule cells_are_cong [OF s'(2)])
      (use b assms(3) in \<open>auto simp: cells_are_nth [OF I] simp del: mult_le_cancel2 mult_less_cancel2\<close>)
  with s' show "\<exists>s'. do { s \<leftarrow> csub i n; copy_cols w (i * w) (s * w) g' } = Some s' \<and>
      cells_are s' (\<lambda>k. if i * w \<le> k \<and> k < r2 * w then g ! (k - n * w) else g ! k) (length g)"
    using b i assms(1) by (auto simp: csub_in)
qed (auto simp: cells_are_def)

section \<open>The operations keep the buffer well formed\<close>

text \<open>The grids are short enough for a vector of cells (at most \<open>2 ^ 63\<close> bytes, 32 per cell allowed for).\<close>

definition buf_ok :: "ScreenBuffer \<Rightarrow> bool" where [inv_defs]:
  "buf_ok b \<longleftrightarrow> 0 < rows b \<and> 0 < cols b \<and> length (primary b) = rows b * cols b
     \<and> length (alternate b) = rows b * cols b \<and> length (dirty b) = rows b
     \<and> rows b * cols b < 2 ^ 58"

text \<open>An operation returns, and the result is well formed with the dimensions and the active screen of \<open>b\<close>.\<close>

definition keeps :: "ScreenBuffer \<Rightarrow> ScreenBuffer option \<Rightarrow> bool" where
  "keeps b r \<longleftrightarrow> (\<exists>b'. r = Some b' \<and> buf_ok b' \<and> rows b' = rows b \<and> cols b' = cols b
     \<and> using_alternate b' = using_alternate b)"

lemma keeps_Some [simp]: "buf_ok b \<Longrightarrow> keeps b (Some b)"
  by (simp add: keeps_def)

lemma keeps_SomeD:
  "keeps b (Some b1) \<Longrightarrow> buf_ok b1 \<and> rows b1 = rows b \<and> cols b1 = cols b \<and> using_alternate b1 = using_alternate b"
  by (simp add: keeps_def)

lemma keeps_trans: "keeps b (Some b1) \<Longrightarrow> keeps b1 r \<Longrightarrow> keeps b r"
  by (auto simp: keeps_def)

lemma keeps_for_each:
  assumes "buf_ok b" "\<And>x b1. x \<in> set xs \<Longrightarrow> keeps b (Some b1) \<Longrightarrow> keeps b1 (f x b1)"
  shows "keeps b (for_each xs f b)"
proof -
  have "\<exists>b'. for_each xs f b = Some b' \<and> keeps b (Some b')"
    by (rule for_each_keeps) (use assms in \<open>auto simp: keeps_def\<close>)
  then show ?thesis by auto
qed

lemma keeps_bind: "keeps b r \<Longrightarrow> (\<And>b1. keeps b (Some b1) \<Longrightarrow> keeps b (f b1)) \<Longrightarrow> keeps b (Option.bind r f)"
  by (auto simp: keeps_def)

lemma grid_length [simp]: "buf_ok b \<Longrightarrow> length (grid b) = rows b * cols b"
  by (simp add: grid_def buf_ok_def)

lemma grid_put_simps [simp]:
  "rows (grid_put b g) = rows b" "cols (grid_put b g) = cols b" "dirty (grid_put b g) = dirty b"
  "using_alternate (grid_put b g) = using_alternate b" "grid (grid_put b g) = g"
  "scrollback (grid_put b g) = scrollback b"
  by (simp_all add: grid_put_def grid_def)

lemma grid_put_ok: "buf_ok b \<Longrightarrow> length g = rows b * cols b \<Longrightarrow> buf_ok (grid_put b g)"
  by (simp add: grid_put_def buf_ok_def)

lemma mark_dirty_put:
  assumes "buf_ok b" "length g = rows b * cols b" "r < rows b"
  shows "keeps b (mark_dirty r (grid_put b g))"
  using assms by (auto simp: keeps_def mark_dirty_def aset_in buf_ok_def grid_put_def)

lemma buf_set_ok: "buf_ok b \<Longrightarrow> row < rows b \<Longrightarrow> col < cols b \<Longrightarrow> keeps b (buf_set row col c b)"
  by (simp add: buf_set_def aset_in index_less mark_dirty_put)

lemma put_char_ok: "buf_ok b \<Longrightarrow> keeps b (put_char b row col ch fg bg at)"
  by (simp add: put_char_def buf_set_ok)

lemma blank_put_ok:
  assumes "buf_ok b" "r < rows b" "c2 \<le> cols b"
  shows "keeps b (do { g \<leftarrow> blank_cols (r * cols b) c1 c2 (grid b); mark_dirty r (grid_put b g) })"
proof -
  have "r * cols b + c2 \<le> length (grid b)" using mul_add_le [of r "rows b" "cols b"] assms by simp
  then obtain g where "blank_cols (r * cols b) c1 c2 (grid b) = Some g" "length g = length (grid b)"
    using blank_cols_total by blast
  then show ?thesis using assms by (simp add: mark_dirty_put)
qed

lemma blank_all:
  assumes "length g = n"
  shows "blank_cols 0 0 n g = Some (replicate n cell_default)"
proof -
  obtain g' where "blank_cols 0 0 n g = Some g'" "cells_are g' (\<lambda>k. if 0 + 0 \<le> k \<and> k < 0 + n then cell_default else g ! k) n"
    using blank_cols_cells [of 0 n g 0] assms by auto
  then show ?thesis by (auto simp: cells_are_def intro: nth_equalityI)
qed

lemma buf_clear_ok: "buf_ok b \<Longrightarrow> keeps b (buf_clear b)"
  by (auto simp: buf_clear_def cmul64_in blank_all keeps_def mark_all_dirty_def buf_ok_def grid_put_def)

lemma blank_dirty_row_ok: "buf_ok b \<Longrightarrow> r < rows b \<Longrightarrow> keeps b (blank_dirty_row r b)"
  by (simp add: blank_dirty_row_def blank_put_ok)

lemma set_cells_ok:
  "buf_ok b \<Longrightarrow> row < rows b \<Longrightarrow> c2 \<le> cols b \<Longrightarrow> keeps b (for_each [c1..<c2] (\<lambda>c. buf_set row c cell_default) b)"
  by (rule keeps_for_each) (auto dest!: keeps_SomeD intro!: buf_set_ok)

lemma blank_rows_ok: "buf_ok b \<Longrightarrow> r2 \<le> rows b \<Longrightarrow> keeps b (for_each [r1..<r2] blank_dirty_row b)"
  by (rule keeps_for_each) (auto dest!: keeps_SomeD intro!: blank_dirty_row_ok)

lemma clear_below_ok: "buf_ok b \<Longrightarrow> row < rows b \<Longrightarrow> keeps b (clear_below b row col)"
  unfolding clear_below_def
proof (rule keeps_bind [OF set_cells_ok])
  fix b1 assume k: "keeps b (Some b1)"
  show "keeps b (for_each [row + 1..<rows b] blank_dirty_row b1)"
    by (rule keeps_trans [OF k], rule blank_rows_ok) (use k in \<open>auto simp: keeps_def\<close>)
qed auto

lemma clear_above_ok: "buf_ok b \<Longrightarrow> row < rows b \<Longrightarrow> keeps b (clear_above b row col)"
  unfolding clear_above_def
proof (rule keeps_bind [OF blank_rows_ok])
  fix b1 assume k: "keeps b (Some b1)" and r: "row < rows b"
  have b1: "buf_ok b1" "row < rows b1" "1 \<le> cols b1" using k r by (auto simp: keeps_def buf_ok_def)
  then show "keeps b (do { last_col \<leftarrow> csub (cols b1) 1; for_each [0..<min col last_col + 1] (\<lambda>c. buf_set row c cell_default) b1 })"
    by (simp add: csub_in keeps_trans [OF k set_cells_ok] del: upt_Suc)
qed auto

lemma clear_line_ok: "buf_ok b \<Longrightarrow> keeps b (clear_line b row c1 c2)"
  by (simp add: clear_line_def blank_put_ok)

lemma erase_chars_ok: "buf_ok b \<Longrightarrow> keeps b (erase_chars b row col n)"
  by (simp add: erase_chars_def blank_put_ok)

lemma mark_rows:
  assumes "bt \<le> length (dirty b)"
  shows "\<exists>d. for_each [tp..<bt] mark_dirty b = Some (b\<lparr>dirty := d\<rparr>) \<and> length d = length (dirty b)"
proof -
  have "\<exists>b'. for_each [tp..<bt] mark_dirty b = Some b' \<and> (b' = b\<lparr>dirty := dirty b'\<rparr> \<and> length (dirty b') = length (dirty b))"
  proof (rule for_each_keeps)
    fix x s assume x: "x \<in> set [tp..<bt]" and s: "s = b\<lparr>dirty := dirty s\<rparr> \<and> length (dirty s) = length (dirty b)"
    then have "mark_dirty x s = Some (s\<lparr>dirty := (dirty s)[x := True]\<rparr>)" using assms by (simp add: mark_dirty_def aset_in)
    then show "\<exists>s'. mark_dirty x s = Some s' \<and> (s' = b\<lparr>dirty := dirty s'\<rparr> \<and> length (dirty s') = length (dirty b))"
      using s by (metis (no_types, lifting) ScreenBuffer.select_convs(8) ScreenBuffer.surjective ScreenBuffer.update_convs(8) length_list_update)
  qed simp
  then show ?thesis by metis
qed

text \<open>The rows saved by a scroll: the last \<open>scrollback_limit\<close> lines of the old ones followed by the new ones.\<close>

definition buf_row :: "ScreenBuffer \<Rightarrow> nat \<Rightarrow> Cell list" where
  "buf_row b r = take (cols b) (drop (r * cols b) (grid b))"

definition buf_rows :: "ScreenBuffer \<Rightarrow> Cell list list" where
  "buf_rows b = map (buf_row b) [0..<rows b]"

lemma save_rows:
  assumes "buf_ok b" "n \<le> rows b" "\<not> using_alternate b" "0 < scrollback_limit b" "length sb \<le> scrollback_limit b"
  shows "for_each [0..<n] (save_row b) sb =
    Some (drop (length sb + n - scrollback_limit b) (sb @ map (buf_row b) [0..<n]))"
proof -
  have "\<exists>s'. for_each [0..<n] (save_row b) sb = Some s' \<and>
      s' = drop (length sb + n - scrollback_limit b) (sb @ map (buf_row b) [0..<n])"
  proof (rule for_each_up [where I = "\<lambda>i s. s = drop (length sb + i - scrollback_limit b) (sb @ map (buf_row b) [0..<i])"])
    fix i s assume i: "i < n" and s: "s = drop (length sb + i - scrollback_limit b) (sb @ map (buf_row b) [0..<i])"
    have "i * cols b + cols b \<le> length (primary b)"
      using mul_add_le [of i "rows b" "cols b"] i assms by (simp add: buf_ok_def)
    then have "save_row b i s = Some (if length (s @ [buf_row b i]) > scrollback_limit b then tl (s @ [buf_row b i]) else s @ [buf_row b i])"
      using assms(3) by (simp add: save_row_def aslice_in buf_row_def grid_def Let_def)
    then show "\<exists>s'. save_row b i s = Some s' \<and> s' = drop (length sb + Suc i - scrollback_limit b) (sb @ map (buf_row b) [0..<Suc i])"
      using keep_last [of "scrollback_limit b" s "sb @ map (buf_row b) [0..<i]" "buf_row b i"] s assms(4) by simp
  qed (use assms in auto)
  then show ?thesis by blast
qed

lemma save_rows_total:
  assumes "buf_ok b" "n \<le> rows b"
  shows "\<exists>sb'. for_each [0..<n] (save_row b) sb = Some sb'"
proof -
  have "\<exists>sb'. for_each [0..<n] (save_row b) sb = Some sb' \<and> True"
  proof (rule for_each_keeps)
    fix i s assume "i \<in> set [0..<n]"
    then have "i * cols b + cols b \<le> length (primary b)"
      using mul_add_le [of i "rows b" "cols b"] assms by (simp add: buf_ok_def)
    then show "\<exists>s'. save_row b i s = Some s' \<and> True" by (simp add: save_row_def aslice_in Let_def)
  qed simp
  then show ?thesis by blast
qed

lemma scroll_up_grid:
  assumes "buf_ok b" "tp < bt" "bt \<le> rows b" "n \<le> bt - tp" "w = cols b"
  shows "\<exists>g1 g2. for_each [tp..<bt - n] (\<lambda>r. copy_cols w (r * w) ((r + n) * w)) (grid b) = Some g1 \<and>
    for_each [bt - n..<bt] (\<lambda>r. blank_cols (r * w) 0 w) g1 = Some g2 \<and>
    cells_are g2 (\<lambda>k. if (bt - n) * w \<le> k \<and> k < bt * w then cell_default
      else if tp * w \<le> k \<and> k < (bt - n) * w then grid b ! (k + n * w) else grid b ! k) (rows b * cols b)"
proof -
  have le: "bt * w \<le> rows b * cols b" "tp \<le> bt - n" "bt - n + n = bt" using assms by (auto intro: mult_le_mono1)
  obtain g1 where g1: "for_each [tp..<bt - n] (\<lambda>r. copy_cols w (r * w) ((r + n) * w)) (grid b) = Some g1"
    "cells_are g1 (\<lambda>k. if tp * w \<le> k \<and> k < (bt - n) * w then grid b ! (k + n * w) else grid b ! k) (rows b * cols b)"
    using rows_up_cells [of tp "bt - n" n w "grid b"] assms le by auto
  obtain g2 where g2: "for_each [bt - n..<bt] (\<lambda>r. blank_cols (r * w) 0 w) g1 = Some g2"
    "cells_are g2 (\<lambda>k. if (bt - n) * w \<le> k \<and> k < bt * w then cell_default else g1 ! k) (rows b * cols b)"
    using rows_blank_cells [of "bt - n" bt w g1] cells_are_length [OF g1(2)] le by auto
  have "cells_are g2 (\<lambda>k. if (bt - n) * w \<le> k \<and> k < bt * w then cell_default
      else if tp * w \<le> k \<and> k < (bt - n) * w then grid b ! (k + n * w) else grid b ! k) (rows b * cols b)"
    by (rule cells_are_cong [OF g2(2)]) (simp add: cells_are_nth [OF g1(2)])
  with g1 g2 show ?thesis by blast
qed

lemma scroll_down_grid:
  assumes "buf_ok b" "tp < bt" "bt \<le> rows b" "n \<le> bt - tp" "w = cols b"
  shows "\<exists>g1 g2. for_each (rev [tp + n..<bt]) (\<lambda>r g. do { s \<leftarrow> csub r n; copy_cols w (r * w) (s * w) g }) (grid b) = Some g1 \<and>
    for_each [tp..<tp + n] (\<lambda>r. blank_cols (r * w) 0 w) g1 = Some g2 \<and>
    cells_are g2 (\<lambda>k. if tp * w \<le> k \<and> k < (tp + n) * w then cell_default
      else if (tp + n) * w \<le> k \<and> k < bt * w then grid b ! (k - n * w) else grid b ! k) (rows b * cols b)"
proof -
  have le: "bt * w \<le> rows b * cols b" "(tp + n) * w \<le> rows b * cols b" "tp + n \<le> bt"
    using assms by (auto intro!: mult_le_mono1)
  obtain g1 where g1: "for_each (rev [tp + n..<bt]) (\<lambda>r g. do { s \<leftarrow> csub r n; copy_cols w (r * w) (s * w) g }) (grid b) = Some g1"
    "cells_are g1 (\<lambda>k. if (tp + n) * w \<le> k \<and> k < bt * w then grid b ! (k - n * w) else grid b ! k) (rows b * cols b)"
    using rows_down_cells [of n "tp + n" bt w "grid b"] assms le by auto
  obtain g2 where g2: "for_each [tp..<tp + n] (\<lambda>r. blank_cols (r * w) 0 w) g1 = Some g2"
    "cells_are g2 (\<lambda>k. if tp * w \<le> k \<and> k < (tp + n) * w then cell_default else g1 ! k) (rows b * cols b)"
    using rows_blank_cells [of tp "tp + n" w g1] cells_are_length [OF g1(2)] le by auto
  have "cells_are g2 (\<lambda>k. if tp * w \<le> k \<and> k < (tp + n) * w then cell_default
      else if (tp + n) * w \<le> k \<and> k < bt * w then grid b ! (k - n * w) else grid b ! k) (rows b * cols b)"
    by (rule cells_are_cong [OF g2(2)]) (simp add: cells_are_nth [OF g1(2)])
  with g1 g2 show ?thesis by blast
qed

lemma finish_scroll:
  assumes "buf_ok b" "length g = rows b * cols b" "bt \<le> rows b"
  shows "\<exists>b'. for_each [tp..<bt] mark_dirty (grid_put (b\<lparr>scrollback := sb\<rparr>) g) = Some b' \<and> keeps b (Some b')
    \<and> grid b' = g \<and> scrollback b' = sb"
proof -
  obtain d where "for_each [tp..<bt] mark_dirty (grid_put (b\<lparr>scrollback := sb\<rparr>) g) = Some ((grid_put (b\<lparr>scrollback := sb\<rparr>) g)\<lparr>dirty := d\<rparr>)"
    "length d = rows b"
    using mark_rows [of bt "grid_put (b\<lparr>scrollback := sb\<rparr>) g" tp] assms by (auto simp: buf_ok_def)
  then show ?thesis using assms by (auto simp: keeps_def buf_ok_def grid_put_def grid_def)
qed

text \<open>What a scroll inside the region does, before the rows are read off the cells.\<close>

lemma scroll_up_eq:
  assumes "buf_ok b" "tp < bt" "bt \<le> rows b" "n \<le> bt - tp" "w = cols b"
  shows "\<exists>b' sb. scroll_up b n tp bt = Some b' \<and> keeps b (Some b') \<and> scrollback b' = sb \<and>
    (if \<not> using_alternate b \<and> tp = 0 \<and> scrollback_limit b > 0
     then for_each [0..<n] (save_row b) (scrollback b) else Some (scrollback b)) = Some sb \<and>
    cells_are (grid b') (\<lambda>k. if (bt - n) * w \<le> k \<and> k < bt * w then cell_default
      else if tp * w \<le> k \<and> k < (bt - n) * w then grid b ! (k + n * w) else grid b ! k) (rows b * cols b)"
proof -
  obtain sb where sb: "(if \<not> using_alternate b \<and> tp = 0 \<and> scrollback_limit b > 0
     then for_each [0..<n] (save_row b) (scrollback b) else Some (scrollback b)) = Some sb"
    using save_rows_total [of b n "scrollback b"] assms by (cases "\<not> using_alternate b \<and> tp = 0 \<and> scrollback_limit b > 0") auto
  obtain g1 g2 where g: "for_each [tp..<bt - n] (\<lambda>r. copy_cols w (r * w) ((r + n) * w)) (grid b) = Some g1"
    "for_each [bt - n..<bt] (\<lambda>r. blank_cols (r * w) 0 w) g1 = Some g2"
    and c: "cells_are g2 (\<lambda>k. if (bt - n) * w \<le> k \<and> k < bt * w then cell_default
      else if tp * w \<le> k \<and> k < (bt - n) * w then grid b ! (k + n * w) else grid b ! k) (rows b * cols b)"
    using scroll_up_grid [OF assms] by blast
  obtain b' where b': "for_each [tp..<bt] mark_dirty (grid_put (b\<lparr>scrollback := sb\<rparr>) g2) = Some b'"
    "keeps b (Some b')" "grid b' = g2" "scrollback b' = sb"
    using finish_scroll [OF assms(1) cells_are_length [OF c] assms(3)] by blast
  have "min tp (rows b - Suc 0) = tp" "min bt (rows b) = bt" "min n (bt - tp) = n" "0 < rows b"
    using assms by (auto simp: buf_ok_def)
  then have "scroll_up b n tp bt = Some b'"
    using sb g b'(1) assms(2,5) by (simp add: scroll_up_def csub_in Let_def del: upt_Suc)
  with b' sb c show ?thesis by blast
qed

lemma scroll_down_eq:
  assumes "buf_ok b" "tp < bt" "bt \<le> rows b" "n \<le> bt - tp" "w = cols b"
  shows "\<exists>b'. scroll_down b n tp bt = Some b' \<and> keeps b (Some b') \<and> scrollback b' = scrollback b \<and>
    cells_are (grid b') (\<lambda>k. if tp * w \<le> k \<and> k < (tp + n) * w then cell_default
      else if (tp + n) * w \<le> k \<and> k < bt * w then grid b ! (k - n * w) else grid b ! k) (rows b * cols b)"
proof -
  obtain g1 g2 where g: "for_each (rev [tp + n..<bt]) (\<lambda>r g. do { s \<leftarrow> csub r n; copy_cols w (r * w) (s * w) g }) (grid b) = Some g1"
    "for_each [tp..<tp + n] (\<lambda>r. blank_cols (r * w) 0 w) g1 = Some g2"
    and c: "cells_are g2 (\<lambda>k. if tp * w \<le> k \<and> k < (tp + n) * w then cell_default
      else if (tp + n) * w \<le> k \<and> k < bt * w then grid b ! (k - n * w) else grid b ! k) (rows b * cols b)"
    using scroll_down_grid [OF assms] by blast
  obtain b' where b': "for_each [tp..<bt] mark_dirty (grid_put b g2) = Some b'"
    "keeps b (Some b')" "grid b' = g2" "scrollback b' = scrollback b"
    using finish_scroll [OF assms(1) cells_are_length [OF c] assms(3), of tp "scrollback b"] by auto
  have "min tp (rows b - Suc 0) = tp" "min bt (rows b) = bt" "min n (bt - tp) = n" "0 < rows b"
    using assms by (auto simp: buf_ok_def)
  then have "scroll_down b n tp bt = Some b'"
    using g b'(1) assms(2,5) by (simp add: scroll_down_def csub_in Let_def del: upt_Suc)
  with b' c show ?thesis by blast
qed

lemma scroll_up_clamp:
  "buf_ok b \<Longrightarrow> scroll_up b n tp bt = scroll_up b (min n (min bt (rows b) - min tp (rows b - 1))) (min tp (rows b - 1)) (min bt (rows b))"
  by (simp add: scroll_up_def csub_def buf_ok_def Let_def)

lemma scroll_down_clamp:
  "buf_ok b \<Longrightarrow> scroll_down b n tp bt = scroll_down b (min n (min bt (rows b) - min tp (rows b - 1))) (min tp (rows b - 1)) (min bt (rows b))"
  by (simp add: scroll_down_def csub_def buf_ok_def Let_def)

lemma scroll_up_ok:
  assumes "buf_ok b"
  shows "keeps b (scroll_up b n tp bt)"
proof (cases "min tp (rows b - 1) < min bt (rows b)")
  case True
  then show ?thesis using scroll_up_eq [OF assms True, of "min n (min bt (rows b) - min tp (rows b - 1))"]
    by (subst scroll_up_clamp [OF assms]) auto
next
  case False
  then have "min bt (rows b) \<le> min tp (rows b - 1)" by linarith
  moreover have "csub (rows b) 1 = Some (rows b - 1)" using assms by (simp add: csub_in buf_ok_def)
  ultimately have "scroll_up b n tp bt = Some b" by (simp only: scroll_up_def Let_def bind.simps if_True)
  then show ?thesis using assms by simp
qed

lemma scroll_down_ok:
  assumes "buf_ok b"
  shows "keeps b (scroll_down b n tp bt)"
proof (cases "min tp (rows b - 1) < min bt (rows b)")
  case True
  then show ?thesis using scroll_down_eq [OF assms True, of "min n (min bt (rows b) - min tp (rows b - 1))"]
    by (subst scroll_down_clamp [OF assms]) auto
next
  case False
  then have "min bt (rows b) \<le> min tp (rows b - 1)" by linarith
  moreover have "csub (rows b) 1 = Some (rows b - 1)" using assms by (simp add: csub_in buf_ok_def)
  ultimately have "scroll_down b n tp bt = Some b" by (simp only: scroll_down_def Let_def bind.simps if_True)
  then show ?thesis using assms by simp
qed

lemma insert_lines_ok: "buf_ok b \<Longrightarrow> keeps b (insert_lines b row n bt)"
  by (simp add: insert_lines_def scroll_down_ok)

lemma delete_lines_ok: "buf_ok b \<Longrightarrow> keeps b (delete_lines b row n bt)"
  by (simp add: delete_lines_def scroll_up_ok)

lemma insert_chars_ok:
  assumes "buf_ok b"
  shows "keeps b (insert_chars b row col n)"
proof (cases "row \<ge> rows b \<or> col \<ge> cols b")
  case False
  let ?f = "\<lambda>c g. do { s \<leftarrow> csub (row * cols b + c) n; v \<leftarrow> aget g s; aset g (row * cols b + c) v }"
  have in_row: "row * cols b + cols b \<le> rows b * cols b" using False by (auto intro: mul_add_le)
  have "\<exists>g1. for_each (rev [col + n..<cols b]) ?f (grid b) = Some g1 \<and> length g1 = rows b * cols b"
    by (rule for_each_keeps) (use in_row assms in \<open>auto simp: csub_in aget_in aset_in\<close>)
  then obtain g1 where g1: "for_each (rev [col + n..<cols b]) ?f (grid b) = Some g1" "length g1 = rows b * cols b" by blast
  have "row * cols b + min (col + n) (cols b) \<le> length g1" using in_row g1(2) by linarith
  then obtain g2 where "blank_cols (row * cols b) col (min (col + n) (cols b)) g1 = Some g2" "length g2 = rows b * cols b"
    using blank_cols_total g1(2) by metis
  then show ?thesis using False g1(1) assms by (simp add: insert_chars_def Let_def mark_dirty_put)
qed (use assms in \<open>simp add: insert_chars_def\<close>)

lemma delete_chars_ok:
  assumes "buf_ok b"
  shows "keeps b (delete_chars b row col n)"
proof (cases "row \<ge> rows b \<or> col \<ge> cols b")
  case False
  have in_row: "row * cols b + cols b \<le> rows b * cols b" using False by (auto intro: mul_add_le)
  have "\<exists>g. for_each [col..<cols b] (\<lambda>c g. if c + n < cols b then do { v \<leftarrow> aget g (row * cols b + c + n); aset g (row * cols b + c) v }
      else aset g (row * cols b + c) cell_default) (grid b) = Some g \<and> length g = rows b * cols b"
    by (rule for_each_keeps) (use in_row assms in \<open>auto simp: aget_in aset_in\<close>)
  then show ?thesis using False assms by (auto simp: delete_chars_def Let_def mark_dirty_put)
qed (use assms in \<open>simp add: delete_chars_def\<close>)

lemma enable_alternate_ok:
  "buf_ok b \<Longrightarrow> \<exists>b'. enable_alternate b = Some b' \<and> buf_ok b' \<and> rows b' = rows b \<and> cols b' = cols b"
  by (auto simp: enable_alternate_def cmul64_in buf_ok_def blank_all mark_all_dirty_def)

lemma disable_alternate_ok:
  "buf_ok b \<Longrightarrow> buf_ok (disable_alternate b) \<and> rows (disable_alternate b) = rows b \<and> cols (disable_alternate b) = cols b"
  by (auto simp: disable_alternate_def buf_ok_def mark_all_dirty_def)

lemma resize_grid_total:
  assumes "length old = r * c"
  shows "\<exists>g. resize_grid r c new_r new_c (new_r * new_c) old = Some g \<and> length g = new_r * new_c"
  unfolding resize_grid_def
proof (rule for_each_keeps)
  fix i g assume i: "i \<in> set [0..<min r new_r]" and g: "length (g :: Cell list) = new_r * new_c"
  then have "i * c + c \<le> r * c" "i * new_c + new_c \<le> new_r * new_c" by (auto intro: mul_add_le)
  then show "\<exists>s'. for_each [0..<min c new_c] (\<lambda>j g. do { v \<leftarrow> aget old (i * c + j); aset g (i * new_c + j) v }) g = Some s'
      \<and> length s' = new_r * new_c"
    by (intro for_each_keeps) (use g assms in \<open>auto simp: aget_in aset_in\<close>)
qed simp

lemma buf_resize_ok:
  assumes "buf_ok b" "0 < new_r" "0 < new_c" "new_r * new_c < 2 ^ 58"
  shows "\<exists>b'. buf_resize b new_r new_c = Some b' \<and> buf_ok b' \<and> rows b' = new_r \<and> cols b' = new_c"
proof -
  obtain p a where "resize_grid (rows b) (cols b) new_r new_c (new_r * new_c) (primary b) = Some p" "length p = new_r * new_c"
    "resize_grid (rows b) (cols b) new_r new_c (new_r * new_c) (alternate b) = Some a" "length a = new_r * new_c"
    using resize_grid_total assms(1) unfolding buf_ok_def by meson
  then show ?thesis using assms by (simp add: buf_resize_def cmul64_in buf_ok_def)
qed

lemmas buf_ops_ok = put_char_ok buf_clear_ok clear_below_ok clear_above_ok clear_line_ok erase_chars_ok scroll_up_ok
  scroll_down_ok insert_lines_ok delete_lines_ok insert_chars_ok delete_chars_ok

section \<open>Properties\<close>

lemma buf_row_length: "buf_ok b \<Longrightarrow> r < rows b \<Longrightarrow> length (buf_row b r) = cols b"
  using mul_add_le [of r "rows b" "cols b"] by (simp add: buf_row_def)

lemma buf_row_nth: "buf_ok b \<Longrightarrow> r < rows b \<Longrightarrow> c < cols b \<Longrightarrow> buf_row b r ! c = grid b ! (r * cols b + c)"
  using mul_add_le [of r "rows b" "cols b"] by (simp add: buf_row_def)

lemma buf_row_eqI:
  "buf_ok b' \<Longrightarrow> cols b' = cols b \<Longrightarrow> r < rows b' \<Longrightarrow> length xs = cols b \<Longrightarrow>
   (\<And>c. c < cols b \<Longrightarrow> grid b' ! (r * cols b + c) = xs ! c) \<Longrightarrow> buf_row b' r = xs"
  by (rule nth_equalityI) (simp_all add: buf_row_length buf_row_nth)

text \<open>scrolling a region up by \<open>n\<close> lines, done in place cell by cell, moves its lines up by
  exactly \<open>n\<close>, blanks the lines freed at the bottom and leaves the rest of the screen alone; lines
  that leave the top of the primary screen go to the scrollback, which keeps the newest ones up to
  its limit.\<close>

theorem scroll_up_rows:
  assumes "buf_ok b" "tp < bt" "bt \<le> rows b" "n \<le> bt - tp" "length (scrollback b) \<le> scrollback_limit b"
  shows "\<exists>b'. scroll_up b n tp bt = Some b' \<and> buf_ok b' \<and>
    buf_rows b' = take tp (buf_rows b) @ drop (tp + n) (take bt (buf_rows b))
      @ replicate n (replicate (cols b) cell_default) @ drop bt (buf_rows b) \<and>
    scrollback b' = (if \<not> using_alternate b \<and> tp = 0
      then drop (length (scrollback b) + n - scrollback_limit b) (scrollback b @ take n (buf_rows b))
      else scrollback b)"
proof -
  define w where "w = cols b"
  obtain b' sb where b': "scroll_up b n tp bt = Some b'" "keeps b (Some b')" "scrollback b' = sb"
    and sb: "(if \<not> using_alternate b \<and> tp = 0 \<and> scrollback_limit b > 0
     then for_each [0..<n] (save_row b) (scrollback b) else Some (scrollback b)) = Some sb"
    and c: "cells_are (grid b') (\<lambda>k. if (bt - n) * w \<le> k \<and> k < bt * w then cell_default
      else if tp * w \<le> k \<and> k < (bt - n) * w then grid b ! (k + n * w) else grid b ! k) (rows b * cols b)"
    using scroll_up_eq [OF assms(1-4) w_def] by blast
  have ok: "buf_ok b'" "rows b' = rows b" "cols b' = cols b" using keeps_SomeD [OF b'(2)] by auto
  have cell: "grid b' ! (r * w + j) = (if bt - n \<le> r \<and> r < bt then cell_default
      else if tp \<le> r \<and> r < bt - n then grid b ! ((r + n) * w + j) else grid b ! (r * w + j))"
    if "r < rows b" "j < w" for r j
  proof -
    have k: "r * w + j < rows b * cols b" "r * w + j + n * w = (r + n) * w + j"
      using index_less [OF that] by (simp_all add: w_def add_mult_distrib)
    show ?thesis using cells_are_nth [OF c k(1)] by (simp only: index_le_iff [OF that(2)] index_less_iff [OF that(2)] k(2))
  qed
  have row: "buf_row b' r = (if bt - n \<le> r \<and> r < bt then replicate (cols b) cell_default
      else if tp \<le> r \<and> r < bt - n then buf_row b (r + n) else buf_row b r)" if "r < rows b" for r
    by (rule buf_row_eqI [of b' b]) (use that ok assms cell [OF that] in \<open>auto simp: buf_row_nth buf_row_length w_def\<close>)
  have "buf_rows b' = take tp (buf_rows b) @ drop (tp + n) (take bt (buf_rows b))
      @ replicate n (replicate (cols b) cell_default) @ drop bt (buf_rows b)"
    by (rule nth_equalityI) (use assms ok row in \<open>auto simp: buf_rows_def nth_append add.commute\<close>)
  moreover have "take n (buf_rows b) = map (buf_row b) [0..<n]" using assms by (simp add: buf_rows_def take_map)
  moreover have "n \<le> rows b" using assms by simp
  ultimately show ?thesis
    using b' ok sb assms(1,5) save_rows [of b n "scrollback b"] by (auto split: if_splits)
qed

theorem scroll_up_rows_witness:
  "\<exists>b b'. buf_new 3 2 = Some b \<and> scroll_up b 1 0 3 = Some b' \<and> buf_ok b' \<and> scrollback b' = [replicate 2 cell_default]"
  using scroll_up_rows [of "the (buf_new 3 2)" 0 3 1]
  by (auto simp: buf_new_def cmul64_def buf_ok_def buf_rows_def buf_row_def grid_def take_map)

end
