(* ===== verification/VtCursor.thy ===== *)
theory VtCursor imports RPrelude begin

text \<open>
  \<open>terminal/src/cursor.rs\<close>: the cursor with its scroll region. Positions are bounded by the screen
  size, so sums stay far below the width of \<open>usize\<close>; the subtractions that could underflow are
  checked.
\<close>

record Cursor =
  crow :: nat
  ccol :: nat
  visible :: bool
  saved_row :: nat
  saved_col :: nat
  scroll_top :: nat
  scroll_bottom :: nat
  max_rows :: nat
  max_cols :: nat
  wrap_pending :: bool

definition cursor_new :: "nat \<Rightarrow> nat \<Rightarrow> Cursor" where
  "cursor_new r c = \<lparr>crow = 0, ccol = 0, visible = True, saved_row = 0, saved_col = 0, scroll_top = 0,
     scroll_bottom = r, max_rows = r, max_cols = c, wrap_pending = False\<rparr>"

definition move_up :: "Cursor \<Rightarrow> nat \<Rightarrow> Cursor" where
  "move_up c n =
     (let r = crow c - n; r = (if r < scroll_top c then scroll_top c else r) in
      c\<lparr>crow := r, wrap_pending := False\<rparr>)"

definition move_down :: "Cursor \<Rightarrow> nat \<Rightarrow> Cursor option" where
  "move_down c n = do {
     m \<leftarrow> csub (scroll_bottom c) 1;
     Some (c\<lparr>crow := min (crow c + n) m, wrap_pending := False\<rparr>) }"

definition move_forward :: "Cursor \<Rightarrow> nat \<Rightarrow> Cursor option" where
  "move_forward c n = do {
     m \<leftarrow> csub (max_cols c) 1;
     Some (c\<lparr>ccol := min (ccol c + n) m, wrap_pending := False\<rparr>) }"

definition move_back :: "Cursor \<Rightarrow> nat \<Rightarrow> Cursor" where
  "move_back c n = c\<lparr>ccol := ccol c - n, wrap_pending := False\<rparr>"

definition set_position :: "Cursor \<Rightarrow> nat \<Rightarrow> nat \<Rightarrow> Cursor option" where
  "set_position c row col = do {
     mr \<leftarrow> csub (max_rows c) 1;
     mc \<leftarrow> csub (max_cols c) 1;
     Some (c\<lparr>crow := min (row - 1) mr, ccol := min (col - 1) mc, wrap_pending := False\<rparr>) }"

definition carriage_return :: "Cursor \<Rightarrow> Cursor" where
  "carriage_return c = c\<lparr>ccol := 0, wrap_pending := False\<rparr>"

definition line_feed :: "Cursor \<Rightarrow> bool \<times> Cursor" where
  "line_feed c =
     (let c = c\<lparr>wrap_pending := False\<rparr> in
      if crow c + 1 \<ge> scroll_bottom c then (True, c) else (False, c\<lparr>crow := crow c + 1\<rparr>))"

definition reverse_index :: "Cursor \<Rightarrow> bool \<times> Cursor" where
  "reverse_index c =
     (let c = c\<lparr>wrap_pending := False\<rparr> in
      if crow c \<le> scroll_top c then (True, c) else (False, c\<lparr>crow := crow c - 1\<rparr>))"

definition advance_after_print :: "Cursor \<Rightarrow> (bool \<times> bool) \<times> Cursor" where
  "advance_after_print c =
     (if ccol c + 1 \<ge> max_cols c then ((False, False), c\<lparr>wrap_pending := True\<rparr>)
      else ((False, False), c\<lparr>ccol := ccol c + 1\<rparr>))"

definition do_wrap :: "Cursor \<Rightarrow> bool \<times> Cursor" where
  "do_wrap c = line_feed (c\<lparr>wrap_pending := False, ccol := 0\<rparr>)"

definition backspace :: "Cursor \<Rightarrow> Cursor" where
  "backspace c = c\<lparr>ccol := (if ccol c > 0 then ccol c - 1 else ccol c), wrap_pending := False\<rparr>"

definition tab :: "Cursor \<Rightarrow> Cursor option" where
  "tab c = (let col = (ccol c div 8 + 1) * 8 in do {
     col' \<leftarrow> (if col \<ge> max_cols c then csub (max_cols c) 1 else Some col);
     Some (c\<lparr>ccol := col', wrap_pending := False\<rparr>) })"

definition cursor_save :: "Cursor \<Rightarrow> Cursor" where
  "cursor_save c = c\<lparr>saved_row := crow c, saved_col := ccol c\<rparr>"

definition cursor_restore :: "Cursor \<Rightarrow> Cursor option" where
  "cursor_restore c = do {
     mr \<leftarrow> csub (max_rows c) 1;
     mc \<leftarrow> csub (max_cols c) 1;
     Some (c\<lparr>crow := min (saved_row c) mr, ccol := min (saved_col c) mc, wrap_pending := False\<rparr>) }"

definition set_scroll_region :: "Cursor \<Rightarrow> nat \<Rightarrow> nat \<Rightarrow> Cursor" where
  "set_scroll_region c tp bt =
     (let tp = tp - 1; bt = (if bt = 0 then max_rows c else min bt (max_rows c)) in
      if tp < bt then c\<lparr>scroll_top := tp, scroll_bottom := bt, crow := tp, ccol := 0, wrap_pending := False\<rparr>
      else c)"

definition reset_scroll_region :: "Cursor \<Rightarrow> Cursor" where
  "reset_scroll_region c = c\<lparr>scroll_top := 0, scroll_bottom := max_rows c\<rparr>"

definition cursor_resize :: "Cursor \<Rightarrow> nat \<Rightarrow> nat \<Rightarrow> Cursor" where
  "cursor_resize c r w =
     c\<lparr>max_rows := r, max_cols := w, scroll_top := 0, scroll_bottom := r,
       crow := min (crow c) (r - 1), ccol := min (ccol c) (w - 1), wrap_pending := False\<rparr>"

section \<open>Invariant\<close>

text \<open>On screen, with a non-empty scroll region inside the screen; a pending wrap only in the last column.\<close>

definition cur_ok :: "Cursor \<Rightarrow> bool" where [inv_defs]:
  "cur_ok c \<longleftrightarrow> crow c < max_rows c \<and> ccol c < max_cols c \<and> scroll_top c < scroll_bottom c
     \<and> scroll_bottom c \<le> max_rows c \<and> (wrap_pending c \<longrightarrow> ccol c + 1 = max_cols c)"

definition cur_fits :: "nat \<Rightarrow> nat \<Rightarrow> Cursor \<Rightarrow> bool" where [inv_defs]:
  "cur_fits r w c \<longleftrightarrow> cur_ok c \<and> max_rows c = r \<and> max_cols c = w"

named_theorems cursor_defs

lemmas cursor_op_defs [cursor_defs] = move_up_def move_down_def move_forward_def move_back_def set_position_def
  carriage_return_def line_feed_def reverse_index_def advance_after_print_def do_wrap_def backspace_def tab_def
  cursor_save_def cursor_restore_def set_scroll_region_def reset_scroll_region_def cursor_resize_def cursor_new_def

lemma cursor_new_fits: "0 < r \<Longrightarrow> 0 < w \<Longrightarrow> cur_fits r w (cursor_new r w)"
  by (simp add: cursor_defs inv_defs)

lemma cursor_total_ops:
  assumes "cur_fits r w c"
  shows "cur_fits r w (move_up c n)" "cur_fits r w (move_back c n)" "cur_fits r w (carriage_return c)"
    "cur_fits r w (snd (line_feed c))" "cur_fits r w (snd (reverse_index c))" "cur_fits r w (snd (advance_after_print c))"
    "cur_fits r w (snd (do_wrap c))" "cur_fits r w (backspace c)" "cur_fits r w (cursor_save c)"
    "cur_fits r w (set_scroll_region c tp bt)" "cur_fits r w (reset_scroll_region c)" "cur_fits r w (c\<lparr>visible := v\<rparr>)"
  using assms by (auto simp: cursor_defs inv_defs Let_def)

lemma cursor_partial_ops:
  assumes "cur_fits r w c"
  shows "\<exists>c'. move_down c n = Some c' \<and> cur_fits r w c'" "\<exists>c'. move_forward c n = Some c' \<and> cur_fits r w c'"
    "\<exists>c'. set_position c a b = Some c' \<and> cur_fits r w c'" "\<exists>c'. tab c = Some c' \<and> cur_fits r w c'"
    "\<exists>c'. cursor_restore c = Some c' \<and> cur_fits r w c'"
  using assms by (auto simp: cursor_defs inv_defs Let_def csub_def)

lemma cursor_resize_fits: "0 < r \<Longrightarrow> 0 < w \<Longrightarrow> cur_fits r w (cursor_resize c r w)"
  by (auto simp: cursor_defs inv_defs)

end
