(* ===== verification/VtParser.thy ===== *)
theory VtParser imports RPrelude begin

text \<open>
  \<open>terminal/src/escape.rs\<close>: the escape sequence parser, a state machine fed one byte at a time.
  Parameters are \<open>u16\<close> values with saturating arithmetic, written as natural numbers; strings are
  their UTF-8 bytes, and \<open>from_utf8\<close> is the standard library's validation.
\<close>

datatype State = Ground | Escape | CsiEntry | CsiParam | OscString

datatype Action = Print nat | Execute byte | CsiDispatch "nat list" "byte list" byte bool
  | OscDispatch "byte list" | EscDispatch byte

record EscParser =
  pstate :: State
  params_buf :: "byte list"
  intermediates :: "byte list"
  priv :: bool
  osc_buf :: "byte list"

definition parser_new :: EscParser where
  "parser_new = \<lparr>pstate = Ground, params_buf = [], intermediates = [], priv = False, osc_buf = []\<rparr>"

definition cont_byte :: "byte \<Rightarrow> bool" where
  "cont_byte b \<longleftrightarrow> 0x80 \<le> b \<and> b \<le> 0xBF"

fun utf8_valid :: "byte list \<Rightarrow> bool" where
  "utf8_valid [] = True"
| "utf8_valid (b # bs) =
     (if b < 0x80 then utf8_valid bs
      else if 0xC2 \<le> b \<and> b \<le> 0xDF then (case bs of c1 # r \<Rightarrow> cont_byte c1 \<and> utf8_valid r | _ \<Rightarrow> False)
      else if 0xE0 \<le> b \<and> b \<le> 0xEF then
        (case bs of c1 # c2 # r \<Rightarrow> cont_byte c1 \<and> cont_byte c2 \<and> (b = 0xE0 \<longrightarrow> 0xA0 \<le> c1) \<and> (b = 0xED \<longrightarrow> c1 \<le> 0x9F)
            \<and> utf8_valid r | _ \<Rightarrow> False)
      else if 0xF0 \<le> b \<and> b \<le> 0xF4 then
        (case bs of c1 # c2 # c3 # r \<Rightarrow> cont_byte c1 \<and> cont_byte c2 \<and> cont_byte c3 \<and> (b = 0xF0 \<longrightarrow> 0x90 \<le> c1)
            \<and> (b = 0xF4 \<longrightarrow> c1 \<le> 0x8F) \<and> utf8_valid r | _ \<Rightarrow> False)
      else False)"

definition str_or_empty :: "byte list \<Rightarrow> byte list" where
  "str_or_empty bs = (if utf8_valid bs then bs else [])"

definition U16_MAX :: nat where "U16_MAX = 65535"

text \<open>The loop of \<open>parse_params\<close>: numbers so far, the current one, and whether it has a digit.\<close>

fun params_loop :: "byte list \<Rightarrow> nat list \<Rightarrow> nat \<Rightarrow> bool \<Rightarrow> nat list" where
  "params_loop [] result current has_current = result @ [if has_current then current else 0]"
| "params_loop (b # bs) result current has_current =
     (if b = 0x3B then params_loop bs (result @ [if has_current then current else 0]) 0 False
      else if 0x30 \<le> b \<and> b \<le> 0x39 then
        params_loop bs result (min (min (current * 10) U16_MAX + unat (b - 0x30)) U16_MAX) True
      else params_loop bs result current has_current)"

definition parse_params :: "EscParser \<Rightarrow> nat list" where
  "parse_params p = (if params_buf p = [] then [] else params_loop (params_buf p) [] 0 False)"

definition dispatch_csi :: "EscParser \<Rightarrow> byte \<Rightarrow> Action" where
  "dispatch_csi p b = CsiDispatch (parse_params p) (intermediates p) b (priv p)"

definition ground :: "EscParser \<Rightarrow> byte \<Rightarrow> Action option \<times> EscParser" where
  "ground p b =
     (if b = 0x1B then (None, p\<lparr>pstate := Escape\<rparr>)
      else if b \<le> 0x1F then (Some (Execute b), p)
      else if b = 0x7F then (None, p)
      else (Some (Print (unat b)), p))"

definition escape :: "EscParser \<Rightarrow> byte \<Rightarrow> Action option \<times> EscParser" where
  "escape p b =
     (if b = 0x5B then (None, p\<lparr>pstate := CsiEntry, params_buf := [], intermediates := [], priv := False\<rparr>)
      else if b = 0x5D then (None, p\<lparr>pstate := OscString, osc_buf := []\<rparr>)
      else if b \<in> {0x63, 0x37, 0x38, 0x44, 0x45, 0x4D} then (Some (EscDispatch b), p\<lparr>pstate := Ground\<rparr>)
      else if b = 0x1B then (None, p)
      else (Some (EscDispatch b), p\<lparr>pstate := Ground\<rparr>))"

definition param_byte :: "byte \<Rightarrow> bool" where
  "param_byte b \<longleftrightarrow> (0x30 \<le> b \<and> b \<le> 0x39) \<or> b = 0x3B"

definition csi_entry :: "EscParser \<Rightarrow> byte \<Rightarrow> Action option \<times> EscParser" where
  "csi_entry p b =
     (if b = 0x3F then (None, p\<lparr>priv := True, pstate := CsiParam\<rparr>)
      else if param_byte b then (None, p\<lparr>params_buf := params_buf p @ [b], pstate := CsiParam\<rparr>)
      else if 0x40 \<le> b \<and> b \<le> 0x7E then (Some (dispatch_csi p b), p\<lparr>pstate := Ground\<rparr>)
      else if 0x20 \<le> b \<and> b \<le> 0x2F then (None, p\<lparr>intermediates := intermediates p @ [b], pstate := CsiParam\<rparr>)
      else if b = 0x1B then (None, p\<lparr>pstate := Escape\<rparr>)
      else (None, p\<lparr>pstate := Ground\<rparr>))"

definition csi_param :: "EscParser \<Rightarrow> byte \<Rightarrow> Action option \<times> EscParser" where
  "csi_param p b =
     (if param_byte b then (None, if length (params_buf p) < 64 then p\<lparr>params_buf := params_buf p @ [b]\<rparr> else p)
      else if 0x20 \<le> b \<and> b \<le> 0x2F then (None, p\<lparr>intermediates := intermediates p @ [b]\<rparr>)
      else if 0x40 \<le> b \<and> b \<le> 0x7E then (Some (dispatch_csi p b), p\<lparr>pstate := Ground\<rparr>)
      else if b = 0x1B then (None, p\<lparr>pstate := Escape\<rparr>)
      else (None, p\<lparr>pstate := Ground\<rparr>))"

definition osc_string :: "EscParser \<Rightarrow> byte \<Rightarrow> Action option \<times> EscParser" where
  "osc_string p b =
     (if b = 0x07 then (Some (OscDispatch (str_or_empty (osc_buf p))), p\<lparr>pstate := Ground\<rparr>)
      else if b = 0x1B then (Some (OscDispatch (str_or_empty (osc_buf p))), p\<lparr>pstate := Ground\<rparr>)
      else (None, if length (osc_buf p) < 256 then p\<lparr>osc_buf := osc_buf p @ [b]\<rparr> else p))"

definition parser_feed :: "EscParser \<Rightarrow> byte \<Rightarrow> Action option \<times> EscParser" where
  "parser_feed p b = (case pstate p of
     Ground \<Rightarrow> ground p b | Escape \<Rightarrow> escape p b | CsiEntry \<Rightarrow> csi_entry p b
   | CsiParam \<Rightarrow> csi_param p b | OscString \<Rightarrow> osc_string p b)"

fun feed_bytes :: "EscParser \<Rightarrow> byte list \<Rightarrow> Action list \<times> EscParser" where
  "feed_bytes p [] = ([], p)"
| "feed_bytes p (b # bs) =
     (case parser_feed p b of (a, p1) \<Rightarrow> case feed_bytes p1 bs of (as, p2) \<Rightarrow>
        ((case a of Some x \<Rightarrow> x # as | None \<Rightarrow> as), p2))"

definition parser_reset :: "EscParser \<Rightarrow> EscParser" where
  "parser_reset p = p\<lparr>pstate := Ground, params_buf := [], intermediates := [], priv := False, osc_buf := []\<rparr>"

section \<open>Lemmas\<close>

lemma feed_bytes_append:
  "feed_bytes p (xs @ ys) = (case feed_bytes p xs of (as, p1) \<Rightarrow> case feed_bytes p1 ys of (bs, p2) \<Rightarrow> (as @ bs, p2))"
  by (induction xs arbitrary: p) (auto split: prod.splits option.splits)

text \<open>Decimal digits, and that the parameter parser reads them back.\<close>

fun dec :: "nat \<Rightarrow> byte list" where
  "dec n = (if n < 10 then [of_nat (48 + n)] else dec (n div 10) @ [of_nat (48 + n mod 10)])"

declare dec.simps [simp del]

lemma dec_digits: "b \<in> set (dec n) \<Longrightarrow> 0x30 \<le> b \<and> b \<le> 0x39"
proof (induction n rule: dec.induct)
  case (1 n)
  have d: "(0x30 :: byte) \<le> of_nat (48 + m) \<and> (of_nat (48 + m) :: byte) \<le> 0x39" if "m < 10" for m
    using that by (simp add: word_le_nat_alt unat_of_nat_small del: of_nat_add)
  show ?case using 1 d [of n] d [of "n mod 10"] by (subst (asm) dec.simps) (auto split: if_splits)
qed

lemma dec_nonempty [simp]: "dec n \<noteq> []"
  by (subst dec.simps) simp

lemma dec_length: "n < 10 ^ Suc k \<Longrightarrow> length (dec n) \<le> Suc k"
proof (induction k arbitrary: n)
  case (Suc k)
  then have "n div 10 < 10 ^ Suc k" by (simp add: less_mult_imp_div_less)
  then show ?case using Suc.IH [of "n div 10"] by (subst dec.simps) simp
qed (simp add: dec.simps)

lemma params_loop_digit:
  "m < 10 \<Longrightarrow> params_loop (of_nat (48 + m) # bs) res c h = params_loop bs res (min (min (c * 10) U16_MAX + m) U16_MAX) True"
proof -
  assume m: "m < 10"
  let ?b = "of_nat (48 + m) :: byte"
  have "?b - 0x30 = of_nat m" by simp
  then have "unat (?b - 0x30) = m" using m by (simp add: unat_of_nat_small)
  moreover have "?b \<noteq> 0x3B" "0x30 \<le> ?b" "?b \<le> 0x39"
    using m by (simp_all add: word_le_nat_alt unat_of_nat_small word_unat_eq_iff del: of_nat_add)
  ultimately show ?thesis by (simp del: of_nat_add)
qed

lemma params_loop_dec: "n \<le> U16_MAX \<Longrightarrow> params_loop (dec n @ bs) res 0 h = params_loop bs res n True"
proof (induction n arbitrary: bs h rule: dec.induct)
  case (1 n)
  show ?case
  proof (cases "n < 10")
    case True
    then show ?thesis using 1 by (subst dec.simps) (simp add: params_loop_digit U16_MAX_def del: of_nat_add params_loop.simps)
  next
    case False
    have "n div 10 \<le> U16_MAX" "min (min (n div 10 * 10) U16_MAX + n mod 10) U16_MAX = n" using 1(2) by auto
    then show ?thesis using False 1(1) [OF False]
      by (subst dec.simps) (simp add: params_loop_digit del: of_nat_add params_loop.simps)
  qed
qed

lemma feed_params:
  "pstate p = CsiParam \<Longrightarrow> list_all param_byte bs \<Longrightarrow> length (params_buf p) + length bs \<le> 64 \<Longrightarrow>
   feed_bytes p bs = ([], p\<lparr>params_buf := params_buf p @ bs\<rparr>)"
  by (induction bs arbitrary: p) (auto simp: parser_feed_def csi_param_def)

lemma feed_csi_entry:
  "bs \<noteq> [] \<Longrightarrow> pstate p = CsiEntry \<Longrightarrow> list_all param_byte bs \<Longrightarrow> length (params_buf p) + length bs \<le> 64 \<Longrightarrow>
   feed_bytes p bs = ([], p\<lparr>params_buf := params_buf p @ bs, pstate := CsiParam\<rparr>)"
  by (cases bs) (auto simp: parser_feed_def csi_entry_def feed_params param_byte_def)

text \<open>A control sequence with two decimal parameters, written as ESC \<open>[\<close> a \<open>;\<close> b and a final byte,
  parses to exactly one dispatch with those two numbers, for all 16-bit values, and leaves the
  parser in the ground state.\<close>

lemma parse_csi_two:
  assumes "pstate p = Ground" "a \<le> U16_MAX" "b \<le> U16_MAX" "0x40 \<le> f" "f \<le> 0x7E"
  shows "\<exists>p'. feed_bytes p ([0x1B, 0x5B] @ dec a @ [0x3B] @ dec b @ [f]) = ([CsiDispatch [a, b] [] f False], p')
    \<and> pstate p' = Ground"
proof -
  let ?ps = "dec a @ [0x3B] @ dec b"
  let ?p1 = "p\<lparr>pstate := CsiEntry, params_buf := [], intermediates := [], priv := False\<rparr>"
  let ?p2 = "p\<lparr>pstate := CsiParam, params_buf := ?ps, intermediates := [], priv := False\<rparr>"
  have e: "feed_bytes p [0x1B, 0x5B] = ([], ?p1)" using assms(1) by (simp add: parser_feed_def ground_def escape_def)
  have "length (dec a) \<le> 5" "length (dec b) \<le> 5" using dec_length [of _ 4] assms by (simp_all add: U16_MAX_def)
  moreover have "list_all param_byte ?ps" by (auto simp: list_all_iff param_byte_def dest: dec_digits)
  ultimately have ps: "feed_bytes ?p1 ?ps = ([], ?p2)" using feed_csi_entry [of ?ps ?p1] by simp
  have "\<not> param_byte f" "\<not> f \<le> 0x2F" using assms(4) by (auto simp: param_byte_def word_le_nat_alt)
  then have f: "feed_bytes ?p2 [f] = ([dispatch_csi ?p2 f], ?p2\<lparr>pstate := Ground\<rparr>)"
    using assms(4,5) by (simp add: parser_feed_def csi_param_def)
  have "parse_params ?p2 = [a, b]" using params_loop_dec [of b "[]"] assms
    by (simp add: parse_params_def params_loop_dec)
  then have "feed_bytes p (([0x1B, 0x5B] @ ?ps) @ [f]) = ([CsiDispatch [a, b] [] f False], ?p2\<lparr>pstate := Ground\<rparr>)"
    using f by (simp only: feed_bytes_append [of p "[0x1B, 0x5B] @ ?ps" "[f]"] feed_bytes_append [of p "[0x1B, 0x5B]" ?ps]
      e ps prod.case append_Nil) (simp add: dispatch_csi_def)
  then show ?thesis by simp
qed

end
