(* ===== verification/RacTerm.thy ===== *)
theory RacTerm imports Screen VtCursor VtParser begin

text \<open>
  \<open>terminal/src/terminal.rs\<close>: the emulator that ties the parser, the cursor and the screen together.
  Every action that touches the screen is in the panic monad of the prelude.
\<close>

record Terminal =
  buffer :: ScreenBuffer
  cursor :: Cursor
  parser :: EscParser
  utf8 :: "nat \<times> nat \<times> nat"
  t_fg :: Color
  t_bg :: Color
  t_attrs :: CellAttrs
  title :: "byte list"
  response_buf :: "byte list"

definition term_new :: "nat \<Rightarrow> nat \<Rightarrow> Terminal option" where
  "term_new r c = do {
     b \<leftarrow> buf_new r c;
     Some \<lparr>buffer = b, cursor = cursor_new r c, parser = parser_new, utf8 = (0, 0, 0),
       t_fg = ColDefault, t_bg = ColDefault, t_attrs = attrs_default, title = [], response_buf = []\<rparr> }"

definition drain_response :: "Terminal \<Rightarrow> byte list \<times> Terminal" where
  "drain_response t = (response_buf t, t\<lparr>response_buf := []\<rparr>)"

text \<open>Method calls on the two fields.\<close>

definition on_buffer :: "Terminal \<Rightarrow> ScreenBuffer option \<Rightarrow> Terminal option" where
  "on_buffer t r = do { b \<leftarrow> r; Some (t\<lparr>buffer := b\<rparr>) }"

definition on_cursor :: "Terminal \<Rightarrow> Cursor option \<Rightarrow> Terminal option" where
  "on_cursor t r = do { c \<leftarrow> r; Some (t\<lparr>cursor := c\<rparr>) }"

definition term_set_scrollback_limit :: "Terminal \<Rightarrow> nat \<Rightarrow> Terminal" where
  "term_set_scrollback_limit t limit = t\<lparr>buffer := set_scrollback_limit (buffer t) limit\<rparr>"

definition term_resize :: "Terminal \<Rightarrow> nat \<Rightarrow> nat \<Rightarrow> Terminal option" where
  "term_resize t r c = do {
     b \<leftarrow> buf_resize (buffer t) r c;
     Some (t\<lparr>buffer := b, cursor := cursor_resize (cursor t) r c\<rparr>) }"

text \<open>Scroll the region when a cursor movement asks for it.\<close>

definition scroll_if :: "(bool \<times> Cursor) \<Rightarrow> Terminal \<Rightarrow> Terminal option" where
  "scroll_if m t = (case m of (needs_scroll, c) \<Rightarrow>
     if needs_scroll then on_buffer (t\<lparr>cursor := c\<rparr>) (scroll_up (buffer t) 1 (scroll_top c) (scroll_bottom c))
     else Some (t\<lparr>cursor := c\<rparr>))"

definition term_print :: "Terminal \<Rightarrow> nat \<Rightarrow> Terminal option" where
  "term_print t ch = do {
     t1 \<leftarrow> (if wrap_pending (cursor t) then scroll_if (do_wrap (cursor t)) t else Some t);
     t2 \<leftarrow> on_buffer t1 (put_char (buffer t1) (crow (cursor t1)) (ccol (cursor t1)) ch (t_fg t1) (t_bg t1) (t_attrs t1));
     Some (t2\<lparr>cursor := snd (advance_after_print (cursor t2))\<rparr>) }"

definition execute_control :: "Terminal \<Rightarrow> byte \<Rightarrow> Terminal option" where
  "execute_control t b =
     (if b = 0x08 then Some (t\<lparr>cursor := backspace (cursor t)\<rparr>)
      else if b = 0x09 then on_cursor t (tab (cursor t))
      else if b = 0x0A \<or> b = 0x0B \<or> b = 0x0C then scroll_if (line_feed (cursor t)) t
      else if b = 0x0D then Some (t\<lparr>cursor := carriage_return (cursor t)\<rparr>)
      else Some t)"

definition reset_attrs :: "Terminal \<Rightarrow> Terminal" where
  "reset_attrs t = t\<lparr>t_fg := ColDefault, t_bg := ColDefault, t_attrs := attrs_default\<rparr>"

text \<open>The tail of \<open>38;...\<close> and \<open>48;...\<close>: a colour, if there is one, and the parameters left.\<close>

definition ext_color :: "nat list \<Rightarrow> Color option \<times> nat list" where
  "ext_color ps = (case ps of [] \<Rightarrow> (None, [])
     | p # q \<Rightarrow>
         if p = 5 then (case q of [] \<Rightarrow> (None, []) | n # q' \<Rightarrow> (Some (Indexed (of_nat n)), q'))
         else if p = 2 then
           (case q of r # g # b # q' \<Rightarrow> (Some (Rgb (of_nat r) (of_nat g) (of_nat b)), q') | _ \<Rightarrow> (None, q))
         else (None, q))"

lemma ext_color_length: "ext_color ps = (c, q) \<Longrightarrow> length q \<le> length ps"
  by (auto simp: ext_color_def split: list.splits if_splits)

definition sgr_simple :: "Terminal \<Rightarrow> nat \<Rightarrow> Terminal" where
  "sgr_simple t p =
     (let at = t_attrs t in
      if p = 0 then reset_attrs t
      else if p = 1 then t\<lparr>t_attrs := at\<lparr>bold := True\<rparr>\<rparr>
      else if p = 3 then t\<lparr>t_attrs := at\<lparr>italic := True\<rparr>\<rparr>
      else if p = 4 then t\<lparr>t_attrs := at\<lparr>underline := True\<rparr>\<rparr>
      else if p = 5 then t\<lparr>t_attrs := at\<lparr>blink := True\<rparr>\<rparr>
      else if p = 7 then t\<lparr>t_attrs := at\<lparr>reverse := True\<rparr>\<rparr>
      else if p = 9 then t\<lparr>t_attrs := at\<lparr>strikethrough := True\<rparr>\<rparr>
      else if p = 22 then t\<lparr>t_attrs := at\<lparr>bold := False\<rparr>\<rparr>
      else if p = 23 then t\<lparr>t_attrs := at\<lparr>italic := False\<rparr>\<rparr>
      else if p = 24 then t\<lparr>t_attrs := at\<lparr>underline := False\<rparr>\<rparr>
      else if p = 25 then t\<lparr>t_attrs := at\<lparr>blink := False\<rparr>\<rparr>
      else if p = 27 then t\<lparr>t_attrs := at\<lparr>reverse := False\<rparr>\<rparr>
      else if p = 29 then t\<lparr>t_attrs := at\<lparr>strikethrough := False\<rparr>\<rparr>
      else if 30 \<le> p \<and> p \<le> 37 then t\<lparr>t_fg := Indexed (of_nat (p - 30))\<rparr>
      else if p = 39 then t\<lparr>t_fg := ColDefault\<rparr>
      else if 40 \<le> p \<and> p \<le> 47 then t\<lparr>t_bg := Indexed (of_nat (p - 40))\<rparr>
      else if p = 49 then t\<lparr>t_bg := ColDefault\<rparr>
      else if 90 \<le> p \<and> p \<le> 97 then t\<lparr>t_fg := Indexed (of_nat (p - 90 + 8))\<rparr>
      else if 100 \<le> p \<and> p \<le> 107 then t\<lparr>t_bg := Indexed (of_nat (p - 100 + 8))\<rparr>
      else t)"

function sgr_loop :: "Terminal \<Rightarrow> nat list \<Rightarrow> Terminal" where
  "sgr_loop t [] = t"
| "sgr_loop t (p # ps) =
     (if p = 38 then (case ext_color ps of (c, q) \<Rightarrow>
        sgr_loop (case c of Some x \<Rightarrow> t\<lparr>t_fg := x\<rparr> | None \<Rightarrow> t) q)
      else if p = 48 then (case ext_color ps of (c, q) \<Rightarrow>
        sgr_loop (case c of Some x \<Rightarrow> t\<lparr>t_bg := x\<rparr> | None \<Rightarrow> t) q)
      else sgr_loop (sgr_simple t p) ps)"
  by pat_completeness auto

termination
  by (relation "measure (length \<circ> snd)") (auto simp: less_Suc_eq_le ext_color_length [OF sym])

definition execute_sgr :: "Terminal \<Rightarrow> nat list \<Rightarrow> Terminal" where
  "execute_sgr t ps = (if ps = [] then reset_attrs t else sgr_loop t ps)"

text \<open>Decimal output: digits into a buffer of ten bytes, then out in reverse.\<close>

fun num_loop :: "nat \<Rightarrow> nat \<Rightarrow> byte list \<Rightarrow> (byte list \<times> nat) option" where
  "num_loop n i buf =
     (if n = 0 then Some (buf, i)
      else do { buf' \<leftarrow> aset buf i (of_nat (48 + n mod 10)); num_loop (n div 10) (i + 1) buf' })"

declare num_loop.simps [simp del]

definition write_response_num :: "nat \<Rightarrow> Terminal \<Rightarrow> Terminal option" where
  "write_response_num n t =
     (if n = 0 then Some (t\<lparr>response_buf := response_buf t @ [0x30]\<rparr>)
      else do {
        (buf, i) \<leftarrow> num_loop n 0 (replicate 10 0);
        resp \<leftarrow> for_each (rev [0..<i]) (\<lambda>j resp. do { v \<leftarrow> aget buf j; Some (resp @ [v]) }) (response_buf t);
        Some (t\<lparr>response_buf := resp\<rparr>) })"

definition push_response :: "byte list \<Rightarrow> Terminal \<Rightarrow> Terminal" where
  "push_response bs t = t\<lparr>response_buf := response_buf t @ bs\<rparr>"

definition write_response_cpr :: "nat \<Rightarrow> nat \<Rightarrow> Terminal \<Rightarrow> Terminal option" where
  "write_response_cpr row col t = do {
     t1 \<leftarrow> write_response_num row (push_response [0x1B, 0x5B] t);
     t2 \<leftarrow> write_response_num col (push_response [0x3B] t1);
     Some (push_response [0x52] t2) }"

definition execute_csi_private :: "Terminal \<Rightarrow> nat list \<Rightarrow> byte \<Rightarrow> Terminal option" where
  "execute_csi_private t ps f =
     (let p1 = (case ps of p # _ \<Rightarrow> p | [] \<Rightarrow> 0) in
      if p1 = 25 \<and> f = 0x68 then Some (t\<lparr>cursor := (cursor t)\<lparr>visible := True\<rparr>\<rparr>)
      else if p1 = 25 \<and> f = 0x6C then Some (t\<lparr>cursor := (cursor t)\<lparr>visible := False\<rparr>\<rparr>)
      else if p1 = 1049 \<and> f = 0x68 then
        (let t1 = t\<lparr>cursor := cursor_save (cursor t)\<rparr> in on_buffer t1 (enable_alternate (buffer t1)))
      else if p1 = 1049 \<and> f = 0x6C then
        (let t1 = t\<lparr>buffer := disable_alternate (buffer t)\<rparr> in on_cursor t1 (cursor_restore (cursor t1)))
      else Some t)"

definition erase_display :: "Terminal \<Rightarrow> nat \<Rightarrow> Terminal option" where
  "erase_display t p1 =
     (let b = buffer t; c = cursor t in
      if p1 = 0 then on_buffer t (clear_below b (crow c) (ccol c))
      else if p1 = 1 then on_buffer t (clear_above b (crow c) (ccol c))
      else if p1 = 2 \<or> p1 = 3 then on_buffer t (buf_clear b)
      else Some t)"

definition erase_line :: "Terminal \<Rightarrow> nat \<Rightarrow> Terminal option" where
  "erase_line t p1 =
     (let b = buffer t; c = cursor t in
      if p1 = 0 then on_buffer t (clear_line b (crow c) (ccol c) (cols b))
      else if p1 = 1 then on_buffer t (clear_line b (crow c) 0 (ccol c + 1))
      else if p1 = 2 then on_buffer t (clear_line b (crow c) 0 (cols b))
      else Some t)"

definition device_status :: "Terminal \<Rightarrow> nat \<Rightarrow> Terminal option" where
  "device_status t p1 =
     (if p1 = 6 then write_response_cpr (crow (cursor t) + 1) (ccol (cursor t) + 1) t
      else if p1 = 5 then Some (push_response [0x1B, 0x5B, 0x30, 0x6E] t)
      else Some t)"

definition execute_csi :: "Terminal \<Rightarrow> nat list \<Rightarrow> byte \<Rightarrow> bool \<Rightarrow> Terminal option" where
  "execute_csi t ps f pr =
     (if pr then execute_csi_private t ps f
      else let p1 = (case ps of p # _ \<Rightarrow> p | [] \<Rightarrow> 0); p2 = (case ps of _ # p # _ \<Rightarrow> p | _ \<Rightarrow> 0);
               n = max p1 1; b = buffer t; c = cursor t in
      if f = 0x41 then Some (t\<lparr>cursor := move_up c n\<rparr>)
      else if f = 0x42 then on_cursor t (move_down c n)
      else if f = 0x43 then on_cursor t (move_forward c n)
      else if f = 0x44 then Some (t\<lparr>cursor := move_back c n\<rparr>)
      else if f = 0x48 \<or> f = 0x66 then on_cursor t (set_position c n (max p2 1))
      else if f = 0x47 then on_cursor t (set_position c (crow c + 1) n)
      else if f = 0x4A then erase_display t p1
      else if f = 0x4B then erase_line t p1
      else if f = 0x4C then on_buffer t (insert_lines b (crow c) n (scroll_bottom c))
      else if f = 0x4D then on_buffer t (delete_lines b (crow c) n (scroll_bottom c))
      else if f = 0x53 then on_buffer t (scroll_up b n (scroll_top c) (scroll_bottom c))
      else if f = 0x54 then on_buffer t (scroll_down b n (scroll_top c) (scroll_bottom c))
      else if f = 0x6D then Some (execute_sgr t ps)
      else if f = 0x6E then device_status t p1
      else if f = 0x63 then (if p1 = 0 then Some (push_response [0x1B, 0x5B, 0x3F, 0x31, 0x3B, 0x32, 0x63] t) else Some t)
      else if f = 0x40 then on_buffer t (insert_chars b (crow c) (ccol c) n)
      else if f = 0x50 then on_buffer t (delete_chars b (crow c) (ccol c) n)
      else if f = 0x58 then on_buffer t (erase_chars b (crow c) (ccol c) n)
      else if f = 0x73 then Some (t\<lparr>cursor := cursor_save c\<rparr>)
      else if f = 0x75 then on_cursor t (cursor_restore c)
      else if f = 0x72 then Some (t\<lparr>cursor := set_scroll_region c n (if p2 = 0 then rows b else p2)\<rparr>)
      else Some t)"

definition execute_osc :: "Terminal \<Rightarrow> byte list \<Rightarrow> Terminal" where
  "execute_osc t s = (if take 2 s = [0x30, 0x3B] then t\<lparr>title := drop 2 s\<rparr> else t)"

definition execute_esc :: "Terminal \<Rightarrow> byte \<Rightarrow> Terminal option" where
  "execute_esc t b =
     (if b = 0x63 then do {
        t1 \<leftarrow> on_buffer t (buf_clear (buffer t));
        Some ((reset_attrs (t1\<lparr>cursor := cursor_new (rows (buffer t1)) (cols (buffer t1))\<rparr>))\<lparr>title := []\<rparr>) }
      else if b = 0x37 then Some (t\<lparr>cursor := cursor_save (cursor t)\<rparr>)
      else if b = 0x38 then on_cursor t (cursor_restore (cursor t))
      else if b = 0x44 then scroll_if (line_feed (cursor t)) t
      else if b = 0x45 then scroll_if (line_feed (carriage_return (cursor t))) t
      else if b = 0x4D then (case reverse_index (cursor t) of (needs_scroll, c) \<Rightarrow>
        if needs_scroll then on_buffer (t\<lparr>cursor := c\<rparr>) (scroll_down (buffer t) 1 (scroll_top c) (scroll_bottom c))
        else Some (t\<lparr>cursor := c\<rparr>))
      else Some t)"

fun execute_action :: "Terminal \<Rightarrow> Action \<Rightarrow> Terminal option" where
  "execute_action t (Print ch) = term_print t ch"
| "execute_action t (Execute b) = execute_control t b"
| "execute_action t (CsiDispatch ps ims f pr) = execute_csi t ps f pr"
| "execute_action t (OscDispatch s) = Some (execute_osc t s)"
| "execute_action t (EscDispatch b) = execute_esc t b"

definition REPLACEMENT_CHARACTER :: nat where "REPLACEMENT_CHARACTER = 0xFFFD"

definition char_from_u32 :: "nat \<Rightarrow> nat option" where
  "char_from_u32 n = (if n < 0x110000 \<and> \<not> (0xD800 \<le> n \<and> n < 0xE000) then Some n else None)"

section \<open>The actions leave the decoder alone\<close>

lemma sgr_simple_utf8 [simp]:
  "utf8 (sgr_simple t p) = utf8 t" "parser (sgr_simple t p) = parser t"
  "buffer (sgr_simple t p) = buffer t" "cursor (sgr_simple t p) = cursor t"
  by (simp_all add: sgr_simple_def reset_attrs_def Let_def)

lemma sgr_loop_utf8 [simp]:
  "utf8 (sgr_loop t ps) = utf8 t \<and> parser (sgr_loop t ps) = parser t \<and> buffer (sgr_loop t ps) = buffer t
   \<and> cursor (sgr_loop t ps) = cursor t"
  by (induction t ps rule: sgr_loop.induct) (auto split: prod.splits option.splits)

definition same_decoder :: "Terminal \<Rightarrow> Terminal \<Rightarrow> bool" where
  "same_decoder t t' \<longleftrightarrow> utf8 t' = utf8 t \<and> parser t' = parser t"

lemma same_decoder_on:
  "on_buffer t r = Some t' \<Longrightarrow> same_decoder t t'" "on_cursor t c = Some t' \<Longrightarrow> same_decoder t t'"
  "scroll_if m t = Some t' \<Longrightarrow> same_decoder t t'"
  by (auto simp: same_decoder_def on_buffer_def on_cursor_def scroll_if_def split: bind_splits prod.splits if_splits)

lemma same_decoder_simps [simp]:
  "same_decoder t t" "same_decoder t (t\<lparr>cursor := c\<rparr>)" "same_decoder t (t\<lparr>buffer := b\<rparr>)" "same_decoder t (push_response bs t)"
  "same_decoder t (execute_sgr t ps)" "same_decoder t (execute_osc t os)" "same_decoder (t\<lparr>cursor := c\<rparr>) t' = same_decoder t t'"
  "same_decoder (t\<lparr>buffer := b\<rparr>) t' = same_decoder t t'" "same_decoder (push_response bs t) t' = same_decoder t t'"
  by (simp_all add: same_decoder_def push_response_def execute_sgr_def reset_attrs_def execute_osc_def)

lemma same_decoder_trans: "same_decoder t t1 \<Longrightarrow> same_decoder t1 t2 \<Longrightarrow> same_decoder t t2"
  by (simp add: same_decoder_def)

lemma term_print_decoder: "term_print t ch = Some t' \<Longrightarrow> same_decoder t t'"
  by (auto simp: term_print_def on_buffer_def scroll_if_def same_decoder_def split: bind_splits if_splits prod.splits)

lemma write_response_num_decoder: "write_response_num n t = Some t' \<Longrightarrow> same_decoder t t'"
  by (auto simp: write_response_num_def same_decoder_def split: bind_splits if_splits)

lemma device_status_decoder: "device_status t p = Some t' \<Longrightarrow> same_decoder t t'"
  by (auto simp: device_status_def write_response_cpr_def same_decoder_def push_response_def split: bind_splits if_splits
      dest!: write_response_num_decoder)

lemma execute_csi_decoder: "execute_csi t ps f pr = Some t' \<Longrightarrow> same_decoder t t'"
  unfolding execute_csi_def execute_csi_private_def erase_display_def erase_line_def Let_def
  by (auto split: if_splits dest: same_decoder_on device_status_decoder)

lemma execute_esc_decoder: "execute_esc t b = Some t' \<Longrightarrow> same_decoder t t'"
  unfolding execute_esc_def
  by (auto split: if_splits prod.splits bind_splits dest: same_decoder_on)
    (auto simp: same_decoder_def reset_attrs_def on_buffer_def split: bind_splits)

lemma execute_action_decoder: "execute_action t a = Some t' \<Longrightarrow> same_decoder t t'"
  by (cases a) (auto simp: term_print_decoder execute_csi_decoder execute_esc_decoder execute_control_def
      split: if_splits dest: same_decoder_on)

section \<open>Bytes from the program\<close>

definition lead_byte :: "byte \<Rightarrow> (nat \<times> nat) option" where
  "lead_byte b =
     (if 0xC2 \<le> b \<and> b \<le> 0xDF then Some (unat b mod 32, 2)
      else if 0xE0 \<le> b \<and> b \<le> 0xEF then Some (unat b mod 16, 3)
      else if 0xF0 \<le> b \<and> b \<le> 0xF4 then Some (unat b mod 8, 4)
      else None)"

text \<open>One turn of the loop in \<open>feed\<close>. A second lead byte is fed again after the reset, as in the code. The
  counter stays below the length, at most 4, so its increment cannot overflow.\<close>

function feed_byte :: "byte \<Rightarrow> Terminal \<Rightarrow> Terminal option" where
  "feed_byte b t =
     (if b < 0x80 then do {
        t1 \<leftarrow> (if snd (snd (utf8 t)) > 0
               then execute_action (t\<lparr>utf8 := (0, 0, 0)\<rparr>) (Print REPLACEMENT_CHARACTER) else Some t);
        (case parser_feed (parser t1) b of (a, p) \<Rightarrow>
           let t2 = t1\<lparr>parser := p\<rparr> in
           case a of None \<Rightarrow> Some t2 | Some x \<Rightarrow> execute_action t2 x) }
      else case utf8 t of (acc, seen, need) \<Rightarrow>
        if need = 0 then
          (case lead_byte b of
             Some (initial, len) \<Rightarrow> Some (t\<lparr>utf8 := (initial, 1, len)\<rparr>)
           | None \<Rightarrow> execute_action t (Print REPLACEMENT_CHARACTER))
        else if cont_byte b then
          (let acc = (acc * 64) mod 2 ^ 32 + unat b mod 64 in
           if seen + 1 = need then
             execute_action (t\<lparr>utf8 := (0, 0, 0)\<rparr>)
               (Print (case char_from_u32 acc of Some c \<Rightarrow> c | None \<Rightarrow> REPLACEMENT_CHARACTER))
           else Some (t\<lparr>utf8 := (acc, seen + 1, need)\<rparr>))
        else do {
          t1 \<leftarrow> execute_action (t\<lparr>utf8 := (0, 0, 0)\<rparr>) (Print REPLACEMENT_CHARACTER);
          feed_byte b t1 })"
  by pat_completeness auto

termination
  by (relation "measure (\<lambda>(b, t). if snd (snd (utf8 t)) = 0 then 0 else 1)")
    (auto dest!: term_print_decoder simp: same_decoder_def prod_eq_iff split: if_splits)

declare feed_byte.simps [simp del]

definition feed :: "Terminal \<Rightarrow> byte list \<Rightarrow> Terminal option" where
  "feed t bs = for_each bs feed_byte t"

section \<open>Totality\<close>

text \<open>A well-formed terminal: screen and cursor agree on the size, positions print in ten digits, and a
  pending multibyte sequence is incomplete.\<close>

definition term_ok :: "Terminal \<Rightarrow> bool" where
  "term_ok t \<longleftrightarrow> buf_ok (buffer t) \<and> cur_fits (rows (buffer t)) (cols (buffer t)) (cursor t)
     \<and> rows (buffer t) < 10 ^ 10 \<and> cols (buffer t) < 10 ^ 10"

definition goes_on :: "Terminal \<Rightarrow> Terminal option \<Rightarrow> bool" where
  "goes_on t r \<longleftrightarrow> (\<exists>t'. r = Some t' \<and> term_ok t' \<and> rows (buffer t') = rows (buffer t) \<and> cols (buffer t') = cols (buffer t))"

lemma goes_on_cursor:
  "term_ok t \<Longrightarrow> cur_fits (rows (buffer t)) (cols (buffer t)) c \<Longrightarrow> goes_on t (Some (t\<lparr>cursor := c\<rparr>))"
  by (simp add: goes_on_def term_ok_def)

lemma goes_on_on_cursor:
  "term_ok t \<Longrightarrow> \<exists>c. r = Some c \<and> cur_fits (rows (buffer t)) (cols (buffer t)) c \<Longrightarrow> goes_on t (on_cursor t r)"
  by (auto simp: goes_on_def term_ok_def on_cursor_def)

lemma goes_on_on_buffer: "term_ok t \<Longrightarrow> keeps (buffer t) r \<Longrightarrow> goes_on t (on_buffer t r)"
  by (auto simp: goes_on_def term_ok_def on_buffer_def keeps_def)

lemma goes_on_bind:
  "goes_on t r \<Longrightarrow> (\<And>t1. goes_on t (Some t1) \<Longrightarrow> goes_on t1 (f t1)) \<Longrightarrow> goes_on t (Option.bind r f)"
  by (auto simp: goes_on_def)

lemma goes_on_trans: "goes_on t (Some t1) \<Longrightarrow> goes_on t1 r \<Longrightarrow> goes_on t r"
  by (auto simp: goes_on_def)

lemma goes_on_ok: "goes_on t (Some t1) \<Longrightarrow> term_ok t1"
  by (simp add: goes_on_def)

lemma term_okD: "term_ok t \<Longrightarrow> buf_ok (buffer t)" "term_ok t \<Longrightarrow> cur_fits (rows (buffer t)) (cols (buffer t)) (cursor t)"
  by (simp_all add: term_ok_def)

lemma goes_on_same:
  "term_ok t \<Longrightarrow> buffer t' = buffer t \<Longrightarrow> cursor t' = cursor t \<Longrightarrow> goes_on t (Some t')"
  by (simp add: goes_on_def term_ok_def)

lemma moved_buffer_ok:
  "term_ok t \<Longrightarrow> cur_fits (rows (buffer t)) (cols (buffer t)) c \<Longrightarrow> keeps (buffer t) r \<Longrightarrow>
   goes_on t (on_buffer (t\<lparr>cursor := c\<rparr>) r)"
  by (auto simp: goes_on_def term_ok_def on_buffer_def keeps_def)

lemma scroll_if_ok:
  "term_ok t \<Longrightarrow> cur_fits (rows (buffer t)) (cols (buffer t)) (snd m) \<Longrightarrow> goes_on t (scroll_if m t)"
  by (auto simp: scroll_if_def moved_buffer_ok scroll_up_ok term_okD goes_on_cursor split: prod.splits)

lemma term_print_ok:
  assumes "term_ok t"
  shows "goes_on t (term_print t ch)"
  unfolding term_print_def
proof (rule goes_on_bind)
  show "goes_on t (if wrap_pending (cursor t) then scroll_if (do_wrap (cursor t)) t else Some t)"
    using assms by (auto simp: scroll_if_ok cursor_total_ops term_okD intro: goes_on_same)
  fix t1 assume "goes_on t (Some t1)"
  then have t1: "term_ok t1" by (rule goes_on_ok)
  show "goes_on t1 (do {
      t2 \<leftarrow> on_buffer t1 (put_char (buffer t1) (crow (cursor t1)) (ccol (cursor t1)) ch (t_fg t1) (t_bg t1) (t_attrs t1));
      Some (t2\<lparr>cursor := snd (advance_after_print (cursor t2))\<rparr>) })"
    by (rule goes_on_bind [OF goes_on_on_buffer]) (auto simp: t1 put_char_ok term_okD intro!: goes_on_cursor cursor_total_ops dest: goes_on_ok)
qed

lemma execute_control_ok: "term_ok t \<Longrightarrow> goes_on t (execute_control t b)"
  by (auto simp: execute_control_def intro!: goes_on_cursor goes_on_on_cursor scroll_if_ok goes_on_same
      cursor_total_ops cursor_partial_ops term_okD)

text \<open>The digit buffer of ten bytes is enough below \<open>10 ^ 10\<close>, and the digits come out in order.\<close>

lemma num_loop_dec:
  "0 < n \<Longrightarrow> i + length (dec n) \<le> length buf \<Longrightarrow>
   \<exists>buf'. num_loop n i buf = Some (buf', i + length (dec n)) \<and> length buf' = length buf
     \<and> take (i + length (dec n)) buf' = take i buf @ rev (dec n)"
proof (induction n i buf rule: num_loop.induct)
  case (1 n i buf)
  let ?d = "of_nat (48 + n mod 10) :: byte"
  have i: "i < length buf" using 1(3) by (cases "dec n") auto
  have first: "num_loop n i buf = num_loop (n div 10) (i + 1) (buf[i := ?d])"
    using 1(2) i by (subst num_loop.simps) (simp add: aset_in)
  show ?case
  proof (cases "n < 10")
    case True
    then have "dec n = [?d]" by (subst dec.simps) simp
    then show ?thesis using True first i 1(2) by (simp add: num_loop.simps [of 0] take_Suc_conv_app_nth)
  next
    case False
    then have d: "dec n = dec (n div 10) @ [?d]" by (subst dec.simps) simp
    have "n \<noteq> 0" "0 < n div 10" "aset buf i ?d = Some (buf[i := ?d])"
      using False i by (auto simp: aset_in div_greater_zero_iff)
    then obtain buf' where "num_loop (n div 10) (i + 1) (buf[i := ?d]) = Some (buf', i + 1 + length (dec (n div 10)))"
      "length buf' = length buf" "take (i + 1 + length (dec (n div 10))) buf' = take (i + 1) (buf[i := ?d]) @ rev (dec (n div 10))"
      using 1(1) [of "buf[i := ?d]"] 1(3) False d by auto
    then show ?thesis using first d i by (simp add: take_Suc_conv_app_nth)
  qed
qed

lemma push_reversed:
  "i \<le> length buf \<Longrightarrow>
   for_each (rev [0..<i]) (\<lambda>j resp. do { v \<leftarrow> aget buf j; Some (resp @ [v]) }) resp = Some (resp @ rev (take i buf))"
  by (induction i arbitrary: resp) (simp_all add: aget_in take_Suc_conv_app_nth)

lemma write_response_num_eq:
  assumes "n < 10 ^ 10"
  shows "write_response_num n t = Some (push_response (dec n) t)"
proof (cases "n = 0")
  case True
  then show ?thesis by (simp add: write_response_num_def push_response_def dec.simps)
next
  case False
  have len: "length (dec n) \<le> 10" using dec_length [of n 9] assms by simp
  then obtain buf' where b: "num_loop n 0 (replicate 10 0) = Some (buf', length (dec n))" "length buf' = 10"
    "take (length (dec n)) buf' = rev (dec n)"
    using num_loop_dec [of n 0 "replicate 10 0"] False by auto
  then show ?thesis using False push_reversed [of "length (dec n)" buf'] len
    by (simp add: write_response_num_def push_response_def)
qed

lemma write_response_cpr_eq:
  "row < 10 ^ 10 \<Longrightarrow> col < 10 ^ 10 \<Longrightarrow>
   write_response_cpr row col t = Some (push_response ([0x1B, 0x5B] @ dec row @ [0x3B] @ dec col @ [0x52]) t)"
  by (simp add: write_response_cpr_def write_response_num_eq push_response_def)

lemma device_status_ok:
  assumes "term_ok t"
  shows "goes_on t (device_status t p)"
proof -
  have "crow (cursor t) + 1 < 10 ^ 10" "ccol (cursor t) + 1 < 10 ^ 10"
    using assms by (auto simp: term_ok_def inv_defs)
  then show ?thesis using assms
    by (auto simp: device_status_def write_response_cpr_eq push_response_def intro: goes_on_same)
qed

lemma execute_csi_private_ok:
  assumes "term_ok t"
  shows "goes_on t (execute_csi_private t ps f)"
proof -
  have "goes_on t (on_buffer (t\<lparr>cursor := cursor_save (cursor t)\<rparr>) (enable_alternate (buffer t)))"
    using enable_alternate_ok [of "buffer t"] cursor_total_ops(9) [of "rows (buffer t)" "cols (buffer t)" "cursor t"] assms
    by (auto simp: goes_on_def term_ok_def on_buffer_def)
  moreover have "goes_on t (on_cursor (t\<lparr>buffer := disable_alternate (buffer t)\<rparr>) (cursor_restore (cursor t)))"
    using disable_alternate_ok [of "buffer t"] cursor_partial_ops(5) [of "rows (buffer t)" "cols (buffer t)" "cursor t"] assms
    by (auto simp: goes_on_def term_ok_def on_cursor_def)
  ultimately show ?thesis using assms
    by (auto simp: execute_csi_private_def Let_def intro!: goes_on_cursor cursor_total_ops term_okD intro: goes_on_same)
qed

lemma cursor_on_screen: "term_ok t \<Longrightarrow> crow (cursor t) < rows (buffer t)"
  by (simp add: term_ok_def inv_defs)

lemma execute_csi_ok:
  assumes "term_ok t"
  shows "goes_on t (execute_csi t ps f pr)"
proof -
  have "goes_on t (erase_display t p)" "goes_on t (erase_line t p)" for p
    using assms by (auto simp: erase_display_def erase_line_def Let_def goes_on_on_buffer buf_ops_ok term_okD cursor_on_screen
        intro: goes_on_same)
  moreover have "goes_on t (Some (execute_sgr t ps))" "goes_on t (Some (push_response bs t))" for bs
    using assms by (auto simp: execute_sgr_def reset_attrs_def push_response_def intro: goes_on_same)
  moreover have "goes_on t (Some t)" using assms by (auto intro: goes_on_same)
  ultimately show ?thesis using assms
    unfolding execute_csi_def Let_def
    by (simp add: execute_csi_private_ok device_status_ok goes_on_on_buffer buf_ops_ok term_okD
        goes_on_cursor goes_on_on_cursor cursor_total_ops cursor_partial_ops)
qed

lemma execute_esc_ok:
  assumes "term_ok t"
  shows "goes_on t (execute_esc t b)"
proof -
  have c: "cur_fits (rows (buffer t)) (cols (buffer t)) (cursor t)" and b: "buf_ok (buffer t)" using assms by (simp_all add: term_okD)
  have "goes_on t (do { t1 \<leftarrow> on_buffer t (buf_clear (buffer t));
      Some ((reset_attrs (t1\<lparr>cursor := cursor_new (rows (buffer t1)) (cols (buffer t1))\<rparr>))\<lparr>title := []\<rparr>) })"
  proof (rule goes_on_bind [OF goes_on_on_buffer [OF assms buf_clear_ok [OF b]]])
    fix t1 assume "goes_on t (Some t1)"
    then show "goes_on t1 (Some ((reset_attrs (t1\<lparr>cursor := cursor_new (rows (buffer t1)) (cols (buffer t1))\<rparr>))\<lparr>title := []\<rparr>))"
      using cursor_new_fits by (auto simp: goes_on_def term_ok_def reset_attrs_def buf_ok_def)
  qed
  moreover have "goes_on t (case reverse_index (cursor t) of (s, c) \<Rightarrow>
        if s then on_buffer (t\<lparr>cursor := c\<rparr>) (scroll_down (buffer t) 1 (scroll_top c) (scroll_bottom c))
        else Some (t\<lparr>cursor := c\<rparr>))"
    using cursor_total_ops(5) [OF c] by (auto simp: assms b moved_buffer_ok scroll_down_ok goes_on_cursor split: prod.splits)
  ultimately show ?thesis using assms c
    by (auto simp: execute_esc_def intro!: goes_on_cursor goes_on_on_cursor scroll_if_ok cursor_total_ops cursor_partial_ops
        intro: goes_on_same)
qed

lemma execute_action_ok: "term_ok t \<Longrightarrow> goes_on t (execute_action t a)"
  by (cases a) (auto simp: term_print_ok execute_control_ok execute_csi_ok execute_esc_ok execute_osc_def intro: goes_on_same)

lemma term_ok_decoder [simp]:
  "term_ok (t\<lparr>utf8 := u\<rparr>) = term_ok t" "term_ok (t\<lparr>parser := p\<rparr>) = term_ok t"
  "goes_on (t\<lparr>utf8 := u\<rparr>) r = goes_on t r" "goes_on (t\<lparr>parser := p\<rparr>) r = goes_on t r"
  by (simp_all add: term_ok_def goes_on_def)

lemma goes_on_decoder: "term_ok t \<Longrightarrow> goes_on t (Some (t\<lparr>utf8 := u\<rparr>))" "term_ok t \<Longrightarrow> goes_on t (Some (t\<lparr>parser := p\<rparr>))"
  by (simp_all add: goes_on_same)

lemma action_ok_decoder:
  "term_ok t \<Longrightarrow> goes_on t (execute_action (t\<lparr>utf8 := u\<rparr>) a)" "term_ok t \<Longrightarrow> goes_on t (execute_action (t\<lparr>parser := p\<rparr>) a)"
  using execute_action_ok [of "t\<lparr>utf8 := u\<rparr>" a] execute_action_ok [of "t\<lparr>parser := p\<rparr>" a] by simp_all

lemma feed_byte_ok: "term_ok t \<Longrightarrow> goes_on t (feed_byte b t)"
proof (induction b t rule: feed_byte.induct)
  case (1 b t)
  obtain acc seen need where u: "utf8 t = (acc, seen, need)" by (cases "utf8 t")
  note IH = 1(1) and ok = 1(2)
  consider "b < 0x80" | "\<not> b < 0x80" "need = 0 \<or> cont_byte b" | "\<not> b < 0x80" "need \<noteq> 0" "\<not> cont_byte b" by blast
  then show ?case
  proof cases
    case 1
    have "goes_on t (do { t1 \<leftarrow> (if need > 0 then execute_action (t\<lparr>utf8 := (0, 0, 0)\<rparr>) (Print REPLACEMENT_CHARACTER) else Some t);
        (case parser_feed (parser t1) b of (a, p) \<Rightarrow> case a of None \<Rightarrow> Some (t1\<lparr>parser := p\<rparr>) | Some x \<Rightarrow> execute_action (t1\<lparr>parser := p\<rparr>) x) })"
      by (rule goes_on_bind)
        (auto simp: ok goes_on_same action_ok_decoder goes_on_decoder goes_on_ok split: prod.splits option.splits
          simp del: execute_action.simps)
    then show ?thesis using 1 u by (subst feed_byte.simps) (simp add: Let_def del: execute_action.simps)
  next
    case 2
    then show ?thesis using ok u
      by (subst feed_byte.simps)
        (auto simp: Let_def execute_action_ok action_ok_decoder goes_on_decoder simp del: execute_action.simps split: option.splits)
  next
    case 3
    let ?t0 = "t\<lparr>utf8 := (0, 0, 0)\<rparr>"
    obtain t1 where t1: "execute_action ?t0 (Print REPLACEMENT_CHARACTER) = Some t1" "goes_on t (Some t1)"
      using action_ok_decoder(1) [OF ok] unfolding goes_on_def by blast
    have "goes_on t1 (feed_byte b t1)"
      using IH [OF 3(1) u [symmetric] refl 3(2,3) t1(1)] goes_on_ok [OF t1(2)] by blast
    then show ?thesis using 3 u t1 goes_on_trans [OF t1(2)]
      by (subst feed_byte.simps) (simp del: execute_action.simps)
  qed
qed

section \<open>Properties\<close>

datatype term_op = TFeed "byte list" | TResize nat nat | TScrollback nat | TDrain

fun term_apply :: "term_op \<Rightarrow> Terminal \<Rightarrow> Terminal option" where
  "term_apply (TFeed bs) t = feed t bs"
| "term_apply (TResize r c) t = term_resize t r c"
| "term_apply (TScrollback n) t = Some (term_set_scrollback_limit t n)"
| "term_apply TDrain t = Some (snd (drain_response t))"

definition size_ok :: "nat \<Rightarrow> nat \<Rightarrow> bool" where
  "size_ok r c \<longleftrightarrow> 0 < r \<and> r < 10 ^ 10 \<and> 0 < c \<and> c < 10 ^ 10 \<and> r * c < 2 ^ 58"

fun op_size_ok :: "term_op \<Rightarrow> bool" where
  "op_size_ok (TResize r c) = size_ok r c"
| "op_size_ok _ = True"

lemma feed_ok: "term_ok t \<Longrightarrow> goes_on t (feed t bs)"
  unfolding feed_def
proof (induction bs arbitrary: t)
  case (Cons b bs)
  have "goes_on t (Option.bind (feed_byte b t) (for_each bs feed_byte))"
    by (rule goes_on_bind [OF feed_byte_ok [OF Cons.prems]]) (auto intro: Cons.IH dest: goes_on_ok)
  then show ?case by simp
qed (simp add: goes_on_same)

lemma term_new_ok: "size_ok r c \<Longrightarrow> \<exists>t. term_new r c = Some t \<and> term_ok t"
  by (simp add: term_ok_def term_new_def size_ok_def cursor_new_fits buf_new_def cmul64_in buf_ok_def)

lemma term_apply_ok: "term_ok t \<Longrightarrow> op_size_ok op \<Longrightarrow> \<exists>t'. term_apply op t = Some t' \<and> term_ok t'"
proof (cases op)
  case (TFeed bs)
  then show ?thesis if "term_ok t" using feed_ok [OF that, of bs] by (auto simp: goes_on_def)
next
  case (TResize r c)
  then show ?thesis if "term_ok t" "op_size_ok op"
    using buf_resize_ok [of "buffer t" r c] cursor_resize_fits [of r c "cursor t"] that
    by (auto simp: term_resize_def term_ok_def size_ok_def)
qed (auto simp: term_ok_def term_set_scrollback_limit_def set_scrollback_limit_def drain_response_def buf_ok_def Let_def)

text \<open>C21: a terminal of at least one row and column, fewer than \<open>10 ^ 10\<close> of either and fewer than
  \<open>2 ^ 58\<close> cells (so that a grid fits a vector and its size does not overflow) can be created and never
  panics, whatever bytes it is fed, in any order with resizes to such sizes, scrollback changes and
  reads of its responses; cursor and scroll region always stay on the screen.\<close>

theorem terminal_total:
  assumes "size_ok r c" "list_all op_size_ok ops"
  shows "\<exists>t0 t. term_new r c = Some t0 \<and> for_each ops term_apply t0 = Some t \<and> term_ok t"
proof -
  have "term_ok t \<Longrightarrow> \<exists>t'. for_each ops term_apply t = Some t' \<and> term_ok t'" for t
    by (rule for_each_keeps) (use assms(2) term_apply_ok in \<open>auto simp: list_all_iff\<close>)
  then show ?thesis using term_new_ok [OF assms(1)] by blast
qed

theorem terminal_total_witness:
  "\<exists>t0 t. term_new 25 80 = Some t0
     \<and> for_each [TFeed [0x1B, 0x5B, 0x41, 0xE2, 0x82, 0xAC], TResize 1 1, TFeed [0x0A]] term_apply t0 = Some t \<and> term_ok t"
  by (rule terminal_total) (simp_all add: size_ok_def)

text \<open>A terminal with more cells than \<open>usize\<close> counts cannot be created.\<close>

lemma term_new_overflow: "2 ^ 64 \<le> r * c \<Longrightarrow> term_new r c = None"
  by (simp add: term_new_def buf_new_def cmul64_def)

text \<open>Reference: the UTF-8 encoding of a scalar value.\<close>

definition utf8_encode :: "nat \<Rightarrow> byte list" where
  "utf8_encode c =
     map of_nat (if c < 0x80 then [c]
      else if c < 0x800 then [0xC0 + c div 64, 0x80 + c mod 64]
      else if c < 0x10000 then [0xE0 + c div 4096, 0x80 + c div 64 mod 64, 0x80 + c mod 64]
      else [0xF0 + c div 262144, 0x80 + c div 4096 mod 64, 0x80 + c div 64 mod 64, 0x80 + c mod 64])"

definition shown :: "nat \<Rightarrow> bool" where
  "shown c \<longleftrightarrow> 0x20 \<le> c \<and> c \<noteq> 0x7F \<and> char_from_u32 c = Some c"

definition at_rest :: "Terminal \<Rightarrow> bool" where
  "at_rest t \<longleftrightarrow> utf8 t = (0, 0, 0) \<and> pstate (parser t) = Ground"

lemma byte_nat [simp]:
  "n < 256 \<Longrightarrow> unat (of_nat n :: byte) = n"
  by (simp add: unat_of_nat_small)

lemma byte_le_iff: "n < 256 \<Longrightarrow> (of_nat n :: byte) \<le> b \<longleftrightarrow> n \<le> unat b" "n < 256 \<Longrightarrow> b \<le> (of_nat n :: byte) \<longleftrightarrow> unat b \<le> n"
    "n < 256 \<Longrightarrow> (of_nat n :: byte) < b \<longleftrightarrow> n < unat b"
  by (simp_all add: word_le_nat_alt word_less_nat_alt)

lemma feed_lead:
  assumes "utf8 t = (0, 0, 0)" "lead_byte (of_nat b) = Some (i, l)" "128 \<le> b" "b < 256"
  shows "feed_byte (of_nat b) t = Some (t\<lparr>utf8 := (i, 1, l)\<rparr>)"
  using assms by (subst feed_byte.simps) (simp add: byte_le_iff)

lemma feed_cont:
  assumes "utf8 t = (acc, seen, need)" "need \<noteq> 0" "x < 64" "acc * 64 < 2 ^ 32"
  shows "feed_byte (of_nat (0x80 + x)) t =
    (if seen + 1 = need
     then execute_action (t\<lparr>utf8 := (0, 0, 0)\<rparr>) (Print (case char_from_u32 (acc * 64 + x) of Some c \<Rightarrow> c | None \<Rightarrow> REPLACEMENT_CHARACTER))
     else Some (t\<lparr>utf8 := (acc * 64 + x, seen + 1, need)\<rparr>))"
proof -
  let ?b = "of_nat (0x80 + x) :: byte"
  have u: "unat ?b = 128 + x" using assms(3) by (simp add: unat_of_nat_small del: of_nat_add)
  moreover have "(128 + x) mod 64 = x" using mod_mult_self1 [of x 2 64] assms(3) by (simp add: add.commute)
  ultimately have "\<not> ?b < 0x80" "cont_byte ?b" "unat ?b mod 64 = x"
    using assms(3) by (simp_all add: word_less_nat_alt word_le_nat_alt cont_byte_def del: of_nat_add)
  then show ?thesis using assms by (subst feed_byte.simps) (simp add: Let_def del: execute_action.simps of_nat_add)
qed

lemma lead_byte_cases:
  "2 \<le> k \<Longrightarrow> k < 32 \<Longrightarrow> lead_byte (of_nat (0xC0 + k)) = Some (k, 2)"
  "k < 16 \<Longrightarrow> lead_byte (of_nat (0xE0 + k)) = Some (k, 3)"
  "k < 5 \<Longrightarrow> lead_byte (of_nat (0xF0 + k)) = Some (k, 4)"
proof -
  have m: "k < 32 \<Longrightarrow> (192 + k) mod 32 = k" "k < 16 \<Longrightarrow> (224 + k) mod 16 = k" "k < 5 \<Longrightarrow> (240 + k) mod 8 = k"
    using mod_mult_self1 [of k 6 32] mod_mult_self1 [of k 14 16] mod_mult_self1 [of k 30 8] by (simp_all add: add.commute)
  have u: "k < 32 \<Longrightarrow> unat (of_nat (192 + k) :: byte) = 192 + k" "k < 16 \<Longrightarrow> unat (of_nat (224 + k) :: byte) = 224 + k"
    "k < 5 \<Longrightarrow> unat (of_nat (240 + k) :: byte) = 240 + k"
    by (simp_all add: unat_of_nat_small del: of_nat_add)
  show "2 \<le> k \<Longrightarrow> k < 32 \<Longrightarrow> lead_byte (of_nat (0xC0 + k)) = Some (k, 2)"
    "k < 16 \<Longrightarrow> lead_byte (of_nat (0xE0 + k)) = Some (k, 3)"
    "k < 5 \<Longrightarrow> lead_byte (of_nat (0xF0 + k)) = Some (k, 4)"
    using m u by (simp_all add: lead_byte_def word_le_nat_alt del: of_nat_add)
qed

lemma utf8_rest [simp]: "utf8 t = (0, 0, 0) \<Longrightarrow> t\<lparr>utf8 := (0, 0, 0)\<rparr> = t"
  by (cases t) simp

lemma feed_ascii:
  assumes "at_rest t" "shown c" "c < 128"
  shows "feed t (utf8_encode c) = execute_action t (Print c)"
proof -
  let ?b = "of_nat c :: byte"
  have u: "unat ?b = c" using assms by simp
  then have "ground (parser t) ?b = (Some (Print c), parser t)"
    using assms by (simp add: ground_def word_le_nat_alt word_unat_eq_iff shown_def)
  then have "feed_byte ?b t = execute_action (t\<lparr>parser := parser t\<rparr>) (Print c)"
    using assms u by (subst feed_byte.simps) (simp add: word_less_nat_alt parser_feed_def at_rest_def del: execute_action.simps)
  then show ?thesis using assms(3) by (simp add: feed_def utf8_encode_def del: execute_action.simps)
qed

lemma feed_two:
  assumes "utf8 t = (0, 0, 0)" "char_from_u32 c = Some c" "128 \<le> c" "c < 2048"
  shows "feed t (utf8_encode c) = execute_action t (Print c)"
proof -
  have "c div 64 < 32" "2 \<le> c div 64" using assms(3,4) by simp_all
  then have "feed_byte (of_nat (0xC0 + c div 64)) t = Some (t\<lparr>utf8 := (c div 64, 1, 2)\<rparr>)"
    by (intro feed_lead assms(1) lead_byte_cases) auto
  moreover have "feed_byte (of_nat (0x80 + c mod 64)) (t\<lparr>utf8 := (c div 64, 1, 2)\<rparr>) = execute_action t (Print c)"
    using assms \<open>c div 64 < 32\<close> by (subst feed_cont [where acc = "c div 64" and seen = 1 and need = 2]) auto
  ultimately show ?thesis using assms(3,4) by (simp add: feed_def utf8_encode_def del: execute_action.simps of_nat_add)
qed

lemma feed_three:
  assumes "utf8 t = (0, 0, 0)" "char_from_u32 c = Some c" "2048 \<le> c" "c < 65536"
  shows "feed t (utf8_encode c) = execute_action t (Print c)"
proof -
  have "c div 4096 < 16" using assms(4) by simp
  then have "feed_byte (of_nat (0xE0 + c div 4096)) t = Some (t\<lparr>utf8 := (c div 4096, 1, 3)\<rparr>)"
    by (intro feed_lead assms(1) lead_byte_cases) auto
  moreover have "c div 4096 * 64 + c div 64 mod 64 = c div 64"
    using div_mult_mod_eq [of "c div 64" 64] div_mult2_eq [of c 64 64] by simp
  then have "feed_byte (of_nat (0x80 + c div 64 mod 64)) (t\<lparr>utf8 := (c div 4096, 1, 3)\<rparr>) = Some (t\<lparr>utf8 := (c div 64, 2, 3)\<rparr>)"
    using \<open>c div 4096 < 16\<close> by (subst feed_cont [where acc = "c div 4096" and seen = 1 and need = 3]) auto
  moreover have "feed_byte (of_nat (0x80 + c mod 64)) (t\<lparr>utf8 := (c div 64, 2, 3)\<rparr>) = execute_action t (Print c)"
    using assms by (subst feed_cont [where acc = "c div 64" and seen = 2 and need = 3]) auto
  ultimately show ?thesis using assms(3,4) by (simp add: feed_def utf8_encode_def del: execute_action.simps of_nat_add)
qed

lemma feed_four:
  assumes "utf8 t = (0, 0, 0)" "char_from_u32 c = Some c" "65536 \<le> c" "c < 0x110000"
  shows "feed t (utf8_encode c) = execute_action t (Print c)"
proof -
  have k: "c div 262144 < 5" "c div 4096 < 512" "c div 64 < 32768" using assms(4) by simp_all
  then have "feed_byte (of_nat (0xF0 + c div 262144)) t = Some (t\<lparr>utf8 := (c div 262144, 1, 4)\<rparr>)"
    by (intro feed_lead assms(1) lead_byte_cases) auto
  moreover have d: "c div 262144 * 64 + c div 4096 mod 64 = c div 4096" "c div 4096 * 64 + c div 64 mod 64 = c div 64"
    using div_mult_mod_eq [of "c div 4096" 64] div_mult_mod_eq [of "c div 64" 64] div_mult2_eq [of c 4096 64] div_mult2_eq [of c 64 64]
    by simp_all
  then have "feed_byte (of_nat (0x80 + c div 4096 mod 64)) (t\<lparr>utf8 := (c div 262144, 1, 4)\<rparr>) = Some (t\<lparr>utf8 := (c div 4096, 2, 4)\<rparr>)"
    using k by (subst feed_cont [where acc = "c div 262144" and seen = 1 and need = 4]) auto
  moreover have "feed_byte (of_nat (0x80 + c div 64 mod 64)) (t\<lparr>utf8 := (c div 4096, 2, 4)\<rparr>) = Some (t\<lparr>utf8 := (c div 64, 3, 4)\<rparr>)"
    using k d by (subst feed_cont [where acc = "c div 4096" and seen = 2 and need = 4]) auto
  moreover have "feed_byte (of_nat (0x80 + c mod 64)) (t\<lparr>utf8 := (c div 64, 3, 4)\<rparr>) = execute_action t (Print c)"
    using assms k by (subst feed_cont [where acc = "c div 64" and seen = 3 and need = 4]) auto
  ultimately show ?thesis using assms(3,4) by (simp add: feed_def utf8_encode_def del: execute_action.simps of_nat_add)
qed

lemma feed_char:
  assumes "at_rest t" "shown c"
  shows "feed t (utf8_encode c) = term_print t c"
proof -
  have c: "char_from_u32 c = Some c" "utf8 t = (0, 0, 0)" "c < 0x110000"
    using assms by (auto simp: shown_def at_rest_def char_from_u32_def split: if_splits)
  then show ?thesis
    using feed_ascii [OF assms] feed_two [OF c(2,1)] feed_three [OF c(2,1)] feed_four [OF c(2,1)]
    by (cases "c < 128"; cases "c < 2048"; cases "c < 65536") auto
qed

text \<open>C22: UTF-8 text of printable characters, of one to four bytes each, fed to a
  terminal at rest in one piece, prints exactly those characters, in order.\<close>

theorem utf8_roundtrip:
  assumes "at_rest t" "list_all shown cs"
  shows "feed t (concat (map utf8_encode cs)) = for_each cs (\<lambda>c t. term_print t c) t"
  using assms
proof (induction cs arbitrary: t)
  case (Cons c cs)
  have split: "feed t (utf8_encode c @ bs) = Option.bind (term_print t c) (\<lambda>t1. feed t1 bs)" for bs
    using feed_char [of t c] Cons.prems by (simp add: feed_def for_each_append)
  have "at_rest t1" if "term_print t c = Some t1" for t1
    using term_print_decoder [OF that] Cons.prems by (simp add: at_rest_def same_decoder_def)
  then show ?case using Cons by (cases "term_print t c") (simp_all add: split)
qed (simp add: feed_def)

theorem utf8_roundtrip_witness:
  "\<exists>t0. term_new 2 2 = Some t0 \<and>
    feed t0 (concat (map utf8_encode [104, 0x20AC, 0x1F600])) = for_each [104, 0x20AC, 0x1F600] (\<lambda>c t. term_print t c) t0"
proof -
  obtain t0 where t0: "term_new 2 2 = Some t0" "at_rest t0"
    by (simp add: at_rest_def term_new_def buf_new_def cmul64_def parser_new_def)
  then have "feed t0 (concat (map utf8_encode [104, 0x20AC, 0x1F600])) = for_each [104, 0x20AC, 0x1F600] (\<lambda>c t. term_print t c) t0"
    by (intro utf8_roundtrip) (simp_all add: shown_def char_from_u32_def)
  then show ?thesis using t0(1) by blast
qed

text \<open>C23: the answer to a cursor position query is read back by an escape parser as exactly
  the 1-based position of the cursor, on screens of up to 65535 rows and columns.\<close>

theorem cursor_report:
  assumes "term_ok t" "response_buf t = []" "rows (buffer t) \<le> U16_MAX" "cols (buffer t) \<le> U16_MAX"
  shows "\<exists>t'. execute_action t (CsiDispatch [6] [] 0x6E False) = Some t' \<and>
    fst (feed_bytes parser_new (response_buf t')) = [CsiDispatch [crow (cursor t) + 1, ccol (cursor t) + 1] [] 0x52 False]"
proof -
  let ?r = "crow (cursor t) + 1" and ?c = "ccol (cursor t) + 1"
  have rc: "?r \<le> U16_MAX" "?c \<le> U16_MAX" using assms by (auto simp: term_ok_def inv_defs)
  then have "execute_action t (CsiDispatch [6] [] 0x6E False) = Some (push_response ([0x1B, 0x5B] @ dec ?r @ [0x3B] @ dec ?c @ [0x52]) t)"
    by (simp add: execute_csi_def device_status_def write_response_cpr_eq U16_MAX_def)
  moreover obtain p' where "feed_bytes parser_new ([0x1B, 0x5B] @ dec ?r @ [0x3B] @ dec ?c @ [0x52]) = ([CsiDispatch [?r, ?c] [] 0x52 False], p')"
    using parse_csi_two [of parser_new ?r ?c "0x52"] rc by (auto simp: parser_new_def)
  ultimately show ?thesis using assms(2) by (simp add: push_response_def)
qed

theorem cursor_report_witness:
  "\<exists>t0 t'. term_new 25 80 = Some t0 \<and> execute_action t0 (CsiDispatch [6] [] 0x6E False) = Some t' \<and>
    fst (feed_bytes parser_new (response_buf t')) = [CsiDispatch [1, 1] [] 0x52 False]"
proof -
  obtain t0 where t0: "term_new 25 80 = Some t0" "term_ok t0" using term_new_ok [of 25 80] by (auto simp: size_ok_def)
  moreover have "response_buf t0 = []" "rows (buffer t0) = 25" "cols (buffer t0) = 80" "crow (cursor t0) = 0" "ccol (cursor t0) = 0"
    using t0(1) by (auto simp: term_new_def buf_new_def cmul64_def cursor_new_def)
  ultimately show ?thesis using cursor_report [of t0] by (simp add: U16_MAX_def)
qed

end
