(* ===== verification/DirTree.thy ===== *)
theory DirTree imports RPrelude begin

text \<open>
  The shape of a directory tree, apart from any file system: nodes below \<open>n\<close>, which of them are live,
  which are directories, the children of each and the names. The lemmas say that adding a leaf,
  removing a leaf, renaming and moving keep the shape a tree with unique names in each directory.
\<close>

definition child_rel :: "(nat \<Rightarrow> nat list) \<Rightarrow> (nat \<times> nat) set" where
  "child_rel kd = {(p, c). c \<in> set (kd p)}"

definition tree_ok :: "nat \<Rightarrow> (nat \<Rightarrow> bool) \<Rightarrow> (nat \<Rightarrow> bool) \<Rightarrow> (nat \<Rightarrow> nat list) \<Rightarrow> (nat \<Rightarrow> string) \<Rightarrow> bool" where
  "tree_ok n lv dr kd nm \<longleftrightarrow> 0 < n \<and> lv 0 \<and> dr 0
     \<and> (\<forall>p c. c \<in> set (kd p) \<longrightarrow> p < n \<and> lv p \<and> dr p \<and> c < n \<and> c \<noteq> 0 \<and> lv c)
     \<and> (\<forall>p. distinct (kd p) \<and> inj_on nm (set (kd p)))
     \<and> (\<forall>p q c. c \<in> set (kd p) \<longrightarrow> c \<in> set (kd q) \<longrightarrow> p = q)
     \<and> (\<forall>i. i < n \<and> lv i \<longrightarrow> (0, i) \<in> (child_rel kd)\<^sup>*)"

lemma tree_okD:
  assumes "tree_ok n lv dr kd nm"
  shows "0 < n" "lv 0" "dr 0" "c \<in> set (kd p) \<Longrightarrow> p < n \<and> lv p \<and> dr p \<and> c < n \<and> c \<noteq> 0 \<and> lv c"
    "distinct (kd p)" "inj_on nm (set (kd p))" "c \<in> set (kd p) \<Longrightarrow> c \<in> set (kd q) \<Longrightarrow> p = q"
    "i < n \<Longrightarrow> lv i \<Longrightarrow> (0, i) \<in> (child_rel kd)\<^sup>*"
  using assms unfolding tree_ok_def by blast+

lemma tree_okI:
  assumes "0 < n" "lv 0" "dr 0" "\<And>p c. c \<in> set (kd p) \<Longrightarrow> p < n \<and> lv p \<and> dr p \<and> c < n \<and> c \<noteq> 0 \<and> lv c"
    "\<And>p. distinct (kd p)" "\<And>p. inj_on nm (set (kd p))" "\<And>p q c. c \<in> set (kd p) \<Longrightarrow> c \<in> set (kd q) \<Longrightarrow> p = q"
    "\<And>i. i < n \<Longrightarrow> lv i \<Longrightarrow> (0, i) \<in> (child_rel kd)\<^sup>*"
  shows "tree_ok n lv dr kd nm"
  using assms unfolding tree_ok_def by blast

lemma child_rel_mono: "(\<And>p. set (kd p) \<subseteq> set (kd' p)) \<Longrightarrow> (child_rel kd)\<^sup>* \<subseteq> (child_rel kd')\<^sup>*"
  by (rule rtrancl_mono) (auto simp: child_rel_def)

lemma tree_add_leaf:
  assumes t: "tree_ok n lv dr kd nm" and p: "p < n" "lv p" "dr p" and x: "x \<notin> nm ` set (kd p)" and "kd n = []"
  shows "tree_ok (Suc n) (lv(n := True)) (dr(n := d)) (kd(p := kd p @ [n])) (nm(n := x))"
proof (rule tree_okI, goal_cases)
  note T = tree_okD [OF t]
  let ?kd = "kd(p := kd p @ [n])"
  have fresh: "n \<notin> set (kd q)" for q using T(4) by blast
  { case (4 q c) then show ?case using T(4) [of c q] T(4) [of c p] p T(1) by (auto split: if_splits) }
  { case (5 q) then show ?case using T(5) fresh by auto }
  { case (6 q) show ?case using T(6) [of q] T(6) [of p] fresh [of q] fresh [of p] x
      by (auto simp: inj_on_def) }
  { case (7 q1 q2 c) then show ?case using T(7) [of c q1 q2] fresh by (auto split: if_splits) }
  { case (8 i)
    have "(child_rel kd)\<^sup>* \<subseteq> (child_rel ?kd)\<^sup>*" by (rule child_rel_mono) auto
    then have up: "(0, j) \<in> (child_rel ?kd)\<^sup>*" if "j < n" "lv j" for j
      using T(8) [OF that] by blast
    have "(p, n) \<in> child_rel ?kd" by (simp add: child_rel_def)
    then have "(0, n) \<in> (child_rel ?kd)\<^sup>*" using up [OF p(1,2)] by (rule rtrancl_into_rtrancl [rotated])
    then show ?case using 8 up by (cases "i = n") auto }
qed (use tree_okD [OF t] p in auto)

lemma reach_without_leaf:
  assumes "kd c = []" "(a, i) \<in> (child_rel kd)\<^sup>*" "i \<noteq> c"
  shows "(a, i) \<in> (child_rel (kd(p := remove1 c (kd p))))\<^sup>*"
  using assms(2,3)
proof (induction rule: rtrancl_induct)
  case (step y z)
  have "y \<noteq> c" using step(2) assms(1) by (auto simp: child_rel_def)
  moreover have "(y, z) \<in> child_rel (kd(p := remove1 c (kd p)))"
    using step(2,4) by (auto simp: child_rel_def)
  ultimately show ?case using step(3) by (blast intro: rtrancl_into_rtrancl)
qed simp

lemma tree_remove_leaf:
  assumes t: "tree_ok n lv dr kd nm" and c: "c \<in> set (kd p)" "kd c = []"
  shows "tree_ok n (lv(c := False)) dr (kd(p := remove1 c (kd p))) nm"
proof (rule tree_okI, goal_cases)
  note T = tree_okD [OF t]
  { case (4 q d) then show ?case using T(4) [of d q] T(4) [of d p] T(7) [of d q p] c T(5) [of p]
      by (auto split: if_splits) }
  { case (5 q) then show ?case using T(5) [of q] by auto }
  { case (6 q) show ?case using T(6) [of q] T(6) [of p] T(5) by (auto simp: inj_on_def) }
  { case (7 q1 q2 d) then show ?case using T(7) [of d q1 q2] T(5) by (auto split: if_splits) }
  { case (8 i) then show ?case using reach_without_leaf [of kd c 0 i p] c(2) T(8) by (auto split: if_splits) }
qed (use tree_okD [OF t] c in auto)

lemma tree_rename:
  assumes t: "tree_ok n lv dr kd nm" and c: "c \<in> set (kd p)" and x: "x \<notin> nm ` (set (kd p) - {c})"
  shows "tree_ok n lv dr kd (nm(c := x))"
proof -
  note T = tree_okD [OF t]
  have "inj_on (nm(c := x)) (set (kd q))" for q
    using T(6) [of q] T(7) [of c p q] c x by (auto simp: inj_on_def)
  then show ?thesis using t by (auto simp: tree_ok_def)
qed

lemma reach_after_move:
  assumes t: "tree_ok n lv dr kd nm" and c: "c \<in> set (kd p)" and q: "q < n" "lv q" "(c, q) \<notin> (child_rel kd)\<^sup>*"
    and i: "i < n" "lv i" and pq: "p \<noteq> q"
  shows "(0, i) \<in> (child_rel (kd(p := remove1 c (kd p), q := kd q @ [c])))\<^sup>*"
proof -
  let ?R = "child_rel kd" and ?S = "child_rel (kd(p := remove1 c (kd p), q := kd q @ [c]))"
  have keep: "(y, z) \<in> ?S" if "(y, z) \<in> ?R" "z \<noteq> c" for y z
    using that pq by (auto simp: child_rel_def)
  have outside: "(0, x) \<in> ?S\<^sup>*" if "(0, x) \<in> ?R\<^sup>*" "(c, x) \<notin> ?R\<^sup>*" for x
    using that
  proof (induction rule: rtrancl_induct)
    case (step y z)
    then have "(c, y) \<notin> ?R\<^sup>*" "z \<noteq> c" by (auto intro: rtrancl_into_rtrancl)
    then show ?case using step keep by (blast intro: rtrancl_into_rtrancl)
  qed simp
  have "(q, c) \<in> ?S" by (simp add: child_rel_def)
  then have to_c: "(0, c) \<in> ?S\<^sup>*" using outside [OF tree_okD(8) [OF t q(1,2)] q(3)] by (rule rtrancl_into_rtrancl [rotated])
  have "(0, i) \<in> ?R\<^sup>*" using tree_okD(8) [OF t i] .
  then show ?thesis
  proof (induction rule: rtrancl_induct)
    case (step y z)
    show ?case
    proof (cases "z = c")
      case True
      then show ?thesis using to_c by blast
    next
      case False
      show ?thesis by (rule rtrancl_into_rtrancl [OF step.IH keep [OF step.hyps(2) False]])
    qed
  qed simp
qed

lemma tree_move:
  assumes t: "tree_ok n lv dr kd nm" and c: "c \<in> set (kd p)" and q: "q < n" "lv q" "dr q" "(c, q) \<notin> (child_rel kd)\<^sup>*"
    and pq: "p \<noteq> q" and x: "x \<notin> nm ` set (kd q)"
  shows "tree_ok n lv dr (kd(p := remove1 c (kd p), q := kd q @ [c])) (nm(c := x))"
proof (rule tree_okI, goal_cases)
  note T = tree_okD [OF t]
  have cq: "c \<notin> set (kd q)" using T(7) [of c p q] c pq by auto
  have dp: "distinct (kd p)" by (rule T(5))
  { case (4 r d) then show ?case using T(4) [of d r] T(4) [of d q] T(4) [of c p] c q dp pq by (auto split: if_splits) }
  { case (5 r) show ?case using T(5) cq pq by auto }
  { case (6 r)
    have "c \<notin> set (kd r)" if "r \<noteq> p" using T(7) [of c p r] c that by auto
    then show ?case using T(6) [of r] T(6) [of p] T(6) [of q] x dp cq pq by (auto simp: inj_on_def) }
  { case (7 r1 r2 d) then show ?case using T(7) c dp pq by (auto split: if_splits) }
  { case (8 i) then show ?case using reach_after_move [OF t c q(1,2,4) _ _ pq] by blast }
qed (use tree_okD [OF t] in auto)

end
