(* ===== verification/FdTable.thy ===== *)
theory FdTable imports Inode begin

text \<open>
  \<open>kernel/src/vfs/file.rs\<close>: open files and the per-process descriptor table. An \<open>Arc<OpenFile>\<close>
  is its address, of an abstract type \<open>'f\<close>: \<open>dup\<close> and \<open>fork\<close> copy the address, so that the offset
  is shared.
\<close>

definition O_RDONLY :: u32 where "O_RDONLY = 0"
definition O_WRONLY :: u32 where "O_WRONLY = 1"
definition O_RDWR :: u32 where "O_RDWR = 2"
definition O_CREAT :: u32 where "O_CREAT = 0x40"
definition O_TRUNC :: u32 where "O_TRUNC = 0x200"
definition O_APPEND :: u32 where "O_APPEND = 0x400"
definition ACCESS_MODE_MASK :: u32 where "ACCESS_MODE_MASK = 3"

record 's OpenFile =
  of_inode_num :: InodeNum
  of_inode :: "'s InodeOps"
  of_flags :: u32
  of_offset :: nat
  of_dev :: nat

definition open_file_new :: "InodeNum \<Rightarrow> 's InodeOps \<Rightarrow> u32 \<Rightarrow> 's OpenFile" where
  "open_file_new ino ops fl =
     \<lparr>of_inode_num = ino, of_inode = ops, of_flags = fl, of_offset = 0, of_dev = 0\<rparr>"

text \<open>The offset is an atomic \<open>u64\<close>: \<open>fetch_add\<close> wraps.\<close>

definition fetch_add64 :: "nat \<Rightarrow> nat \<Rightarrow> nat" where
  "fetch_add64 a n = (a + n) mod 2 ^ 64"

definition file_read ::
  "'s OpenFile \<Rightarrow> 's \<Rightarrow> nat \<Rightarrow> (byte list VfsResult \<times> 's OpenFile \<times> 's) option" where
  "file_read f st m =
     (if of_flags f AND ACCESS_MODE_MASK = O_WRONLY then Some (Inl PermissionDenied, f, st)
      else do {
        (r, st') \<leftarrow> iop_read (of_inode f) st (of_offset f) m;
        (case r of
           Inl e \<Rightarrow> Some (Inl e, f, st')
         | Inr bs \<Rightarrow> Some (Inr bs, f\<lparr>of_offset := fetch_add64 (of_offset f) (length bs)\<rparr>, st')) })"

definition file_write ::
  "'s OpenFile \<Rightarrow> 's \<Rightarrow> byte list \<Rightarrow> (nat VfsResult \<times> 's OpenFile \<times> 's) option" where
  "file_write f st d =
     (if of_flags f AND ACCESS_MODE_MASK = O_RDONLY then Some (Inl PermissionDenied, f, st)
      else
        let off = (if of_flags f AND O_APPEND \<noteq> 0
                   then (case iop_metadata (of_inode f) st of Inl e \<Rightarrow> Inl e | Inr m \<Rightarrow> Inr (im_size m))
                   else Inr (of_offset f)) in
        (case off of
           Inl e \<Rightarrow> Some (Inl e, f, st)
         | Inr o' \<Rightarrow> do {
             (r, st') \<leftarrow> iop_write (of_inode f) st o' d;
             (case r of
                Inl e \<Rightarrow> Some (Inl e, f, st')
              | Inr n \<Rightarrow> Some (Inr n, f\<lparr>of_offset := fetch_add64 (of_offset f) n\<rparr>, st')) }))"

text \<open>\<open>sys_lseek\<close> once the descriptor has been looked up. \<open>u64 as i64\<close> reinterprets the bits; the sum of
  two \<open>i64\<close> values panics on overflow.\<close>

definition as_signed64 :: "nat \<Rightarrow> int" where
  "as_signed64 n = (if n < 2 ^ 63 then int n else int n - 2 ^ 64)"

definition ciadd64 :: "int \<Rightarrow> int \<Rightarrow> int option" where
  "ciadd64 a b = (if - (2 ^ 63) \<le> a + b \<and> a + b < 2 ^ 63 then Some (a + b) else None)"

definition sys_lseek :: "'s OpenFile \<Rightarrow> 's \<Rightarrow> int \<Rightarrow> int \<Rightarrow> (int SyscallResult \<times> 's OpenFile) option" where
  "sys_lseek f st offset whence =
     (let current = of_offset f;
          sz = (case iop_metadata (of_inode f) st of Inr m \<Rightarrow> im_size m | Inl _ \<Rightarrow> 0) in do {
      r \<leftarrow> (if whence = 0 then Some (if offset < 0 then Inl EINVAL else Inr offset)
           else if whence = 1 then do { r \<leftarrow> ciadd64 (as_signed64 current) offset; Some (if r < 0 then Inl EINVAL else Inr r) }
           else if whence = 2 then do { r \<leftarrow> ciadd64 (as_signed64 sz) offset; Some (if r < 0 then Inl EINVAL else Inr r) }
           else Some (Inl EINVAL));
      (case r of Inl e \<Rightarrow> Some (Inl e, f)
       | Inr new_offset \<Rightarrow> Some (Inr new_offset, f\<lparr>of_offset := nat new_offset\<rparr>)) })"

section \<open>Descriptor tables\<close>

definition MAX_FDS :: nat where "MAX_FDS = 256"

type_synonym 'f FdTable = "'f option list"

definition fd_new :: "'f FdTable" where
  "fd_new = replicate MAX_FDS None"

definition fd_close_all :: "'f FdTable \<Rightarrow> 'f FdTable" where
  "fd_close_all t = map (\<lambda>_. None) t"

text \<open>The scan for the first empty slot, from index \<open>i\<close> on.\<close>

fun fd_alloc_from :: "nat \<Rightarrow> 'f FdTable \<Rightarrow> 'f \<Rightarrow> (int VfsResult \<times> 'f FdTable)" where
  "fd_alloc_from i [] f = (Inl TooManyOpenFiles, [])"
| "fd_alloc_from i (None # t) f = (Inr (int i), Some f # t)"
| "fd_alloc_from i (Some g # t) f = (case fd_alloc_from (Suc i) t f of (r, t') \<Rightarrow> (r, Some g # t'))"

definition fd_alloc :: "'f FdTable \<Rightarrow> 'f \<Rightarrow> int VfsResult \<times> 'f FdTable" where
  "fd_alloc t f = fd_alloc_from 0 t f"

definition fd_get :: "'f FdTable \<Rightarrow> int \<Rightarrow> 'f VfsResult" where
  "fd_get t fd =
     (if fd < 0 \<or> nat fd \<ge> length t then Inl BadFileDescriptor
      else case t ! nat fd of None \<Rightarrow> Inl BadFileDescriptor | Some f \<Rightarrow> Inr f)"

definition fd_close :: "'f FdTable \<Rightarrow> int \<Rightarrow> unit VfsResult \<times> 'f FdTable" where
  "fd_close t fd =
     (if fd < 0 \<or> nat fd \<ge> length t then (Inl BadFileDescriptor, t)
      else if t ! nat fd = None then (Inl BadFileDescriptor, t)
      else (Inr (), t[nat fd := None]))"

definition fd_dup :: "'f FdTable \<Rightarrow> int \<Rightarrow> int VfsResult \<times> 'f FdTable" where
  "fd_dup t oldfd = (case fd_get t oldfd of Inl e \<Rightarrow> (Inl e, t) | Inr f \<Rightarrow> fd_alloc t f)"

definition fd_dup2 :: "'f FdTable \<Rightarrow> int \<Rightarrow> int \<Rightarrow> int VfsResult \<times> 'f FdTable" where
  "fd_dup2 t oldfd newfd =
     (if newfd < 0 \<or> nat newfd \<ge> length t then (Inl BadFileDescriptor, t)
      else case fd_get t oldfd of
        Inl e \<Rightarrow> (Inl e, t)
      | Inr f \<Rightarrow> (let t' = snd (fd_close t newfd) in (Inr newfd, t'[nat newfd := Some f])))"

text \<open>\<open>clone_into\<close>: entries of the source up to the shorter length.\<close>

definition fd_clone_into :: "'f FdTable \<Rightarrow> 'f FdTable \<Rightarrow> 'f FdTable" where
  "fd_clone_into src dst = take (length dst) src @ drop (length src) dst"

definition fd_clone_fds :: "'f FdTable \<Rightarrow> 'f FdTable" where
  "fd_clone_fds t = fd_clone_into t fd_new"

section \<open>Lemmas\<close>

lemma fd_alloc_from_full:
  "None \<notin> set t \<Longrightarrow> fd_alloc_from i t f = (Inl TooManyOpenFiles, t)"
  by (induction i t f rule: fd_alloc_from.induct) auto

lemma fd_alloc_from_free:
  "None \<in> set t \<Longrightarrow> \<exists>k < length t. t ! k = None \<and> (\<forall>j<k. t ! j \<noteq> None)
     \<and> fd_alloc_from i t f = (Inr (int (i + k)), t[k := Some f])"
proof (induction i t f rule: fd_alloc_from.induct)
  case (3 i g t f)
  then obtain k where "k < length t" "t ! k = None" "\<forall>j<k. t ! j \<noteq> None"
    "fd_alloc_from (Suc i) t f = (Inr (int (Suc i + k)), t[k := Some f])" by auto
  then show ?case by (intro exI [of _ "Suc k"]) (auto simp: nth_Cons split: nat.splits)
qed auto

lemmas fd_defs = fd_alloc_def fd_get_def fd_close_def fd_dup_def fd_dup2_def


text \<open>Every operation keeps the size of the table.\<close>

lemma fd_alloc_cases:
  obtains "None \<notin> set t" "fd_alloc t f = (Inl TooManyOpenFiles, t)"
  | k where "k < length t" "t ! k = None" "\<forall>j<k. t ! j \<noteq> None"
      "fd_alloc t f = (Inr (int k), t[k := Some f])"
proof (cases "None \<in> set t")
  case True
  from fd_alloc_from_free [OF this, of 0 f] that(2) show ?thesis by (auto simp: fd_alloc_def)
qed (use that(1) fd_alloc_from_full [of t 0 f] in \<open>simp add: fd_alloc_def\<close>)

lemma fd_length:
  "length (snd (fd_alloc t f)) = length t"
  "length (snd (fd_close t fd)) = length t"
  "length (snd (fd_dup t fd)) = length t"
  "length (snd (fd_dup2 t fd fd')) = length t"
proof -
  show a: "length (snd (fd_alloc t f)) = length t" for f
    by (rule fd_alloc_cases [of t f]) auto
  show "length (snd (fd_close t fd)) = length t" for fd by (simp add: fd_close_def)
  then show "length (snd (fd_dup2 t fd fd')) = length t"
    by (simp add: fd_dup2_def Let_def split: sum.splits)
  show "length (snd (fd_dup t fd)) = length t" by (simp add: fd_dup_def a split: sum.splits)
qed

section \<open>Streams over random access files\<close>

text \<open>Bytes \<open>b\<close> written at \<open>off\<close> over the content \<open>d\<close>.\<close>

definition overwrite :: "byte list \<Rightarrow> nat \<Rightarrow> byte list \<Rightarrow> byte list" where
  "overwrite d off b = take off d @ b @ drop (off + length b) d"

lemma overwrite_end: "overwrite d (length d) b = d @ b"
  by (simp add: overwrite_def)

text \<open>Chunks written, and chunks read, one after the other through one open file. A writer stops at the
  first error.\<close>

fun write_all :: "'s OpenFile \<Rightarrow> 's \<Rightarrow> byte list list \<Rightarrow> (bool \<times> 's OpenFile \<times> 's) option" where
  "write_all f s [] = Some (True, f, s)"
| "write_all f s (d # ds) = do {
     (r, f', s') \<leftarrow> file_write f s d;
     (case r of Inl e \<Rightarrow> Some (False, f', s') | Inr n \<Rightarrow> write_all f' s' ds) }"

fun read_all :: "'s OpenFile \<Rightarrow> 's \<Rightarrow> nat list \<Rightarrow> (byte list \<times> 's OpenFile \<times> 's) option" where
  "read_all f s [] = Some ([], f, s)"
| "read_all f s (n # ns) = do {
     (r, f', s') \<leftarrow> file_read f s n;
     (case r of Inl e \<Rightarrow> Some ([], f', s')
      | Inr bs \<Rightarrow> do { (rest, f'', s'') \<leftarrow> read_all f' s' ns; Some (bs @ rest, f'', s'') }) }"

text \<open>What an open file relies on from the inode behind it: a read returns the bytes that are there and
  changes nothing; a write inside the file or at its end replaces exactly the bytes under it when the
  file has room to grow that much, and otherwise fails and changes nothing.\<close>

locale random_access =
  fixes ops :: "'s InodeOps" and content :: "'s \<Rightarrow> byte list" and room :: "'s \<Rightarrow> nat" and invar :: "'s \<Rightarrow> bool"
  assumes read_ok: "invar s \<Longrightarrow> iop_read ops s off n = Some (Inr (take n (drop off (content s))), s)"
    and write_ok: "invar s \<Longrightarrow> off \<le> length (content s) \<Longrightarrow> off + length d < 2 ^ 63 \<Longrightarrow>
      \<exists>r s'. iop_write ops s off d = Some (r, s') \<and> invar s'
        \<and> (case r of
            Inl e \<Rightarrow> s' = s \<and> length (content s) + room s < off + length d
          | Inr n \<Rightarrow> n = length d \<and> content s' = overwrite (content s) off d
              \<and> length (content s') + room s' = length (content s) + room s)"
begin

lemma file_write_at_end:
  assumes "invar s" "of_inode f = ops" "of_flags f = O_RDWR" "of_offset f = length (content s)" "length (content s) + length d < 2 ^ 63"
  shows "\<exists>r f' s'. file_write f s d = Some (r, f', s') \<and> invar s' \<and> (case r of Inl e \<Rightarrow> s' = s \<and> room s < length d
    | Inr n \<Rightarrow> content s' = content s @ d \<and> room s = length d + room s' \<and> f' = f\<lparr>of_offset := length (content s')\<rparr>)"
proof -
  obtain r s' where w: "iop_write ops s (length (content s)) d = Some (r, s')" "invar s'"
    "case r of
       Inl e \<Rightarrow> s' = s \<and> length (content s) + room s < length (content s) + length d
     | Inr n \<Rightarrow> n = length d \<and> content s' = overwrite (content s) (length (content s)) d
         \<and> length (content s') + room s' = length (content s) + room s"
    using write_ok [OF assms(1) order_refl assms(5)] by blast
  have fl: "of_flags f AND ACCESS_MODE_MASK \<noteq> O_RDONLY" "of_flags f AND O_APPEND = 0"
    using assms(3) by (simp_all add: O_RDWR_def ACCESS_MODE_MASK_def O_RDONLY_def O_APPEND_def)
  show ?thesis
    using w fl assms(2,4,5) by (cases r) (auto simp: file_write_def overwrite_end fetch_add64_def)
qed

text \<open>The chunks that fit are written, up to the first one that does not.\<close>

lemma write_all_stream:
  assumes "invar s" "of_inode f = ops" "of_flags f = O_RDWR" "of_offset f = length (content s)"
    "length (content s) + length (concat ds) < 2 ^ 63"
  shows "\<exists>k f' s'. write_all f s ds = Some (k = length ds, f', s') \<and> invar s' \<and> k \<le> length ds
    \<and> content s' = content s @ concat (take k ds) \<and> length (concat (take k ds)) \<le> room s
    \<and> (k < length ds \<longrightarrow> room s < length (concat (take (Suc k) ds)))"
  using assms
proof (induction ds arbitrary: f s)
  case (Cons d ds)
  obtain r f1 s1 where w: "file_write f s d = Some (r, f1, s1)" "invar s1"
    "case r of Inl e \<Rightarrow> s1 = s \<and> room s < length d
     | Inr n \<Rightarrow> content s1 = content s @ d \<and> room s = length d + room s1 \<and> f1 = f\<lparr>of_offset := length (content s1)\<rparr>"
    using file_write_at_end [OF Cons.prems(1-4), of d] Cons.prems(5) by auto
  show ?case
  proof (cases r)
    case (Inl e)
    then show ?thesis using w by (intro exI [of _ 0]) simp
  next
    case (Inr n)
    then obtain k f' s' where "write_all f1 s1 ds = Some (k = length ds, f', s')" "invar s'" "k \<le> length ds"
      "content s' = content s1 @ concat (take k ds)" "length (concat (take k ds)) \<le> room s1"
      "k < length ds \<longrightarrow> room s1 < length (concat (take (Suc k) ds))"
      using Cons.IH [of s1 f1] w Cons.prems by auto
    then show ?thesis using w Inr by (intro exI [of _ "Suc k"]) auto
  qed
qed auto

lemma read_all_stream:
  assumes "invar s" "of_inode f = ops" "of_flags f = O_RDWR" "length (content s) < 2 ^ 63" "of_offset f \<le> length (content s)"
  shows "\<exists>f'. read_all f s ns = Some (take (sum_list ns) (drop (of_offset f) (content s)), f', s)"
  using assms(2,3,5)
proof (induction ns arbitrary: f)
  case (Cons n ns)
  let ?bs = "take n (drop (of_offset f) (content s))"
  let ?f = "f\<lparr>of_offset := of_offset f + length ?bs\<rparr>"
  have "of_flags f AND ACCESS_MODE_MASK \<noteq> O_WRONLY" using Cons.prems by (simp add: O_RDWR_def ACCESS_MODE_MASK_def O_WRONLY_def)
  moreover have small: "of_offset f + length ?bs \<le> length (content s)" using Cons.prems(3) by simp
  ultimately have "file_read f s n = Some (Inr ?bs, ?f, s)"
    using read_ok [OF assms(1), of "of_offset f" n] Cons.prems assms(4) by (simp add: file_read_def fetch_add64_def)
  moreover obtain f' where "read_all ?f s ns = Some (take (sum_list ns) (drop (of_offset ?f) (content s)), f', s)"
    using Cons.IH [of ?f] Cons.prems small by auto
  moreover have "?bs @ take (sum_list ns) (drop (of_offset f + length ?bs) (content s)) = take (n + sum_list ns) (drop (of_offset f) (content s))"
    by (cases "n \<le> length (content s) - of_offset f") (auto simp: take_add add.commute)
  ultimately show ?case by auto
qed simp

lemma stream_roundtrip:
  assumes "invar s" "content s = []" "length (concat ds) < 2 ^ 63"
  shows "\<exists>k f' s'. write_all (open_file_new i ops O_RDWR) s ds = Some (k = length ds, f', s') \<and> invar s' \<and> k \<le> length ds
    \<and> length (concat (take k ds)) \<le> room s \<and> (k < length ds \<longrightarrow> room s < length (concat (take (Suc k) ds)))
    \<and> content s' = concat (take k ds)
    \<and> (\<exists>f''. read_all (open_file_new i ops O_RDWR) s' ns = Some (take (sum_list ns) (concat (take k ds)), f'', s'))"
proof -
  obtain k f' s' where w: "write_all (open_file_new i ops O_RDWR) s ds = Some (k = length ds, f', s')" "invar s'" "k \<le> length ds"
    "content s' = concat (take k ds)" "length (concat (take k ds)) \<le> room s"
    "k < length ds \<longrightarrow> room s < length (concat (take (Suc k) ds))"
    using write_all_stream [of s "open_file_new i ops O_RDWR" ds] assms by (auto simp: open_file_new_def)
  have "length (concat ds) = length (concat (take k ds)) + length (concat (drop k ds))"
    by (metis append_take_drop_id concat_append length_append)
  then have "length (content s') < 2 ^ 63" using w(4) assms(3) by simp
  then have "\<exists>f''. read_all (open_file_new i ops O_RDWR) s' ns = Some (take (sum_list ns) (concat (take k ds)), f'', s')"
    using read_all_stream [OF w(2), of "open_file_new i ops O_RDWR" ns] w(4) by (auto simp: open_file_new_def)
  then show ?thesis using w by blast
qed

end

section \<open>Properties\<close>


text \<open>a successful \<open>dup2\<close> makes the new descriptor refer to the same open file as the old
  one (also when they are equal), leaves every other descriptor alone, and fails without any
  change exactly when the old descriptor is not open or the new one is out of range.\<close>

theorem fd_dup2_shares:
  "case fd_dup2 t old new of
     (Inl e, t') \<Rightarrow> e = BadFileDescriptor \<and> t' = t
        \<and> (new < 0 \<or> int (length t) \<le> new \<or> fd_get t old = Inl BadFileDescriptor)
   | (Inr r, t') \<Rightarrow> r = new \<and> (\<exists>f. fd_get t old = Inr f
        \<and> (\<forall>j. fd_get t' j = (if j = new then Inr f else fd_get t j)))"
proof (cases "new < 0 \<or> nat new \<ge> length t")
  case True
  then show ?thesis by (auto simp: fd_dup2_def)
next
  case False
  then have "fd_get ((snd (fd_close t new))[nat new := Some f]) j = (if j = new then Inr f else fd_get t j)" for j f
    by (auto simp: fd_get_def fd_close_def nth_list_update)
  moreover have "fd_get t old = Inl BadFileDescriptor \<or> (\<exists>f. fd_get t old = Inr f)"
    by (auto simp: fd_get_def split: option.splits)
  ultimately show ?thesis using False by (auto simp: fd_dup2_def Let_def)
qed

text \<open>C28: on files below \<open>2 ^ 63\<close> bytes \<open>lseek\<close> moves to the base (start, current position or
  end) plus the offset, fails with \<open>EINVAL\<close> and no change when that is negative, and panics exactly
  when the sum exceeds \<open>i64::MAX\<close>.\<close>

theorem lseek_exact:
  assumes "of_offset f < 2 ^ 63" "iop_metadata (of_inode f) st = Inr m" "im_size m < 2 ^ 63"
    "- (2 ^ 63) \<le> offset" "offset < 2 ^ 63" "whence \<in> {0, 1, 2}"
  defines "target \<equiv> (if whence = 0 then 0 else if whence = 1 then int (of_offset f) else int (im_size m)) + offset"
  shows "sys_lseek f st offset whence =
    (if target \<ge> 2 ^ 63 then None else if target < 0 then Some (Inl EINVAL, f)
     else Some (Inr target, f\<lparr>of_offset := nat target\<rparr>))"
  using assms by (auto simp: sys_lseek_def ciadd64_def as_signed64_def Let_def)

definition null_inode :: "unit InodeOps" where
  "null_inode = \<lparr>iop_read = (\<lambda>s _ _. Some (Inr [], s)), iop_write = (\<lambda>s _ d. Some (Inr (length d), s)),
     iop_metadata = (\<lambda>s. Inr (inode_metadata_new 1 CharDevice)), iop_set_metadata = (\<lambda>s _. (Inr (), s)),
     iop_lookup = (\<lambda>s _. Inl NotFound), iop_readdir = (\<lambda>s. Inl NotADirectory), iop_truncate = (\<lambda>s _. Some (Inr (), s))\<rparr>"

theorem lseek_exact_witness:
  "sys_lseek ((open_file_new 1 null_inode O_RDWR)\<lparr>of_offset := 1\<rparr>) () (2 ^ 63 - 1) 1 = None
   \<and> sys_lseek ((open_file_new 1 null_inode O_RDWR)\<lparr>of_offset := 1\<rparr>) () 4 1
     = Some (Inr 5, (open_file_new 1 null_inode O_RDWR)\<lparr>of_offset := 5\<rparr>)"
  using lseek_exact [of "(open_file_new 1 null_inode O_RDWR)\<lparr>of_offset := 1\<rparr>" "()" "inode_metadata_new 1 CharDevice" "2 ^ 63 - 1" 1]
    lseek_exact [of "(open_file_new 1 null_inode O_RDWR)\<lparr>of_offset := 1\<rparr>" "()" "inode_metadata_new 1 CharDevice" 4 1]
  by (simp add: open_file_new_def null_inode_def inode_metadata_new_def)

end
