(* ===== verification/Tmpfs.thy ===== *)
theory Tmpfs imports DirTree FdTable begin

text \<open>
  \<open>kernel/src/vfs/tmpfs.rs\<close>: the in-memory file system. A node is identified by its index in the node
  table. Operations return the result and the new state; \<open>None\<close> is a panic (an index out of range,
  or an addition on \<open>usize\<close> that overflows). A \<open>Vec\<close> used as a stack has its top first.
\<close>

definition TMPFS_MAX_SIZE :: nat where "TMPFS_MAX_SIZE = 16 * 1024 * 1024"

record TmpfsNode =
  tn_name :: string
  tn_ino :: InodeNum
  tn_file_type :: FileType
  tn_mode :: FileMode
  tn_uid :: u32
  tn_gid :: u32
  tn_data :: "byte list"
  tn_children :: "InodeNum list"
  tn_removed :: bool

record Tmpfs =
  nodes :: "TmpfsNode list"
  total_bytes :: nat

definition new_node :: "string \<Rightarrow> InodeNum \<Rightarrow> FileType \<Rightarrow> FileMode \<Rightarrow> TmpfsNode" where
  "new_node nm ino ft md = \<lparr>tn_name = nm, tn_ino = ino, tn_file_type = ft, tn_mode = md, tn_uid = 0, tn_gid = 0,
     tn_data = [], tn_children = [], tn_removed = False\<rparr>"

definition tmpfs_new :: Tmpfs where
  "tmpfs_new = \<lparr>nodes = [new_node ''/'' 0 Directory (file_mode_new 0x1ED)], total_bytes = 0\<rparr>"

definition alloc_ino :: "Tmpfs \<Rightarrow> InodeNum" where
  "alloc_ino fs = length (nodes fs)"

text \<open>\<open>nodes.get(ino)\<close>, with the error the code gives, and the directory check that follows it.\<close>

definition node_get :: "Tmpfs \<Rightarrow> InodeNum \<Rightarrow> TmpfsNode VfsResult" where
  "node_get fs i = (if i < length (nodes fs) then Inr (nodes fs ! i) else Inl NotFound)"

definition dir_get :: "Tmpfs \<Rightarrow> InodeNum \<Rightarrow> TmpfsNode VfsResult" where
  "dir_get fs i = (case node_get fs i of Inl e \<Rightarrow> Inl e
     | Inr nd \<Rightarrow> if tn_file_type nd \<noteq> Directory \<or> tn_removed nd then Inl NotADirectory else Inr nd)"

definition is_child :: "Tmpfs \<Rightarrow> string \<Rightarrow> InodeNum \<Rightarrow> bool" where
  "is_child fs nm c \<longleftrightarrow> c < length (nodes fs) \<and> \<not> tn_removed (nodes fs ! c) \<and> tn_name (nodes fs ! c) = nm"

text \<open>The scan of a child list for a name, with the position of the hit.\<close>

fun find_entry :: "Tmpfs \<Rightarrow> string \<Rightarrow> InodeNum list \<Rightarrow> nat \<Rightarrow> (nat \<times> InodeNum) option" where
  "find_entry fs nm [] i = None"
| "find_entry fs nm (c # cs) i = (if is_child fs nm c then Some (i, c) else find_entry fs nm cs (Suc i))"

definition update_node :: "InodeNum \<Rightarrow> (TmpfsNode \<Rightarrow> TmpfsNode) \<Rightarrow> Tmpfs \<Rightarrow> Tmpfs option" where
  "update_node i f fs = do {
     nd \<leftarrow> aget (nodes fs) i;
     ns \<leftarrow> aset (nodes fs) i (f nd);
     Some (fs\<lparr>nodes := ns\<rparr>) }"

text \<open>\<open>create_file\<close> and \<open>create_dir\<close> share this body up to the type and mode of the node.\<close>

definition create_node :: "FileType \<Rightarrow> FileMode \<Rightarrow> Tmpfs \<Rightarrow> InodeNum \<Rightarrow> string \<Rightarrow> InodeNum VfsResult \<times> Tmpfs" where
  "create_node ft md fs parent nm =
     (case dir_get fs parent of Inl e \<Rightarrow> (Inl e, fs)
      | Inr p \<Rightarrow>
          if list_ex (is_child fs nm) (tn_children p) then (Inl AlreadyExists, fs)
          else let ino = alloc_ino fs;
                   ns = nodes fs @ [new_node nm ino ft md] in
            if parent < length ns then
              (Inr ino, fs\<lparr>nodes := ns[parent := (ns ! parent)\<lparr>tn_children := tn_children (ns ! parent) @ [ino]\<rparr>]\<rparr>)
            else (Inl NotFound, fs\<lparr>nodes := ns\<rparr>))"

definition create_file :: "Tmpfs \<Rightarrow> InodeNum \<Rightarrow> string \<Rightarrow> InodeNum VfsResult \<times> Tmpfs" where
  "create_file = create_node Regular (file_mode_new 0x1A4)"

definition create_dir :: "Tmpfs \<Rightarrow> InodeNum \<Rightarrow> string \<Rightarrow> InodeNum VfsResult \<times> Tmpfs" where
  "create_dir = create_node Directory (file_mode_new 0x1ED)"

definition live_count :: "Tmpfs \<Rightarrow> InodeNum list \<Rightarrow> nat" where
  "live_count fs cs = length (filter (\<lambda>c. c < length (nodes fs) \<and> \<not> tn_removed (nodes fs ! c)) cs)"

text \<open>Release a node: its bytes go back to the budget, its data is dropped, it is marked removed and
  leaves its parent's list at the given position.\<close>

definition aremove :: "'a list \<Rightarrow> nat \<Rightarrow> 'a list option" where
  "aremove xs i = (if i < length xs then Some (take i xs @ drop (Suc i) xs) else None)"

definition drop_child :: "InodeNum \<Rightarrow> nat \<Rightarrow> Tmpfs \<Rightarrow> Tmpfs option" where
  "drop_child parent idx fs = do {
     p \<leftarrow> aget (nodes fs) parent;
     cs \<leftarrow> aremove (tn_children p) idx;
     update_node parent (\<lambda>n. n\<lparr>tn_children := cs\<rparr>) fs }"

definition release_node :: "InodeNum \<Rightarrow> nat \<Rightarrow> InodeNum \<Rightarrow> Tmpfs \<Rightarrow> Tmpfs option" where
  "release_node parent idx child fs = do {
     c \<leftarrow> aget (nodes fs) child;
     fs1 \<leftarrow> update_node child (\<lambda>n. n\<lparr>tn_data := [], tn_removed := True\<rparr>)
             (fs\<lparr>total_bytes := total_bytes fs - length (tn_data c)\<rparr>);
     drop_child parent idx fs1 }"

definition unlink :: "Tmpfs \<Rightarrow> InodeNum \<Rightarrow> string \<Rightarrow> (unit VfsResult \<times> Tmpfs) option" where
  "unlink fs parent nm =
     (case dir_get fs parent of Inl e \<Rightarrow> Some (Inl e, fs)
      | Inr p \<Rightarrow> (case find_entry fs nm (tn_children p) 0 of None \<Rightarrow> Some (Inl NotFound, fs)
          | Some (idx, child) \<Rightarrow> (case node_get fs child of Inl e \<Rightarrow> Some (Inl e, fs)
              | Inr c \<Rightarrow>
                  if tn_file_type c = Directory \<and> live_count fs (tn_children c) > 0
                  then Some (Inl InvalidArgument, fs)
                  else do { fs1 \<leftarrow> release_node parent idx child fs; Some (Inr (), fs1) })))"

definition find_child :: "Tmpfs \<Rightarrow> InodeNum \<Rightarrow> string \<Rightarrow> (nat \<times> InodeNum) option VfsResult" where
  "find_child fs parent nm = (case dir_get fs parent of Inl e \<Rightarrow> Inl e
     | Inr p \<Rightarrow> Inr (find_entry fs nm (tn_children p) 0))"

text \<open>The children loop of \<open>is_below\<close>: \<open>None\<close> when the directory sought is among them, else the stack.\<close>

fun push_dirs :: "Tmpfs \<Rightarrow> InodeNum \<Rightarrow> InodeNum list \<Rightarrow> InodeNum list \<Rightarrow> InodeNum list option" where
  "push_dirs fs dir [] stack = Some stack"
| "push_dirs fs dir (c # cs) stack =
     (if c = dir then None
      else push_dirs fs dir cs
        (if c < length (nodes fs) \<and> tn_file_type (nodes fs ! c) = Directory \<and> \<not> tn_removed (nodes fs ! c)
         then c # stack else stack))"

function below_loop :: "Tmpfs \<Rightarrow> InodeNum \<Rightarrow> InodeNum list \<Rightarrow> nat \<Rightarrow> bool" where
  "below_loop fs dir [] visited = False"
| "below_loop fs dir (cur # stack) visited =
     (if visited + 1 > length (nodes fs) + 1 then True
      else case push_dirs fs dir (if cur < length (nodes fs) then tn_children (nodes fs ! cur) else []) stack of
             None \<Rightarrow> True
           | Some stack' \<Rightarrow> below_loop fs dir stack' (visited + 1))"
  by pat_completeness auto

termination
  by (relation "measure (\<lambda>(fs, dir, stack, visited). length (nodes fs) + 1 - visited)") auto

definition is_below :: "Tmpfs \<Rightarrow> InodeNum \<Rightarrow> InodeNum \<Rightarrow> bool" where
  "is_below fs tp dir = below_loop fs dir [tp] 0"

text \<open>The checks of \<open>rename\<close> on an existing target.\<close>

definition target_error :: "Tmpfs \<Rightarrow> bool \<Rightarrow> TmpfsNode \<Rightarrow> VfsError option" where
  "target_error fs src_is_dir dst =
     (let dst_is_dir = (tn_file_type dst = Directory) in
      if src_is_dir \<and> \<not> dst_is_dir then Some NotADirectory
      else if \<not> src_is_dir \<and> dst_is_dir then Some IsADirectory
      else if src_is_dir \<and> dst_is_dir \<and> live_count fs (tn_children dst) > 0 then Some DirectoryNotEmpty
      else None)"

fun position :: "nat \<Rightarrow> nat list \<Rightarrow> nat option" where
  "position x [] = None"
| "position x (y # ys) = (if y = x then Some 0 else map_option Suc (position x ys))"

text \<open>The last part of \<open>rename\<close>: the new name, and the move from one directory to another.\<close>

definition rename_move :: "InodeNum \<Rightarrow> nat \<Rightarrow> InodeNum \<Rightarrow> InodeNum \<Rightarrow> string \<Rightarrow> Tmpfs \<Rightarrow> Tmpfs option" where
  "rename_move op idx src np x fs = do {
     fs2 \<leftarrow> update_node src (\<lambda>n. n\<lparr>tn_name := x\<rparr>) fs;
     if op \<noteq> np then do {
       fs' \<leftarrow> drop_child op idx fs2;
       update_node np (\<lambda>n. n\<lparr>tn_children := tn_children n @ [src]\<rparr>) fs' }
     else Some fs2 }"

text \<open>The part of \<open>rename\<close> after all checks have passed.\<close>

definition rename_commit ::
  "Tmpfs \<Rightarrow> InodeNum \<Rightarrow> nat \<times> InodeNum \<Rightarrow> InodeNum \<Rightarrow> string \<Rightarrow> (nat \<times> InodeNum) option \<Rightarrow> (unit VfsResult \<times> Tmpfs) option" where
  "rename_commit fs old_parent src new_parent new_name existing =
     (case src of (src_idx, src_ino) \<Rightarrow> do {
        fs1 \<leftarrow> (case existing of None \<Rightarrow> Some fs
                | Some (dst_idx, dst_ino) \<Rightarrow> release_node new_parent dst_idx dst_ino fs);
        op \<leftarrow> aget (nodes fs1) old_parent;
        (case (if old_parent = new_parent \<and> existing \<noteq> None then position src_ino (tn_children op) else Some src_idx) of
           None \<Rightarrow> Some (Inl NotFound, fs1)
         | Some idx \<Rightarrow> do {
             fs2 \<leftarrow> rename_move old_parent idx src_ino new_parent new_name fs1;
             Some (Inr (), fs2) }) })"

definition rename :: "Tmpfs \<Rightarrow> InodeNum \<Rightarrow> string \<Rightarrow> InodeNum \<Rightarrow> string \<Rightarrow> (unit VfsResult \<times> Tmpfs) option" where
  "rename fs old_parent old_name new_parent new_name =
     (if new_name = [] then Some (Inl InvalidArgument, fs)
      else case find_child fs old_parent old_name of
        Inl e \<Rightarrow> Some (Inl e, fs)
      | Inr None \<Rightarrow> Some (Inl NotFound, fs)
      | Inr (Some (src_idx, src_ino)) \<Rightarrow>
          (case find_child fs new_parent new_name of
             Inl e \<Rightarrow> Some (Inl e, fs)
           | Inr existing \<Rightarrow> do {
               s \<leftarrow> aget (nodes fs) src_ino;
               let src_is_dir = (tn_file_type s = Directory) in
               (case existing of
                  Some (dst_idx, dst_ino) \<Rightarrow>
                    if dst_ino = src_ino then Some (Some (Inr ()))
                    else do { d \<leftarrow> aget (nodes fs) dst_ino; Some (map_option Inl (target_error fs src_is_dir d)) }
                | None \<Rightarrow> Some None) \<bind> (\<lambda>early.
               case early of Some r \<Rightarrow> Some (r, fs)
               | None \<Rightarrow>
                   if src_is_dir \<and> old_parent \<noteq> new_parent \<and> (new_parent = src_ino \<or> is_below fs src_ino new_parent)
                   then Some (Inl InvalidArgument, fs)
                   else rename_commit fs old_parent (src_idx, src_ino) new_parent new_name existing) }))"

section \<open>Paths\<close>

text \<open>\<open>str::split('/')\<close>.\<close>

fun split_slash :: "string \<Rightarrow> string list" where
  "split_slash [] = [[]]"
| "split_slash (c # s) = (if c = CHR ''/'' then [] # split_slash s
     else case split_slash s of p # ps \<Rightarrow> (c # p) # ps | [] \<Rightarrow> [[c]])"

fun walk :: "Tmpfs \<Rightarrow> InodeNum \<Rightarrow> string list \<Rightarrow> InodeNum VfsResult" where
  "walk fs cur [] = Inr cur"
| "walk fs cur (c # cs) = (case dir_get fs cur of Inl e \<Rightarrow> Inl e
     | Inr nd \<Rightarrow> (case find_entry fs c (tn_children nd) 0 of None \<Rightarrow> Inl NotFound | Some (_, i) \<Rightarrow> walk fs i cs))"

definition lookup_path :: "Tmpfs \<Rightarrow> string \<Rightarrow> InodeNum VfsResult" where
  "lookup_path fs path = walk fs 0 (filter (\<lambda>c. c \<noteq> [] \<and> c \<noteq> ''.'') (split_slash path))"

definition split_parent_leaf :: "Tmpfs \<Rightarrow> string \<Rightarrow> (InodeNum \<times> string) VfsResult" where
  "split_parent_leaf fs path =
     (let parts = filter (\<lambda>c. c \<noteq> []) (split_slash path) in
      if parts = [] then Inl InvalidArgument
      else case walk fs 0 (butlast parts) of Inl e \<Rightarrow> Inl e | Inr p \<Rightarrow> Inr (p, last parts))"

section \<open>Inode operations\<close>

definition file_get :: "Tmpfs \<Rightarrow> InodeNum \<Rightarrow> TmpfsNode VfsResult" where
  "file_get fs i = (case node_get fs i of Inl e \<Rightarrow> Inl e
     | Inr nd \<Rightarrow> if tn_removed nd then Inl NotFound
                else if tn_file_type nd = Directory then Inl IsADirectory else Inr nd)"

definition tmpfs_read :: "InodeNum \<Rightarrow> Tmpfs \<Rightarrow> nat \<Rightarrow> nat \<Rightarrow> (byte list VfsResult \<times> Tmpfs) option" where
  "tmpfs_read i fs off n = (case file_get fs i of Inl e \<Rightarrow> Some (Inl e, fs)
     | Inr nd \<Rightarrow>
         if off \<ge> length (tn_data nd) then Some (Inr [], fs)
         else do {
           avail \<leftarrow> csub (length (tn_data nd)) off;
           bs \<leftarrow> aslice (tn_data nd) off (off + min n avail);
           Some (Inr bs, fs) })"

text \<open>\<open>Vec::resize(n, 0)\<close>; \<open>data[off..end].copy_from_slice(buf)\<close> is \<^const>\<open>overwrite\<close>.\<close>

definition vec_resize :: "nat \<Rightarrow> byte list \<Rightarrow> byte list" where
  "vec_resize n d = take n d @ replicate (n - length d) 0"

definition tmpfs_write :: "InodeNum \<Rightarrow> Tmpfs \<Rightarrow> nat \<Rightarrow> byte list \<Rightarrow> (nat VfsResult \<times> Tmpfs) option" where
  "tmpfs_write i fs off buf = (case file_get fs i of Inl e \<Rightarrow> Some (Inl e, fs)
     | Inr nd \<Rightarrow> do {
         e \<leftarrow> cadd64 off (length buf);
         let old_len = length (tn_data nd); growth = max e old_len - old_len in do {
         t \<leftarrow> cadd64 (total_bytes fs) growth;
         if t > TMPFS_MAX_SIZE then Some (Inl NoSpace, fs)
         else let d = (if e > old_len then vec_resize e (tn_data nd) else tn_data nd) in do {
           _ \<leftarrow> aslice d off e;
           fs1 \<leftarrow> update_node i (\<lambda>n. n\<lparr>tn_data := overwrite d off buf\<rparr>) fs;
           Some (Inr (length buf), fs1\<lparr>total_bytes := t\<rparr>) } } })"

definition tmpfs_truncate :: "InodeNum \<Rightarrow> Tmpfs \<Rightarrow> nat \<Rightarrow> (unit VfsResult \<times> Tmpfs) option" where
  "tmpfs_truncate i fs new_len = (case file_get fs i of Inl e \<Rightarrow> Some (Inl e, fs)
     | Inr nd \<Rightarrow> let old_len = length (tn_data nd) in do {
         full \<leftarrow> (if new_len > old_len
                 then do { t \<leftarrow> cadd64 (total_bytes fs) (new_len - old_len); Some (t > TMPFS_MAX_SIZE) }
                 else Some False);
         if full then Some (Inl NoSpace, fs)
         else do {
           fs1 \<leftarrow> update_node i (\<lambda>n. n\<lparr>tn_data := vec_resize new_len (tn_data n)\<rparr>) fs;
           t \<leftarrow> cadd64 (total_bytes fs) new_len;
           Some (Inr (), fs1\<lparr>total_bytes := t - old_len\<rparr>) } })"

definition tmpfs_metadata :: "InodeNum \<Rightarrow> Tmpfs \<Rightarrow> InodeMetadata VfsResult" where
  "tmpfs_metadata i fs = (case node_get fs i of Inl e \<Rightarrow> Inl e
     | Inr nd \<Rightarrow> let m = (inode_metadata_new (tn_ino nd) (tn_file_type nd))
           \<lparr>im_mode := tn_mode nd, im_uid := tn_uid nd, im_gid := tn_gid nd, im_size := length (tn_data nd)\<rparr> in
         Inr (if tn_file_type nd = Directory then m\<lparr>im_nlink := 2\<rparr> else m))"

definition tmpfs_set_metadata :: "InodeNum \<Rightarrow> Tmpfs \<Rightarrow> InodeMetadata \<Rightarrow> unit VfsResult \<times> Tmpfs" where
  "tmpfs_set_metadata i fs meta = (case node_get fs i of Inl e \<Rightarrow> (Inl e, fs)
     | Inr nd \<Rightarrow> if tn_removed nd then (Inl NotFound, fs)
         else (Inr (), fs\<lparr>nodes := (nodes fs)[i := nd\<lparr>tn_mode := file_mode_new (im_mode meta), tn_uid := im_uid meta,
                 tn_gid := im_gid meta\<rparr>]\<rparr>))"

definition tmpfs_lookup :: "InodeNum \<Rightarrow> Tmpfs \<Rightarrow> string \<Rightarrow> InodeNum VfsResult" where
  "tmpfs_lookup i fs nm = (case dir_get fs i of Inl e \<Rightarrow> Inl e
     | Inr nd \<Rightarrow> (case find_entry fs nm (tn_children nd) 0 of None \<Rightarrow> Inl NotFound | Some (_, c) \<Rightarrow> Inr c))"

definition tmpfs_readdir :: "InodeNum \<Rightarrow> Tmpfs \<Rightarrow> DirEntry list VfsResult" where
  "tmpfs_readdir i fs = (case dir_get fs i of Inl e \<Rightarrow> Inl e
     | Inr nd \<Rightarrow> Inr (map (\<lambda>c. \<lparr>de_name = tn_name (nodes fs ! c), de_ino = c, de_file_type = tn_file_type (nodes fs ! c)\<rparr>)
         (filter (\<lambda>c. c < length (nodes fs) \<and> \<not> tn_removed (nodes fs ! c)) (tn_children nd))))"

definition tmpfs_inode :: "InodeNum \<Rightarrow> Tmpfs InodeOps" where
  "tmpfs_inode i = \<lparr>iop_read = tmpfs_read i, iop_write = tmpfs_write i, iop_metadata = tmpfs_metadata i,
     iop_set_metadata = tmpfs_set_metadata i, iop_lookup = tmpfs_lookup i, iop_readdir = tmpfs_readdir i,
     iop_truncate = tmpfs_truncate i\<rparr>"

definition root_inode :: "Tmpfs InodeOps" where
  "root_inode = tmpfs_inode 0"

definition get_inode :: "Tmpfs \<Rightarrow> InodeNum \<Rightarrow> Tmpfs InodeOps VfsResult" where
  "get_inode fs i = (if i \<ge> length (nodes fs) then Inl NotFound
     else if tn_removed (nodes fs ! i) then Inl NotFound else Inr (tmpfs_inode i))"

section \<open>Shape and budget\<close>

definition lv :: "Tmpfs \<Rightarrow> nat \<Rightarrow> bool" where
  "lv fs i \<longleftrightarrow> i < length (nodes fs) \<and> \<not> tn_removed (nodes fs ! i)"

definition dr :: "Tmpfs \<Rightarrow> nat \<Rightarrow> bool" where
  "dr fs i \<longleftrightarrow> i < length (nodes fs) \<and> tn_file_type (nodes fs ! i) = Directory"

definition kd :: "Tmpfs \<Rightarrow> nat \<Rightarrow> nat list" where
  "kd fs p = (if p < length (nodes fs) then tn_children (nodes fs ! p) else [])"

definition nm :: "Tmpfs \<Rightarrow> nat \<Rightarrow> string" where
  "nm fs i = (if i < length (nodes fs) then tn_name (nodes fs ! i) else [])"

definition used :: "Tmpfs \<Rightarrow> nat" where
  "used fs = sum_list (map (\<lambda>n. length (tn_data n)) (nodes fs))"

definition fs_ok :: "Tmpfs \<Rightarrow> bool" where
  "fs_ok fs \<longleftrightarrow> tree_ok (length (nodes fs)) (lv fs) (dr fs) (kd fs) (nm fs)
     \<and> total_bytes fs = used fs \<and> total_bytes fs \<le> TMPFS_MAX_SIZE"

lemmas shape_defs = lv_def dr_def kd_def nm_def

lemma fs_ok_new: "fs_ok tmpfs_new"
  by (auto simp: fs_ok_def tmpfs_new_def new_node_def tree_ok_def shape_defs used_def)

lemma dir_get_Inr: "dir_get fs i = Inr nd \<longleftrightarrow> lv fs i \<and> dr fs i \<and> nd = nodes fs ! i"
  by (auto simp: dir_get_def node_get_def lv_def dr_def)

lemma dir_get_Inl: "dir_get fs i = Inl e \<Longrightarrow> \<not> (lv fs i \<and> dr fs i)"
  by (auto simp: dir_get_def node_get_def lv_def dr_def split: if_splits)

lemma is_child_iff: "is_child fs x c \<longleftrightarrow> lv fs c \<and> nm fs c = x"
  by (auto simp: is_child_def shape_defs)

lemma find_entry_Some:
  "find_entry fs x cs k = Some (i, c) \<Longrightarrow> k \<le> i \<and> i - k < length cs \<and> cs ! (i - k) = c \<and> is_child fs x c"
proof (induction cs arbitrary: k)
  case (Cons a cs)
  show ?case
  proof (cases "is_child fs x a")
    case False
    then have IH: "Suc k \<le> i" "i - Suc k < length cs" "cs ! (i - Suc k) = c" "is_child fs x c"
      using Cons.prems Cons.IH [of "Suc k"] by auto
    then have "i - k = Suc (i - Suc k)" by linarith
    then show ?thesis using IH by simp
  qed (use Cons.prems in auto)
qed simp

lemma find_entry_None: "find_entry fs x cs k = None \<longleftrightarrow> (\<forall>c \<in> set cs. \<not> is_child fs x c)"
  by (induction cs arbitrary: k) auto

lemma find_child_Some:
  assumes "find_child fs p x = Inr (Some (i, c))"
  shows "lv fs p" "dr fs p" "i < length (kd fs p)" "kd fs p ! i = c" "c \<in> set (kd fs p)" "lv fs c" "nm fs c = x"
proof -
  obtain nd where nd: "dir_get fs p = Inr nd" "find_entry fs x (tn_children nd) 0 = Some (i, c)"
    using assms by (auto simp: find_child_def split: sum.splits)
  then have "tn_children nd = kd fs p" by (auto simp: dir_get_Inr kd_def lv_def)
  then show "lv fs p" "dr fs p" "i < length (kd fs p)" "kd fs p ! i = c" "c \<in> set (kd fs p)" "lv fs c" "nm fs c = x"
    using nd find_entry_Some [OF nd(2)] by (auto simp: dir_get_Inr is_child_iff)
qed

lemma find_child_None:
  assumes "find_child fs p x = Inr None"
  shows "lv fs p" "dr fs p" "c \<in> set (kd fs p) \<Longrightarrow> lv fs c \<Longrightarrow> nm fs c \<noteq> x"
proof -
  obtain nd where nd: "dir_get fs p = Inr nd" "find_entry fs x (tn_children nd) 0 = None"
    using assms by (auto simp: find_child_def split: sum.splits)
  then have "tn_children nd = kd fs p" by (auto simp: dir_get_Inr kd_def lv_def)
  then show "lv fs p" "dr fs p" "c \<in> set (kd fs p) \<Longrightarrow> lv fs c \<Longrightarrow> nm fs c \<noteq> x"
    using nd by (auto simp: dir_get_Inr find_entry_None is_child_iff)
qed

lemma lv_bound: "lv fs i \<Longrightarrow> i < length (nodes fs)"
  by (simp add: lv_def)

lemma remove_index: "distinct xs \<Longrightarrow> i < length xs \<Longrightarrow> take i xs @ drop (Suc i) xs = remove1 (xs ! i) xs"
proof (induction xs arbitrary: i)
  case (Cons a xs)
  then show ?case by (cases i) auto
qed simp

lemma used_update:
  "i < length (nodes fs) \<Longrightarrow> used (fs\<lparr>nodes := (nodes fs)[i := x]\<rparr>) = used fs + length (tn_data x) - length (tn_data (nodes fs ! i))"
  by (simp add: used_def map_update sum_list_update)

lemma data_le_used: "i < length (nodes fs) \<Longrightarrow> length (tn_data (nodes fs ! i)) \<le> used fs"
  using elem_le_sum_list [of i "map (\<lambda>n. length (tn_data n)) (nodes fs)"] by (simp add: used_def)

text \<open>How the primitive updates act on the shape.\<close>

lemma update_node_eq: "i < length (nodes fs) \<Longrightarrow> update_node i f fs = Some (fs\<lparr>nodes := (nodes fs)[i := f (nodes fs ! i)]\<rparr>)"
  by (simp add: update_node_def aget_in aset_in)

lemma shape_children:
  assumes "p < length (nodes fs)"
  shows "lv (fs\<lparr>nodes := (nodes fs)[p := (nodes fs ! p)\<lparr>tn_children := cs\<rparr>]\<rparr>) = lv fs"
    "dr (fs\<lparr>nodes := (nodes fs)[p := (nodes fs ! p)\<lparr>tn_children := cs\<rparr>]\<rparr>) = dr fs"
    "kd (fs\<lparr>nodes := (nodes fs)[p := (nodes fs ! p)\<lparr>tn_children := cs\<rparr>]\<rparr>) = (kd fs)(p := cs)"
    "nm (fs\<lparr>nodes := (nodes fs)[p := (nodes fs ! p)\<lparr>tn_children := cs\<rparr>]\<rparr>) = nm fs"
    "used (fs\<lparr>nodes := (nodes fs)[p := (nodes fs ! p)\<lparr>tn_children := cs\<rparr>]\<rparr>) = used fs"
  using assms data_le_used [OF assms] by (auto simp: shape_defs fun_eq_iff nth_list_update used_update)

lemma shape_name:
  assumes "c < length (nodes fs)"
  shows "lv (fs\<lparr>nodes := (nodes fs)[c := (nodes fs ! c)\<lparr>tn_name := x\<rparr>]\<rparr>) = lv fs"
    "dr (fs\<lparr>nodes := (nodes fs)[c := (nodes fs ! c)\<lparr>tn_name := x\<rparr>]\<rparr>) = dr fs"
    "kd (fs\<lparr>nodes := (nodes fs)[c := (nodes fs ! c)\<lparr>tn_name := x\<rparr>]\<rparr>) = kd fs"
    "nm (fs\<lparr>nodes := (nodes fs)[c := (nodes fs ! c)\<lparr>tn_name := x\<rparr>]\<rparr>) = (nm fs)(c := x)"
    "used (fs\<lparr>nodes := (nodes fs)[c := (nodes fs ! c)\<lparr>tn_name := x\<rparr>]\<rparr>) = used fs"
  using assms data_le_used [OF assms] by (auto simp: shape_defs fun_eq_iff nth_list_update used_update)

lemma shape_removed:
  assumes "c < length (nodes fs)"
  shows "lv (fs\<lparr>nodes := (nodes fs)[c := (nodes fs ! c)\<lparr>tn_data := [], tn_removed := True\<rparr>]\<rparr>) = (lv fs)(c := False)"
    "dr (fs\<lparr>nodes := (nodes fs)[c := (nodes fs ! c)\<lparr>tn_data := [], tn_removed := True\<rparr>]\<rparr>) = dr fs"
    "kd (fs\<lparr>nodes := (nodes fs)[c := (nodes fs ! c)\<lparr>tn_data := [], tn_removed := True\<rparr>]\<rparr>) = kd fs"
    "nm (fs\<lparr>nodes := (nodes fs)[c := (nodes fs ! c)\<lparr>tn_data := [], tn_removed := True\<rparr>]\<rparr>) = nm fs"
    "used (fs\<lparr>nodes := (nodes fs)[c := (nodes fs ! c)\<lparr>tn_data := [], tn_removed := True\<rparr>]\<rparr>) = used fs - length (tn_data (nodes fs ! c))"
  using assms by (auto simp: shape_defs fun_eq_iff nth_list_update used_update)

lemma shape_total [simp]:
  "lv (fs\<lparr>total_bytes := t\<rparr>) = lv fs" "dr (fs\<lparr>total_bytes := t\<rparr>) = dr fs" "kd (fs\<lparr>total_bytes := t\<rparr>) = kd fs"
  "nm (fs\<lparr>total_bytes := t\<rparr>) = nm fs" "used (fs\<lparr>total_bytes := t\<rparr>) = used fs"
  by (simp_all add: shape_defs fun_eq_iff used_def)

lemma fs_okD:
  assumes "fs_ok fs"
  shows "tree_ok (length (nodes fs)) (lv fs) (dr fs) (kd fs) (nm fs)" "total_bytes fs = used fs" "used fs \<le> TMPFS_MAX_SIZE"
  using assms by (simp_all add: fs_ok_def)

lemma drop_child_eq:
  assumes "p < length (nodes fs)" "distinct (kd fs p)" "idx < length (kd fs p)"
  shows "drop_child p idx fs =
    Some (fs\<lparr>nodes := (nodes fs)[p := (nodes fs ! p)\<lparr>tn_children := remove1 (kd fs p ! idx) (kd fs p)\<rparr>]\<rparr>)"
  using assms remove_index [of "kd fs p" idx] by (simp add: drop_child_def aget_in aremove_def update_node_eq kd_def)

lemma release_node_ok:
  assumes ok: "fs_ok fs" and idx: "idx < length (kd fs p)" "kd fs p ! idx = c" and leaf: "kd fs c = []"
  shows "\<exists>fs'. release_node p idx c fs = Some fs' \<and> fs_ok fs' \<and> lv fs' = (lv fs)(c := False) \<and> dr fs' = dr fs
    \<and> kd fs' = (kd fs)(p := remove1 c (kd fs p)) \<and> nm fs' = nm fs \<and> length (nodes fs') = length (nodes fs)"
proof -
  note T = fs_okD [OF ok]
  have c: "c \<in> set (kd fs p)" using idx by (metis nth_mem)
  then have b: "p < length (nodes fs)" "c < length (nodes fs)" using tree_okD(4) [OF T(1)] by auto
  let ?f1 = "(fs\<lparr>total_bytes := total_bytes fs - length (tn_data (nodes fs ! c))\<rparr>)"
  let ?f2 = "?f1\<lparr>nodes := (nodes ?f1)[c := (nodes ?f1 ! c)\<lparr>tn_data := [], tn_removed := True\<rparr>]\<rparr>"
  let ?f3 = "?f2\<lparr>nodes := (nodes ?f2)[p := (nodes ?f2 ! p)\<lparr>tn_children := remove1 c (kd fs p)\<rparr>]\<rparr>"
  have s2: "lv ?f2 = (lv fs)(c := False)" "dr ?f2 = dr fs" "kd ?f2 = kd fs" "nm ?f2 = nm fs"
    "used ?f2 = used fs - length (tn_data (nodes fs ! c))" "length (nodes ?f2) = length (nodes fs)"
    using shape_removed [of c ?f1] b by simp_all
  have s3: "lv ?f3 = (lv fs)(c := False)" "dr ?f3 = dr fs" "kd ?f3 = (kd fs)(p := remove1 c (kd fs p))" "nm ?f3 = nm fs"
    "used ?f3 = used fs - length (tn_data (nodes fs ! c))" "length (nodes ?f3) = length (nodes fs)"
    using shape_children [of p ?f2 "remove1 c (kd fs p)"] b s2 by (simp_all only: length_list_update) simp_all
  have "release_node p idx c fs = Some ?f3"
    using drop_child_eq [of p ?f2 idx] b idx s2(3) tree_okD(5) [OF T(1), of p]
    by (simp add: release_node_def aget_in update_node_eq)
  moreover have "fs_ok ?f3"
    using tree_remove_leaf [OF T(1) c leaf] T(2,3) s3 by (simp add: fs_ok_def)
  ultimately show ?thesis using s3 by blast
qed

lemma create_shape:
  fixes x :: string and ft :: FileType and md :: FileMode
  assumes "p < length (nodes fs)"
  defines "n \<equiv> length (nodes fs)"
  defines "fs' \<equiv> fs\<lparr>nodes := (nodes fs @ [new_node x n ft md])[p := ((nodes fs @ [new_node x n ft md]) ! p)
      \<lparr>tn_children := tn_children ((nodes fs @ [new_node x n ft md]) ! p) @ [n]\<rparr>]\<rparr>"
  shows "lv fs' = (lv fs)(n := True)" "dr fs' = (dr fs)(n := (ft = Directory))" "kd fs' = (kd fs)(p := kd fs p @ [n])"
    "nm fs' = (nm fs)(n := x)" "used fs' = used fs" "length (nodes fs') = Suc n"
proof -
  have p: "(nodes fs @ [new_node x n ft md]) ! p = nodes fs ! p" "p \<noteq> n" using assms(1) by (simp_all add: nth_append n_def)
  show "lv fs' = (lv fs)(n := True)" "dr fs' = (dr fs)(n := (ft = Directory))" "kd fs' = (kd fs)(p := kd fs p @ [n])"
    "nm fs' = (nm fs)(n := x)" "length (nodes fs') = Suc n"
    using p assms(1) by (auto simp: fs'_def shape_defs fun_eq_iff nth_list_update nth_append new_node_def n_def)
  show "used fs' = used fs"
    using p assms(1) data_le_used [OF assms(1)]
    by (simp add: fs'_def used_def map_update sum_list_update new_node_def list_update_append)
qed

lemma create_node_cases:
  assumes "fs_ok fs"
  obtains (fail) e where "create_node ft md fs p x = (Inl e, fs)"
  | (made) fs' where "create_node ft md fs p x = (Inr (length (nodes fs)), fs')" "fs_ok fs'" "lv fs p" "dr fs p"
      "x \<notin> nm fs ` set (kd fs p)" "lv fs' = (lv fs)(length (nodes fs) := True)"
      "dr fs' = (dr fs)(length (nodes fs) := (ft = Directory))" "kd fs' = (kd fs)(p := kd fs p @ [length (nodes fs)])"
      "nm fs' = (nm fs)(length (nodes fs) := x)"
proof (cases "dir_get fs p")
  case (Inl e)
  then show thesis using fail by (auto simp: create_node_def)
next
  case (Inr nd)
  note T = fs_okD [OF assms]
  have p: "lv fs p" "dr fs p" "nd = nodes fs ! p" "p < length (nodes fs)" using Inr by (auto simp: dir_get_Inr lv_def)
  show thesis
  proof (cases "list_ex (is_child fs x) (tn_children nd)")
    case True
    then show thesis using fail Inr by (auto simp: create_node_def)
  next
    case False
    have kids: "tn_children nd = kd fs p" using p by (simp add: kd_def)
    have x: "x \<notin> nm fs ` set (kd fs p)"
    proof
      assume "x \<in> nm fs ` set (kd fs p)"
      then obtain c where c: "c \<in> set (kd fs p)" "nm fs c = x" by blast
      then have "is_child fs x c" using tree_okD(4) [OF T(1) c(1)] by (simp add: is_child_iff)
      then show False using False c(1) kids by (auto simp: list_ex_iff)
    qed
    let ?n = "length (nodes fs)"
    let ?fs' = "fs\<lparr>nodes := (nodes fs @ [new_node x ?n ft md])[p := ((nodes fs @ [new_node x ?n ft md]) ! p)
      \<lparr>tn_children := tn_children ((nodes fs @ [new_node x ?n ft md]) ! p) @ [?n]\<rparr>]\<rparr>"
    have "create_node ft md fs p x = (Inr ?n, ?fs')"
      using Inr False p(4) by (simp add: create_node_def alloc_ino_def Let_def)
    moreover have "kd fs ?n = []" by (simp add: kd_def)
    then have "fs_ok ?fs'"
      using tree_add_leaf [OF T(1) p(4,1,2) x] T(2,3) create_shape [OF p(4), of x ft md] by (simp add: fs_ok_def)
    ultimately show thesis using made p(1,2) x create_shape [OF p(4), of x ft md] by blast
  qed
qed

lemma kids_of_file:
  assumes "fs_ok fs" "\<not> dr fs c"
  shows "kd fs c = []"
proof (rule ccontr)
  assume "kd fs c \<noteq> []"
  then obtain x where "x \<in> set (kd fs c)" by (cases "kd fs c") auto
  then show False using tree_okD(4) [OF fs_okD(1) [OF assms(1)]] assms(2) by blast
qed

lemma live_count_kids:
  assumes "fs_ok fs" "live_count fs (kd fs c) = 0"
  shows "kd fs c = []"
proof (rule ccontr)
  assume "kd fs c \<noteq> []"
  then obtain x where x: "x \<in> set (kd fs c)" by (cases "kd fs c") auto
  then have "lv fs x" using tree_okD(4) [OF fs_okD(1) [OF assms(1)] x] by simp
  then show False using assms(2) x by (auto simp: live_count_def filter_empty_conv lv_def)
qed

lemma unlink_ok:
  assumes "fs_ok fs"
  shows "\<exists>r fs'. unlink fs p x = Some (r, fs') \<and> fs_ok fs' \<and> (\<forall>e. r = Inl e \<longrightarrow> fs' = fs)
    \<and> (r = Inr () \<longrightarrow> (\<exists>c \<in> set (kd fs p). nm fs c = x \<and> lv fs' = (lv fs)(c := False)
         \<and> kd fs' = (kd fs)(p := remove1 c (kd fs p)) \<and> nm fs' = nm fs \<and> dr fs' = dr fs))"
proof (cases "find_child fs p x")
  case (Inl e)
  then show ?thesis using assms by (auto simp: unlink_def find_child_def split: sum.splits)
next
  case (Inr r)
  then obtain nd where nd: "dir_get fs p = Inr nd" "find_entry fs x (tn_children nd) 0 = r"
    by (auto simp: find_child_def split: sum.splits)
  show ?thesis
  proof (cases r)
    case None
    then show ?thesis using nd assms by (auto simp: unlink_def)
  next
    case (Some ic)
    obtain idx c where ic: "ic = (idx, c)" by (cases ic)
    note F = find_child_Some [OF Inr [unfolded Some ic]]
    have c: "node_get fs c = Inr (nodes fs ! c)" "tn_children (nodes fs ! c) = kd fs c"
      "tn_file_type (nodes fs ! c) = Directory \<longleftrightarrow> dr fs c"
      using F(6) by (auto simp: node_get_def shape_defs)
    show ?thesis
    proof (cases "dr fs c \<and> live_count fs (kd fs c) > 0")
      case True
      then show ?thesis using nd Some ic c assms by (auto simp: unlink_def)
    next
      case False
      then have "kd fs c = []" using kids_of_file live_count_kids assms by blast
      then obtain fs' where fs': "release_node p idx c fs = Some fs'" "fs_ok fs'" "lv fs' = (lv fs)(c := False)" "dr fs' = dr fs"
        "kd fs' = (kd fs)(p := remove1 c (kd fs p))" "nm fs' = nm fs"
        using release_node_ok [OF assms F(3,4)] by blast
      then have "unlink fs p x = Some (Inr (), fs')" using nd Some ic c False by (auto simp: unlink_def)
      then show ?thesis using fs' F(5,7) by auto
    qed
  qed
qed

section \<open>Moving directories\<close>

lemma push_dirs_Some:
  "push_dirs fs dir cs stack = Some st \<Longrightarrow>
   dir \<notin> set cs \<and> set st = set stack \<union> {c \<in> set cs. lv fs c \<and> dr fs c}"
  by (induction cs arbitrary: stack) (fastforce simp: lv_def dr_def split: if_splits)+

text \<open>A search that answers no is right: the directory is not below any node of the stack.\<close>

lemma below_loop_False:
  "fs_ok fs \<Longrightarrow> \<not> below_loop fs dir stack visited \<Longrightarrow> s \<in> set stack \<Longrightarrow> (s, x) \<in> (child_rel (kd fs))\<^sup>+ \<Longrightarrow> x \<noteq> dir"
proof (induction fs dir stack visited arbitrary: s rule: below_loop.induct)
  case (2 fs dir cur stack visited)
  let ?kids = "if cur < length (nodes fs) then tn_children (nodes fs ! cur) else []"
  have kids: "?kids = kd fs cur" by (simp add: kd_def)
  obtain st where st: "\<not> visited + 1 > length (nodes fs) + 1" "push_dirs fs dir ?kids stack = Some st"
    "\<not> below_loop fs dir st (visited + 1)"
    using 2(3) by (auto split: if_splits option.splits)
  note P = push_dirs_Some [OF st(2), unfolded kids]
  note IH = 2(1) [OF st(1,2) 2(2) st(3)]
  show ?case
  proof (cases "s \<in> set stack")
    case True
    then show ?thesis using IH [of s] P 2(5) by blast
  next
    case False
    then have s: "s = cur" using 2(4) by auto
    from 2(5) obtain c where c: "(cur, c) \<in> child_rel (kd fs)" "(c, x) \<in> (child_rel (kd fs))\<^sup>*"
      unfolding s by (blast dest: tranclD)
    have ck: "c \<in> set (kd fs cur)" using c(1) by (simp add: child_rel_def)
    show ?thesis
    proof (cases "c = x")
      case True
      then show ?thesis using P ck by blast
    next
      case False
      then have cx: "(c, x) \<in> (child_rel (kd fs))\<^sup>+" using c(2) by (simp add: rtrancl_eq_or_trancl)
      then obtain d where "d \<in> set (kd fs c)" by (auto simp: child_rel_def dest: tranclD)
      then have "lv fs c \<and> dr fs c" using tree_okD(4) [OF fs_okD(1) [OF 2(2)]] by blast
      then show ?thesis using IH [of c] P ck cx by blast
    qed
  qed
qed simp

lemma not_below:
  assumes "fs_ok fs" "lv fs q" "dr fs q" "dr fs c \<longrightarrow> q \<noteq> c \<and> \<not> is_below fs c q"
  shows "(c, q) \<notin> (child_rel (kd fs))\<^sup>*"
proof (cases "dr fs c")
  case True
  then show ?thesis using assms below_loop_False [OF assms(1), of q "[c]" 0 c q]
    by (auto simp: is_below_def rtrancl_eq_or_trancl)
next
  case False
  then have "kd fs c = []" by (rule kids_of_file [OF assms(1)])
  then have "(c, q) \<notin> (child_rel (kd fs))\<^sup>+" by (auto simp: child_rel_def dest: tranclD)
  then show ?thesis using False assms(3) by (auto simp: rtrancl_eq_or_trancl)
qed

lemma position_Some: "x \<in> set xs \<Longrightarrow> \<exists>i. position x xs = Some i \<and> i < length xs \<and> xs ! i = x"
  by (induction xs) auto

text \<open>The updates of \<open>rename\<close> as existence statements over the shape.\<close>

definition same_budget :: "Tmpfs \<Rightarrow> Tmpfs \<Rightarrow> bool" where
  "same_budget fs f \<longleftrightarrow> lv f = lv fs \<and> dr f = dr fs \<and> used f = used fs \<and> total_bytes f = total_bytes fs
     \<and> length (nodes f) = length (nodes fs)"

lemma set_name_ex:
  "c < length (nodes fs) \<Longrightarrow> \<exists>f. update_node c (\<lambda>n. n\<lparr>tn_name := x\<rparr>) fs = Some f \<and> same_budget fs f \<and> kd f = kd fs \<and> nm f = (nm fs)(c := x)"
  by (simp add: update_node_eq shape_name same_budget_def)

lemma push_child_ex:
  assumes "p < length (nodes fs)"
  shows "\<exists>f. update_node p (\<lambda>n. n\<lparr>tn_children := tn_children n @ [c]\<rparr>) fs = Some f \<and> same_budget fs f
     \<and> kd f = (kd fs)(p := kd fs p @ [c]) \<and> nm f = nm fs"
proof -
  have "tn_children (nodes fs ! p) = kd fs p" using assms by (simp add: kd_def)
  then show ?thesis using assms by (simp add: update_node_eq shape_children same_budget_def)
qed

lemma drop_child_ex:
  "p < length (nodes fs) \<Longrightarrow> distinct (kd fs p) \<Longrightarrow> idx < length (kd fs p) \<Longrightarrow>
   \<exists>f. drop_child p idx fs = Some f \<and> same_budget fs f \<and> kd f = (kd fs)(p := remove1 (kd fs p ! idx) (kd fs p)) \<and> nm f = nm fs"
  by (simp add: drop_child_eq shape_children same_budget_def)

lemma rename_move_ok:
  assumes ok: "fs_ok fs" and src: "idx < length (kd fs op)" "kd fs op ! idx = src"
    and np: "lv fs np" "dr fs np" "op \<noteq> np \<longrightarrow> (src, np) \<notin> (child_rel (kd fs))\<^sup>*"
    and x: "x \<notin> nm fs ` (set (kd fs np) - {src})"
  shows "\<exists>fs'. rename_move op idx src np x fs = Some fs' \<and> fs_ok fs' \<and> nm fs' = (nm fs)(src := x) \<and> lv fs' = lv fs \<and> dr fs' = dr fs
    \<and> kd fs' = (if op = np then kd fs else (kd fs)(op := remove1 src (kd fs op), np := kd fs np @ [src]))"
proof -
  note T = fs_okD [OF ok]
  have mem: "src \<in> set (kd fs op)" using src by (metis nth_mem)
  have b: "src < length (nodes fs)" "op < length (nodes fs)" "np < length (nodes fs)"
    using tree_okD(4) [OF T(1) mem] np(1) by (auto simp: lv_def)
  obtain f2 where f2: "update_node src (\<lambda>n. n\<lparr>tn_name := x\<rparr>) fs = Some f2" "same_budget fs f2" "kd f2 = kd fs" "nm f2 = (nm fs)(src := x)"
    using set_name_ex [OF b(1)] by blast
  show ?thesis
  proof (cases "op = np")
    case True
    have "fs_ok f2" using tree_rename [OF T(1) mem] x True T(2,3) f2 by (simp add: fs_ok_def same_budget_def)
    then show ?thesis using True f2 by (simp add: rename_move_def same_budget_def)
  next
    case False
    obtain f3 where f3: "drop_child op idx f2 = Some f3" "same_budget f2 f3" "kd f3 = (kd fs)(op := remove1 src (kd fs op))" "nm f3 = (nm fs)(src := x)"
      using drop_child_ex [of op f2 idx] tree_okD(5) [OF T(1), of op] src b f2 by (auto simp: same_budget_def)
    obtain f4 where f4: "update_node np (\<lambda>n. n\<lparr>tn_children := tn_children n @ [src]\<rparr>) f3 = Some f4" "same_budget f3 f4"
        "kd f4 = (kd fs)(op := remove1 src (kd fs op), np := kd fs np @ [src])" "nm f4 = (nm fs)(src := x)"
      using push_child_ex [of np f3 src] b f2(2) f3 False by (auto simp: same_budget_def)
    have "src \<notin> set (kd fs np)" using tree_okD(7) [OF T(1) mem] False by blast
    then have "tree_ok (length (nodes fs)) (lv fs) (dr fs) ((kd fs)(op := remove1 src (kd fs op), np := kd fs np @ [src])) ((nm fs)(src := x))"
      using tree_move [OF T(1) mem b(3) np(1,2)] np(3) False x by simp
    then have "fs_ok f4" using T(2,3) f2(2) f3(2) f4 by (simp add: fs_ok_def same_budget_def)
    moreover have "rename_move op idx src np x fs = Some f4" using False f2(1) f3(1) f4(1) by (simp add: rename_move_def)
    ultimately show ?thesis using f2(2) f3(2) f4 False by (auto simp: same_budget_def)
  qed
qed

section \<open>Directories as maps\<close>

text \<open>The abstract view: a directory entry is a directory, a name and the node it leads to.\<close>

definition entries :: "Tmpfs \<Rightarrow> (InodeNum \<times> string \<times> InodeNum) set" where
  "entries fs = {(p, x, c). c \<in> set (kd fs p) \<and> nm fs c = x}"

lemma entries_unique:
  assumes "fs_ok fs" "(p, x, c) \<in> entries fs" "(p, x, d) \<in> entries fs"
  shows "c = d"
  using assms tree_okD(6) [OF fs_okD(1) [OF assms(1)], of p] by (auto simp: entries_def inj_on_def)

lemma entries_parent:
  assumes "fs_ok fs" "(p, x, c) \<in> entries fs" "(q, y, c) \<in> entries fs"
  shows "p = q \<and> x = y"
  using assms tree_okD(7) [OF fs_okD(1) [OF assms(1)]] by (auto simp: entries_def)

lemma find_child_entries:
  assumes "fs_ok fs" "find_child fs p x = Inr r"
  shows "(p, x, c) \<in> entries fs \<longleftrightarrow> (\<exists>i. r = Some (i, c))"
proof (cases r)
  case None
  then show ?thesis using find_child_None [of fs p x] assms(2) tree_okD(4) [OF fs_okD(1) [OF assms(1)]]
    by (auto simp: entries_def)
next
  case (Some ic)
  obtain i d where ic: "ic = (i, d)" by (cases ic)
  have "(p, x, d) \<in> entries fs" using find_child_Some [of fs p x i d] assms(2) Some ic by (auto simp: entries_def)
  then show ?thesis using entries_unique [OF assms(1)] Some ic by auto
qed

lemma tmpfs_lookup_iff:
  assumes "fs_ok fs"
  shows "tmpfs_lookup p fs x = Inr c \<longleftrightarrow> (p, x, c) \<in> entries fs"
proof (cases "find_child fs p x")
  case (Inl e)
  then have "\<not> (lv fs p \<and> dr fs p)" by (auto simp: find_child_def dest: dir_get_Inl split: sum.splits)
  then have "(p, x, c) \<notin> entries fs" using tree_okD(4) [OF fs_okD(1) [OF assms]] by (auto simp: entries_def)
  then show ?thesis using Inl by (auto simp: tmpfs_lookup_def find_child_def split: sum.splits)
next
  case (Inr r)
  then show ?thesis using find_child_entries [OF assms Inr, of c]
    by (auto simp: tmpfs_lookup_def find_child_def split: sum.splits option.splits)
qed

text \<open>The state after an existing target has been released.\<close>

definition displaced :: "(nat \<times> InodeNum) option \<Rightarrow> InodeNum set" where
  "displaced existing = (case existing of None \<Rightarrow> {} | Some (_, d) \<Rightarrow> {d})"

lemma release_existing_ok:
  assumes ok: "fs_ok fs" and dst: "find_child fs np y = Inr existing" and e: "\<And>d. d \<in> displaced existing \<Longrightarrow> kd fs d = []"
  shows "\<exists>fs1. (case existing of None \<Rightarrow> Some fs | Some (j, d) \<Rightarrow> release_node np j d fs) = Some fs1 \<and> fs_ok fs1
    \<and> lv fs1 np \<and> dr fs1 = dr fs \<and> nm fs1 = nm fs \<and> length (nodes fs1) = length (nodes fs)
    \<and> (\<forall>p. p \<noteq> np \<longrightarrow> kd fs1 p = kd fs p) \<and> (existing = None \<longrightarrow> kd fs1 = kd fs)
    \<and> (\<forall>p c. c \<in> set (kd fs1 p) \<longleftrightarrow> c \<in> set (kd fs p) \<and> c \<notin> displaced existing)"
proof (cases existing)
  case None
  then show ?thesis using ok find_child_None [of fs np y] dst by (auto simp: displaced_def)
next
  case (Some jd)
  obtain j d where jd: "jd = (j, d)" by (cases jd)
  note F = find_child_Some [OF dst [unfolded Some jd]] and T = fs_okD(1) [OF ok]
  have leaf: "kd fs d = []" using e Some jd by (simp add: displaced_def)
  obtain fs1 where fs1: "release_node np j d fs = Some fs1" "fs_ok fs1" "lv fs1 = (lv fs)(d := False)" "dr fs1 = dr fs"
    "kd fs1 = (kd fs)(np := remove1 d (kd fs np))" "nm fs1 = nm fs" "length (nodes fs1) = length (nodes fs)"
    using release_node_ok [OF ok F(3,4) leaf] by blast
  have "np \<noteq> d" using leaf F(5) by auto
  then have "lv fs1 np" using fs1(3) F(1) by simp
  moreover have "c \<in> set (kd fs1 p) \<longleftrightarrow> c \<in> set (kd fs p) \<and> c \<noteq> d" for p c
  proof (cases "p = np")
    case True
    then show ?thesis using fs1(5) tree_okD(5) [OF T, of np] by simp
  next
    case False
    then have "d \<notin> set (kd fs p)" using F(5) tree_okD(7) [OF T, of d np p] by blast
    then show ?thesis using False fs1(5) by auto
  qed
  moreover have "kd fs1 p = kd fs p" if "p \<noteq> np" for p using fs1(5) that by simp
  ultimately show ?thesis using fs1(1,2,4,6,7) unfolding Some jd by (simp add: displaced_def)
qed

lemma rename_commit_ok:
  assumes ok: "fs_ok fs" and src: "find_child fs op x = Inr (Some (i, src))" and dst: "find_child fs np y = Inr existing"
    and e: "\<And>d. d \<in> displaced existing \<Longrightarrow> d \<noteq> src \<and> kd fs d = []"
    and below: "op \<noteq> np \<longrightarrow> (src, np) \<notin> (child_rel (kd fs))\<^sup>*"
  shows "\<exists>fs'. rename_commit fs op (i, src) np y existing = Some (Inr (), fs') \<and> fs_ok fs'
    \<and> entries fs' = {(p, z, c). (p, z, c) \<in> entries fs \<and> c \<noteq> src \<and> (p, z) \<noteq> (np, y)} \<union> {(np, y, src)}"
proof -
  note F = find_child_Some [OF src]
  obtain fs1 where fs1: "(case existing of None \<Rightarrow> Some fs | Some (j, d) \<Rightarrow> release_node np j d fs) = Some fs1"
    and ok1: "fs_ok fs1" and np1: "lv fs1 np" "dr fs1 = dr fs" and nm1: "nm fs1 = nm fs" and len: "length (nodes fs1) = length (nodes fs)"
    and kd1: "\<And>p. p \<noteq> np \<Longrightarrow> kd fs1 p = kd fs p" "existing = None \<Longrightarrow> kd fs1 = kd fs"
    and mem1: "\<And>p c. c \<in> set (kd fs1 p) \<longleftrightarrow> c \<in> set (kd fs p) \<and> c \<notin> displaced existing"
    using release_existing_ok [OF ok dst] e by blast
  have op1: "aget (nodes fs1) op = Some (nodes fs1 ! op)" "tn_children (nodes fs1 ! op) = kd fs1 op"
    using F(1) len by (simp_all add: aget_in lv_def kd_def)
  have src1: "src \<in> set (kd fs1 op)" using mem1 F(5) e by blast
  have same: "\<not> (op = np \<and> existing \<noteq> None) \<Longrightarrow> kd fs1 op = kd fs op" using kd1 by metis
  obtain idx where idx: "(if op = np \<and> existing \<noteq> None then position src (kd fs1 op) else Some i) = Some idx"
      "idx < length (kd fs1 op)" "kd fs1 op ! idx = src"
  proof (cases "op = np \<and> existing \<noteq> None")
    case True
    then show thesis using that position_Some [OF src1] by auto
  next
    case False
    then show thesis using that [of i] same [OF False] F(3,4) by (simp only: if_False)
  qed
  have disp: "c \<in> displaced existing \<longleftrightarrow> (p, z) = (np, y)" if "(p, z, c) \<in> entries fs" for p z c
    using that find_child_entries [OF ok dst, of c] entries_parent [OF ok that, of np y]
    by (auto simp: displaced_def split: option.splits)
  have "y \<notin> nm fs1 ` (set (kd fs1 np) - {src})"
    using disp mem1 nm1 by (fastforce simp: entries_def)
  moreover have "child_rel (kd fs1) \<subseteq> child_rel (kd fs)" using mem1 by (auto simp: child_rel_def)
  then have "op \<noteq> np \<longrightarrow> (src, np) \<notin> (child_rel (kd fs1))\<^sup>*" using below rtrancl_mono by blast
  moreover have "dr fs1 np" using np1 dst by (cases existing) (auto dest: find_child_None find_child_Some)
  ultimately obtain fs' where fs': "rename_move op idx src np y fs1 = Some fs'" "fs_ok fs'" "nm fs' = (nm fs)(src := y)"
      "kd fs' = (if op = np then kd fs1 else (kd fs1)(op := remove1 src (kd fs1 op), np := kd fs1 np @ [src]))"
    using rename_move_ok [OF ok1 idx(2,3) np1(1)] nm1 by auto
  have "rename_commit fs op (i, src) np y existing = Some (Inr (), fs')"
    by (simp only: rename_commit_def prod.case fs1 op1 idx(1) fs'(1) bind.simps option.case)
  moreover have uniq: "src \<in> set (kd fs1 p) \<longleftrightarrow> p = op" for p
    using src1 tree_okD(7) [OF fs_okD(1) [OF ok1] src1, of p] by blast
  have mem': "c \<in> set (kd fs' p) \<longleftrightarrow> (if c = src then p = np else c \<in> set (kd fs1 p))" for p c
  proof (cases "op = np")
    case True
    then show ?thesis using fs'(4) uniq by simp
  next
    case False
    then have "set (kd fs' p) = (if p = np then insert src (set (kd fs1 np)) else if p = op then set (kd fs1 op) - {src} else set (kd fs1 p))"
      using fs'(4) tree_okD(5) [OF fs_okD(1) [OF ok1], of op] by simp
    then show ?thesis using False uniq [of p] by simp
  qed
  have "entries fs' = {(p, z, c). (p, z, c) \<in> entries fs \<and> c \<noteq> src \<and> (p, z) \<noteq> (np, y)} \<union> {(np, y, src)}"
  proof (intro set_eqI, clarify)
    fix p z c
    show "(p, z, c) \<in> entries fs' \<longleftrightarrow>
      (p, z, c) \<in> {(p, z, c). (p, z, c) \<in> entries fs \<and> c \<noteq> src \<and> (p, z) \<noteq> (np, y)} \<union> {(np, y, src)}"
      using disp [of p z c] mem' [of c p] mem1 [of c p] fs'(3) by (auto simp: entries_def)
  qed
  ultimately show ?thesis using fs'(2) by blast
qed

lemma target_error_None:
  assumes "fs_ok fs" "target_error fs sd (nodes fs ! d) = None" "lv fs d"
  shows "kd fs d = []"
proof -
  have "tn_children (nodes fs ! d) = kd fs d" "dr fs d \<longleftrightarrow> tn_file_type (nodes fs ! d) = Directory"
    using assms(3) by (simp_all add: kd_def lv_def dr_def)
  then show ?thesis using assms kids_of_file live_count_kids
    by (cases "dr fs d") (auto simp: target_error_def Let_def split: if_splits)
qed

definition target_check :: "Tmpfs \<Rightarrow> InodeNum \<Rightarrow> (nat \<times> InodeNum) option \<Rightarrow> VfsError option" where
  "target_check fs src existing =
     (case existing of Some (_, d) \<Rightarrow> target_error fs (dr fs src) (nodes fs ! d) | None \<Rightarrow> None)"

lemma rename_eq:
  assumes f: "y \<noteq> []" "find_child fs op x = Inr (Some (i, src))" "find_child fs np y = Inr existing" and nd: "src \<notin> displaced existing"
  shows "rename fs op x np y = (case target_check fs src existing of Some e \<Rightarrow> Some (Inl e, fs)
      | None \<Rightarrow> if dr fs src \<and> op \<noteq> np \<and> (np = src \<or> is_below fs src np) then Some (Inl InvalidArgument, fs)
        else rename_commit fs op (i, src) np y existing)"
proof -
  have s: "aget (nodes fs) src = Some (nodes fs ! src)" "tn_file_type (nodes fs ! src) = Directory \<longleftrightarrow> dr fs src"
    using find_child_Some(6) [OF f(2)] by (auto simp: aget_in shape_defs)
  show ?thesis
  proof (cases existing)
    case None
    then show ?thesis using f s by (auto simp: rename_def target_check_def)
  next
    case (Some jd)
    obtain j d where jd: "jd = (j, d)" by (cases jd)
    then have "d \<noteq> src" "aget (nodes fs) d = Some (nodes fs ! d)"
      using nd find_child_Some(6) [OF f(3) [unfolded Some jd]] Some by (auto simp: displaced_def aget_in lv_def)
    then show ?thesis using f s Some jd
      by (cases "target_error fs (dr fs src) (nodes fs ! d)") (auto simp: rename_def target_check_def)
  qed
qed

lemma entries_replace_same:
  assumes ok: "fs_ok fs" and here: "(np, y, src) \<in> entries fs"
  shows "entries fs = {(p, z, c). (p, z, c) \<in> entries fs \<and> c \<noteq> src \<and> (p, z) \<noteq> (np, y)} \<union> {(np, y, src)}"
proof (intro set_eqI, clarify)
  fix p z c
  show "(p, z, c) \<in> entries fs \<longleftrightarrow>
    (p, z, c) \<in> {(p, z, c). (p, z, c) \<in> entries fs \<and> c \<noteq> src \<and> (p, z) \<noteq> (np, y)} \<union> {(np, y, src)}"
  proof (cases "c = src")
    case True
    then have "(p, z, c) \<in> entries fs \<longleftrightarrow> p = np \<and> z = y" using here entries_parent [OF ok here] by blast
    then show ?thesis using True by simp
  next
    case False
    then have "(p, z, c) \<in> entries fs \<Longrightarrow> (p, z) \<noteq> (np, y)" using entries_unique [OF ok here] by blast
    then show ?thesis using False by auto
  qed
qed

lemma rename_ok:
  assumes ok: "fs_ok fs"
  shows "\<exists>r fs'. rename fs op x np y = Some (r, fs') \<and> fs_ok fs' \<and> (\<forall>e. r = Inl e \<longrightarrow> fs' = fs)
    \<and> (r = Inr () \<longrightarrow> (\<exists>src. (op, x, src) \<in> entries fs
         \<and> entries fs' = {(p, z, c). (p, z, c) \<in> entries fs \<and> c \<noteq> src \<and> (p, z) \<noteq> (np, y)} \<union> {(np, y, src)}))"
proof (cases "y = [] \<or> (\<exists>e. find_child fs op x = Inl e) \<or> find_child fs op x = Inr None \<or> (\<exists>e. find_child fs np y = Inl e)")
  case True
  then show ?thesis using ok by (auto simp: rename_def split: sum.splits option.splits)
next
  case False
  then obtain i src existing where f: "y \<noteq> []" "find_child fs op x = Inr (Some (i, src))" "find_child fs np y = Inr existing"
    by (metis sumE not_None_eq prod.exhaust)
  have src: "(op, x, src) \<in> entries fs" using find_child_entries [OF ok f(2)] by blast
  have np: "lv fs np" "dr fs np" using f(3) by (cases existing; auto dest: find_child_None find_child_Some)+
  define inside where "inside \<longleftrightarrow> dr fs src \<and> op \<noteq> np \<and> (np = src \<or> is_below fs src np)"
  consider "src \<in> displaced existing"
    | "src \<notin> displaced existing" "target_check fs src existing \<noteq> None \<or> inside"
    | "src \<notin> displaced existing" "target_check fs src existing = None" "\<not> inside"
    by fastforce
  then show ?thesis
  proof cases
    case 1
    then obtain j where j: "existing = Some (j, src)" by (auto simp: displaced_def split: option.splits)
    then have here: "(np, y, src) \<in> entries fs" using find_child_entries [OF ok f(3)] by blast
    have "rename fs op x np y = Some (Inr (), fs)"
      using f j find_child_Some(6) [OF f(2)] by (simp add: rename_def aget_in lv_def)
    then show ?thesis
      by (intro exI [of _ "Inr ()"] exI [of _ fs] conjI impI allI exI [of _ src] ok src entries_replace_same [OF ok here]) simp_all
  next
    case 2
    then have "\<exists>e. rename fs op x np y = Some (Inl e, fs)"
      unfolding rename_eq [OF f 2(1)] inside_def by (cases "target_check fs src existing") auto
    then show ?thesis using ok by auto
  next
    case 3
    have "rename fs op x np y = rename_commit fs op (i, src) np y existing"
      unfolding rename_eq [OF f 3(1)] 3(2) using 3(3) by (auto simp: inside_def)
    moreover have "d \<noteq> src \<and> kd fs d = []" if "d \<in> displaced existing" for d
      using that 3(1,2) target_error_None [OF ok] f(3)
      by (auto simp: displaced_def target_check_def split: option.splits dest: find_child_Some(6))
    moreover have "op \<noteq> np \<longrightarrow> (src, np) \<notin> (child_rel (kd fs))\<^sup>*" using not_below [OF ok np, of src] 3(3) by (auto simp: inside_def)
    ultimately show ?thesis using rename_commit_ok [OF ok f(2,3)] src by auto
  qed
qed

section \<open>File contents\<close>

definition is_file :: "Tmpfs \<Rightarrow> InodeNum \<Rightarrow> bool" where
  "is_file fs i \<longleftrightarrow> lv fs i \<and> \<not> dr fs i"

definition file_data :: "Tmpfs \<Rightarrow> InodeNum \<Rightarrow> byte list" where
  "file_data fs i = tn_data (nodes fs ! i)"

lemma file_get_Inr: "file_get fs i = Inr nd \<longleftrightarrow> is_file fs i \<and> nd = nodes fs ! i"
  by (auto simp: file_get_def node_get_def is_file_def lv_def dr_def)

lemma shape_data:
  assumes "i < length (nodes fs)"
  shows "lv (fs\<lparr>nodes := (nodes fs)[i := (nodes fs ! i)\<lparr>tn_data := d\<rparr>]\<rparr>) = lv fs"
    "dr (fs\<lparr>nodes := (nodes fs)[i := (nodes fs ! i)\<lparr>tn_data := d\<rparr>]\<rparr>) = dr fs"
    "kd (fs\<lparr>nodes := (nodes fs)[i := (nodes fs ! i)\<lparr>tn_data := d\<rparr>]\<rparr>) = kd fs"
    "nm (fs\<lparr>nodes := (nodes fs)[i := (nodes fs ! i)\<lparr>tn_data := d\<rparr>]\<rparr>) = nm fs"
    "used (fs\<lparr>nodes := (nodes fs)[i := (nodes fs ! i)\<lparr>tn_data := d\<rparr>]\<rparr>) = used fs + length d - length (file_data fs i)"
  using assms by (auto simp: shape_defs fun_eq_iff nth_list_update used_update file_data_def)

lemma set_data_ex:
  assumes "fs_ok fs" "is_file fs i" "used fs + length d - length (file_data fs i) = t" "t \<le> TMPFS_MAX_SIZE"
    "d = f (nodes fs ! i)"
  shows "\<exists>fs1. update_node i (\<lambda>n. n\<lparr>tn_data := f n\<rparr>) fs = Some fs1 \<and> fs_ok (fs1\<lparr>total_bytes := t\<rparr>)
    \<and> is_file (fs1\<lparr>total_bytes := t\<rparr>) i \<and> file_data (fs1\<lparr>total_bytes := t\<rparr>) i = d \<and> entries (fs1\<lparr>total_bytes := t\<rparr>) = entries fs
    \<and> (\<forall>j. j \<noteq> i \<longrightarrow> file_data (fs1\<lparr>total_bytes := t\<rparr>) j = file_data fs j)"
proof -
  have i: "i < length (nodes fs)" using assms(2) by (simp add: is_file_def lv_def)
  note S = shape_data [OF i, of d]
  have "fs_ok (fs\<lparr>nodes := (nodes fs)[i := (nodes fs ! i)\<lparr>tn_data := d\<rparr>], total_bytes := t\<rparr>)"
    using fs_okD(1) [OF assms(1)] S assms(3,4) by (simp add: fs_ok_def)
  then show ?thesis
    using i assms(2,5) S by (simp add: update_node_eq is_file_def entries_def file_data_def)
qed

lemma vec_resize_length [simp]: "length (vec_resize n d) = n"
  by (auto simp: vec_resize_def)

lemma overwrite_length: "off + length b \<le> length d \<Longrightarrow> length (overwrite d off b) = length d"
  by (simp add: overwrite_def)

text \<open>The content after a write, also past the end, where the gap reads as zeros.\<close>

definition written :: "byte list \<Rightarrow> nat \<Rightarrow> byte list \<Rightarrow> byte list" where
  "written d off b = overwrite (vec_resize (max (off + length b) (length d)) d) off b"

lemma written_length: "length (written d off b) = max (off + length b) (length d)"
  by (simp add: written_def overwrite_length)

lemma vec_resize_same: "vec_resize (length d) d = d"
  by (simp add: vec_resize_def)

lemma tmpfs_write_ok:
  assumes ok: "fs_ok fs" and small: "off + length b < 2 ^ 63"
  shows "\<exists>r fs'. tmpfs_write i fs off b = Some (r, fs') \<and> fs_ok fs' \<and> (\<forall>e. r = Inl e \<longrightarrow> fs' = fs)
    \<and> (\<forall>n. r = Inr n \<longrightarrow> is_file fs i \<and> is_file fs' i \<and> n = length b \<and> file_data fs' i = written (file_data fs i) off b
         \<and> entries fs' = entries fs \<and> (\<forall>j. j \<noteq> i \<longrightarrow> file_data fs' j = file_data fs j)
         \<and> used fs' = used fs + (off + length b - length (file_data fs i)))
    \<and> (\<forall>e. r = Inl e \<longrightarrow> is_file fs i \<longrightarrow> TMPFS_MAX_SIZE < used fs + (off + length b - length (file_data fs i)))"
proof (cases "file_get fs i")
  case (Inl e)
  then have "\<not> is_file fs i" using file_get_Inr [of fs i "nodes fs ! i"] by auto
  then show ?thesis using ok Inl by (simp add: tmpfs_write_def)
next
  case (Inr nd)
  let ?d = "file_data fs i" and ?e = "off + length b"
  let ?t = "used fs + (max ?e (length ?d) - length ?d)"
  have f: "is_file fs i" "nd = nodes fs ! i" "tn_data nd = ?d" using Inr by (auto simp: file_get_Inr file_data_def)
  have t: "total_bytes fs = used fs" "used fs \<le> TMPFS_MAX_SIZE" using fs_okD [OF ok] by auto
  have le: "length ?d \<le> used fs" using data_le_used f(1) by (simp add: file_data_def is_file_def lv_def)
  have c: "cadd64 off (length b) = Some ?e" "cadd64 (total_bytes fs) (max ?e (length ?d) - length ?d) = Some ?t"
    using small t by (auto simp: cadd64_def TMPFS_MAX_SIZE_def)
  show ?thesis
  proof (cases "?t > TMPFS_MAX_SIZE")
    case True
    moreover have "?t = used fs + (?e - length ?d)" by (simp add: max_def)
    ultimately show ?thesis using Inr f c ok by (simp add: tmpfs_write_def Let_def)
  next
    case False
    let ?d' = "if ?e > length ?d then vec_resize ?e ?d else ?d"
    have d': "?d' = vec_resize (max ?e (length ?d)) ?d" by (simp add: vec_resize_same max_def)
    have "used fs + length (overwrite ?d' off b) - length ?d = ?t" unfolding d' using le by (simp add: overwrite_length)
    then obtain fs1 where fs1: "update_node i (\<lambda>n. n\<lparr>tn_data := overwrite ?d' off b\<rparr>) fs = Some fs1" "fs_ok (fs1\<lparr>total_bytes := ?t\<rparr>)"
      "is_file (fs1\<lparr>total_bytes := ?t\<rparr>) i" "file_data (fs1\<lparr>total_bytes := ?t\<rparr>) i = overwrite ?d' off b"
      "entries (fs1\<lparr>total_bytes := ?t\<rparr>) = entries fs" "\<forall>j. j \<noteq> i \<longrightarrow> file_data (fs1\<lparr>total_bytes := ?t\<rparr>) j = file_data fs j"
      using set_data_ex [OF ok f(1), of "overwrite ?d' off b" ?t "\<lambda>_. overwrite ?d' off b"] False by auto
    have "aslice ?d' off ?e = Some (take (?e - off) (drop off ?d'))" unfolding d' by (simp add: aslice_in)
    then have "tmpfs_write i fs off b = Some (Inr (length b), fs1\<lparr>total_bytes := ?t\<rparr>)"
      by (simp only: tmpfs_write_def Inr sum.case f(3) c Let_def bind.simps False if_False fs1(1))
    moreover have "used (fs1\<lparr>total_bytes := ?t\<rparr>) = ?t" using fs_okD(2) [OF fs1(2)] by simp
    moreover have "?t = used fs + (?e - length ?d)" by (simp add: max_def)
    ultimately show ?thesis using fs1(2-) f(1) d' by (simp add: written_def)
  qed
qed

lemma tmpfs_truncate_ok:
  assumes ok: "fs_ok fs" and small: "n < 2 ^ 63"
  shows "\<exists>r fs'. tmpfs_truncate i fs n = Some (r, fs') \<and> fs_ok fs' \<and> (\<forall>e. r = Inl e \<longrightarrow> fs' = fs)
    \<and> (r = Inr () \<longrightarrow> is_file fs i \<and> file_data fs' i = vec_resize n (file_data fs i) \<and> entries fs' = entries fs)"
proof (cases "file_get fs i")
  case (Inl e)
  then show ?thesis using ok by (simp add: tmpfs_truncate_def)
next
  case (Inr nd)
  let ?d = "file_data fs i" and ?t = "used fs + n - length (file_data fs i)"
  have f: "is_file fs i" "nd = nodes fs ! i" "tn_data nd = ?d" using Inr by (auto simp: file_get_Inr file_data_def)
  have t: "total_bytes fs = used fs" "used fs \<le> TMPFS_MAX_SIZE" using fs_okD [OF ok] by auto
  have le: "length ?d \<le> used fs" using data_le_used f(1) by (simp add: file_data_def is_file_def lv_def)
  have c: "cadd64 (total_bytes fs) n = Some (used fs + n)"
    "n > length ?d \<Longrightarrow> cadd64 (total_bytes fs) (n - length ?d) = Some ?t"
    using small t by (auto simp: cadd64_def TMPFS_MAX_SIZE_def)
  show ?thesis
  proof (cases "n > length ?d \<and> ?t > TMPFS_MAX_SIZE")
    case True
    then show ?thesis using Inr f c ok by (simp add: tmpfs_truncate_def Let_def)
  next
    case False
    then have "?t \<le> TMPFS_MAX_SIZE" using t le by linarith
    then obtain fs1 where fs1: "update_node i (\<lambda>nd. nd\<lparr>tn_data := vec_resize n (tn_data nd)\<rparr>) fs = Some fs1"
      "fs_ok (fs1\<lparr>total_bytes := ?t\<rparr>)" "file_data (fs1\<lparr>total_bytes := ?t\<rparr>) i = vec_resize n ?d" "entries (fs1\<lparr>total_bytes := ?t\<rparr>) = entries fs"
      using set_data_ex [OF ok f(1), of "vec_resize n ?d" ?t "\<lambda>nd. vec_resize n (tn_data nd)"] by (auto simp: file_data_def)
    then have "tmpfs_truncate i fs n = Some (Inr (), fs1\<lparr>total_bytes := ?t\<rparr>)"
      using Inr f(3) c False by (cases "n > length ?d") (auto simp: tmpfs_truncate_def Let_def)
    then show ?thesis using fs1 f(1) by auto
  qed
qed

lemma tmpfs_set_metadata_ok:
  assumes ok: "fs_ok fs"
  shows "fs_ok (snd (tmpfs_set_metadata i fs m))"
proof -
  have "fs_ok (fs\<lparr>nodes := (nodes fs)[i := (nodes fs ! i)\<lparr>tn_mode := a, tn_uid := b, tn_gid := c\<rparr>]\<rparr>)" if i: "i < length (nodes fs)" for a b c
  proof -
    let ?f = "fs\<lparr>nodes := (nodes fs)[i := (nodes fs ! i)\<lparr>tn_mode := a, tn_uid := b, tn_gid := c\<rparr>]\<rparr>"
    have "lv ?f = lv fs" "dr ?f = dr fs" "kd ?f = kd fs" "nm ?f = nm fs" "used ?f = used fs"
      using i data_le_used [OF i] by (auto simp: shape_defs fun_eq_iff nth_list_update used_update)
    then show ?thesis using fs_okD [OF ok] by (simp add: fs_ok_def)
  qed
  then show ?thesis using ok by (auto simp: tmpfs_set_metadata_def node_get_def split: sum.splits if_splits)
qed

section \<open>Properties\<close>

datatype tmpfs_op = TCreate InodeNum string | TMkdir InodeNum string | TUnlink InodeNum string
  | TRename InodeNum string InodeNum string | TWrite InodeNum nat "byte list" | TTruncate InodeNum nat
  | TChmod InodeNum InodeMetadata

fun tmpfs_apply :: "tmpfs_op \<Rightarrow> Tmpfs \<Rightarrow> Tmpfs option" where
  "tmpfs_apply (TCreate p x) fs = Some (snd (create_file fs p x))"
| "tmpfs_apply (TMkdir p x) fs = Some (snd (create_dir fs p x))"
| "tmpfs_apply (TUnlink p x) fs = map_option snd (unlink fs p x)"
| "tmpfs_apply (TRename p x q y) fs = map_option snd (rename fs p x q y)"
| "tmpfs_apply (TWrite i off b) fs = map_option snd (tmpfs_write i fs off b)"
| "tmpfs_apply (TTruncate i n) fs = map_option snd (tmpfs_truncate i fs n)"
| "tmpfs_apply (TChmod i m) fs = Some (snd (tmpfs_set_metadata i fs m))"

fun small_op :: "tmpfs_op \<Rightarrow> bool" where
  "small_op (TWrite i off b) = (off + length b < 2 ^ 63)"
| "small_op (TTruncate i n) = (n < 2 ^ 63)"
| "small_op _ = True"

lemma create_node_ok: "fs_ok fs \<Longrightarrow> fs_ok (snd (create_node ft md fs p x))"
  by (rule create_node_cases [of fs ft md p x]) auto

lemma tmpfs_apply_ok:
  assumes "fs_ok fs" "small_op op"
  shows "\<exists>fs'. tmpfs_apply op fs = Some fs' \<and> fs_ok fs'"
proof (cases op)
  case (TUnlink p x)
  then show ?thesis using unlink_ok [OF assms(1), of p x] by auto
next
  case (TRename p x q y)
  then show ?thesis using rename_ok [OF assms(1), of p x q y] by auto
next
  case (TWrite i off b)
  then show ?thesis using tmpfs_write_ok [OF assms(1), of off b i] assms(2) by auto
next
  case (TTruncate i n)
  then show ?thesis using tmpfs_truncate_ok [OF assms(1), of n i] assms(2) by auto
qed (auto simp: create_file_def create_dir_def create_node_ok tmpfs_set_metadata_ok assms(1))

lemma tmpfs_run_ok: "list_all small_op ops \<Longrightarrow> \<exists>fs. for_each ops tmpfs_apply tmpfs_new = Some fs \<and> fs_ok fs"
  by (rule for_each_keeps) (use fs_ok_new tmpfs_apply_ok in \<open>auto simp: list_all_iff\<close>)

text \<open>C24: whatever files and directories are created, removed, renamed, written, truncated or
  chmod-ed, in any order and with any arguments (sizes and offsets below \<open>2 ^ 63\<close>), nothing panics, the
  live nodes form one tree under the root with unique names in each directory, and the byte budget
  equals the bytes stored and stays within 16 MiB.\<close>

theorem tmpfs_always_tree:
  assumes "list_all small_op ops"
  shows "\<exists>fs. for_each ops tmpfs_apply tmpfs_new = Some fs \<and> fs_ok fs"
  using assms by (rule tmpfs_run_ok)

theorem tmpfs_always_tree_witness:
  "\<exists>fs. for_each [TMkdir 0 ''a'', TMkdir 1 ''b'', TRename 0 ''a'' 2 ''c'', TCreate 2 ''f'', TWrite 3 5 [1, 2], TUnlink 1 ''b'']
     tmpfs_apply tmpfs_new = Some fs \<and> fs_ok fs"
  by (rule tmpfs_always_tree) simp

text \<open>C25: \<open>rename\<close> on a well-formed tree either fails and changes nothing, or moves the entry
  exactly: the node that the old name led to is now found under the new name and nowhere else, a
  node that had the new name is gone, and every other directory entry is as it was.\<close>

theorem rename_refines:
  assumes "fs_ok fs"
  shows "\<exists>r fs'. rename fs op x np y = Some (r, fs') \<and> fs_ok fs' \<and>
    (case r of Inl e \<Rightarrow> fs' = fs
     | Inr _ \<Rightarrow> \<exists>src. (op, x, src) \<in> entries fs \<and>
         entries fs' = {(p, z, c). (p, z, c) \<in> entries fs \<and> c \<noteq> src \<and> (p, z) \<noteq> (np, y)} \<union> {(np, y, src)})"
proof -
  obtain r fs' where a: "rename fs op x np y = Some (r, fs')" "fs_ok fs'" "\<forall>e. r = Inl e \<longrightarrow> fs' = fs"
    and i: "r = Inr () \<longrightarrow> (\<exists>src. (op, x, src) \<in> entries fs
         \<and> entries fs' = {(p, z, c). (p, z, c) \<in> entries fs \<and> c \<noteq> src \<and> (p, z) \<noteq> (np, y)} \<union> {(np, y, src)})"
    using rename_ok [OF assms, of op x np y] by (elim exE conjE)
  show ?thesis by (rule exI [of _ r], rule exI [of _ fs'], cases r) (use a i in simp_all)
qed

theorem rename_refines_witness:
  "\<exists>fs'. rename (snd (create_file tmpfs_new 0 ''a'')) 0 ''a'' 0 ''b'' = Some (Inr (), fs') \<and> fs_ok fs' \<and> (0, ''b'', 1) \<in> entries fs'"
proof -
  let ?fs = "snd (create_file tmpfs_new 0 ''a'')"
  have "fs_ok ?fs" using create_node_ok [OF fs_ok_new] by (simp add: create_file_def)
  from rename_refines [OF this, of 0 "''a''" 0 "''b''"] obtain r fs' where r: "rename ?fs 0 ''a'' 0 ''b'' = Some (r, fs')" "fs_ok fs'"
    "case r of Inl e \<Rightarrow> fs' = ?fs
     | Inr _ \<Rightarrow> \<exists>src. (0, ''a'', src) \<in> entries ?fs \<and>
         entries fs' = {(p, z, c). (p, z, c) \<in> entries ?fs \<and> c \<noteq> src \<and> (p, z) \<noteq> (0, ''b'')} \<union> {(0, ''b'', src)}" by blast
  moreover have "fst (the (rename ?fs 0 ''a'' 0 ''b'')) = Inr ()" by code_simp
  moreover have "\<And>src. (0, ''a'', src) \<in> entries ?fs \<Longrightarrow> src = 1"
    by (auto simp: entries_def create_file_def create_node_def dir_get_def node_get_def tmpfs_new_def new_node_def alloc_ino_def
        shape_defs split: if_splits)
  ultimately show ?thesis by fastforce
qed

interpretation tmpf: random_access "tmpfs_inode i" "\<lambda>fs. file_data fs i" "\<lambda>fs. TMPFS_MAX_SIZE - used fs"
  "\<lambda>fs. fs_ok fs \<and> is_file fs i" for i
proof
  fix s off n assume "fs_ok s \<and> is_file s i"
  then have "file_get s i = Inr (nodes s ! i)" by (simp add: file_get_Inr)
  then show "iop_read (tmpfs_inode i) s off n = Some (Inr (take n (drop off (file_data s i))), s)"
    by (auto simp: tmpfs_inode_def tmpfs_read_def file_data_def csub_def aslice_def min_def)
next
  fix s off d assume s: "fs_ok s \<and> is_file s i" and off: "off \<le> length (file_data s i)" and small: "off + length (d :: byte list) < 2 ^ 63"
  have w: "written (file_data s i) off d = overwrite (file_data s i) off d"
    using off by (auto simp: written_def overwrite_def vec_resize_def max_def)
  obtain r s' where r: "tmpfs_write i s off d = Some (r, s')" "fs_ok s'" "\<forall>e. r = Inl e \<longrightarrow> s' = s"
    "\<forall>n. r = Inr n \<longrightarrow> is_file s' i \<and> n = length d \<and> file_data s' i = written (file_data s i) off d
         \<and> used s' = used s + (off + length d - length (file_data s i))"
    "\<forall>e. r = Inl e \<longrightarrow> TMPFS_MAX_SIZE < used s + (off + length d - length (file_data s i))"
    using tmpfs_write_ok [of s off d i] s small by blast
  have u: "used s \<le> TMPFS_MAX_SIZE" "used s' \<le> TMPFS_MAX_SIZE" using fs_okD [of s] fs_okD [OF r(2)] s by auto
  show "\<exists>r s'. iop_write (tmpfs_inode i) s off d = Some (r, s') \<and> (fs_ok s' \<and> is_file s' i)
      \<and> (case r of
          Inl e \<Rightarrow> s' = s \<and> length (file_data s i) + (TMPFS_MAX_SIZE - used s) < off + length d
        | Inr n \<Rightarrow> n = length d \<and> file_data s' i = overwrite (file_data s i) off d
            \<and> length (file_data s' i) + (TMPFS_MAX_SIZE - used s') = length (file_data s i) + (TMPFS_MAX_SIZE - used s))"
  proof (cases r)
    case (Inl e)
    then show ?thesis using r s u(1) by (auto simp: tmpfs_inode_def)
  next
    case (Inr n)
    have "length (overwrite (file_data s i) off d) = max (length (file_data s i)) (off + length d)"
      using off by (simp add: overwrite_def max_def)
    then show ?thesis using r Inr w u by (auto simp: tmpfs_inode_def)
  qed
qed

text \<open>C26: chunks written one after the other through an open file to an empty file of a
  well-formed tmpfs never panic. As many of them are written as the 16 MiB budget of the file system
  holds: the first \<open>k\<close>, all of them if they fit, and otherwise up to the first that does not, where the
  writes stop with an error. The file is then the concatenation of these \<open>k\<close> chunks, and a second open
  file reads back exactly its bytes in order, whatever the sizes of the reads.\<close>

theorem tmpfs_stream_roundtrip:
  assumes "fs_ok fs" "is_file fs i" "file_data fs i = []" "length (concat ds) < 2 ^ 63"
  shows "\<exists>k f' fs'. write_all (open_file_new i (tmpfs_inode i) O_RDWR) fs ds = Some (k = length ds, f', fs') \<and> fs_ok fs'
    \<and> k \<le> length ds \<and> used fs + length (concat (take k ds)) \<le> TMPFS_MAX_SIZE
    \<and> (k < length ds \<longrightarrow> TMPFS_MAX_SIZE < used fs + length (concat (take (Suc k) ds)))
    \<and> file_data fs' i = concat (take k ds)
    \<and> (\<exists>f''. read_all (open_file_new i (tmpfs_inode i) O_RDWR) fs' ns = Some (take (sum_list ns) (concat (take k ds)), f'', fs'))"
proof -
  have u: "used fs \<le> TMPFS_MAX_SIZE" using fs_okD [OF assms(1)] by simp
  obtain k f' fs' where k: "write_all (open_file_new i (tmpfs_inode i) O_RDWR) fs ds = Some (k = length ds, f', fs')" "fs_ok fs'"
    "k \<le> length ds" "length (concat (take k ds)) \<le> TMPFS_MAX_SIZE - used fs"
    "k < length ds \<longrightarrow> TMPFS_MAX_SIZE - used fs < length (concat (take (Suc k) ds))" "file_data fs' i = concat (take k ds)"
    "\<exists>f''. read_all (open_file_new i (tmpfs_inode i) O_RDWR) fs' ns = Some (take (sum_list ns) (concat (take k ds)), f'', fs')"
    using tmpf.stream_roundtrip [of fs i ds i ns] assms by blast
  moreover have "used fs + length (concat (take k ds)) \<le> TMPFS_MAX_SIZE" using k(4) u by linarith
  moreover have "k < length ds \<longrightarrow> TMPFS_MAX_SIZE < used fs + length (concat (take (Suc k) ds))" using k(5) by linarith
  ultimately show ?thesis by blast
qed

definition one_file :: Tmpfs where
  "one_file = snd (create_file tmpfs_new 0 ''f'')"

theorem tmpfs_stream_roundtrip_witness:
  "\<exists>f' fs' f''. write_all (open_file_new 1 (tmpfs_inode 1) O_RDWR) one_file [[1, 2], [3]] = Some (True, f', fs')
    \<and> file_data fs' 1 = [1, 2, 3] \<and> read_all (open_file_new 1 (tmpfs_inode 1) O_RDWR) fs' [1, 9] = Some ([1, 2, 3], f'', fs')"
proof -
  have ok: "fs_ok one_file" using create_node_ok [OF fs_ok_new] by (simp add: one_file_def create_file_def)
  have f: "is_file one_file 1" "file_data one_file 1 = []" "used one_file = 0"
    by (simp_all add: one_file_def create_file_def create_node_def dir_get_def node_get_def tmpfs_new_def new_node_def alloc_ino_def
        is_file_def lv_def dr_def file_data_def used_def)
  let ?ds = "[[1, 2], [3]] :: byte list list"
  obtain k f' fs' f'' where k: "write_all (open_file_new 1 (tmpfs_inode 1) O_RDWR) one_file ?ds = Some (k = length ?ds, f', fs')"
    "k \<le> length ?ds" "k < length ?ds \<longrightarrow> TMPFS_MAX_SIZE < used one_file + length (concat (take (Suc k) ?ds))"
    "file_data fs' 1 = concat (take k ?ds)"
    "read_all (open_file_new 1 (tmpfs_inode 1) O_RDWR) fs' [1, 9] = Some (take (sum_list [1, 9]) (concat (take k ?ds)), f'', fs')"
    using tmpfs_stream_roundtrip [OF ok f(1,2), of ?ds "[1, 9]"] by fastforce
  have "k = 2"
  proof (rule ccontr)
    assume "k \<noteq> 2"
    then have "k = 0 \<or> k = 1" using k(2) by auto
    then show False using k(3) f(3) by (auto simp: TMPFS_MAX_SIZE_def)
  qed
  then show ?thesis using k(1,4,5) by (simp del: write_all.simps read_all.simps)
qed

text \<open>C27: \<open>ftruncate\<close> passes any 64-bit length on; when the bytes of the other files plus
  the new length reach \<open>2 ^ 64\<close>, the budget check itself overflows and the kernel panics.\<close>

theorem truncate_huge_panics:
  assumes "fs_ok fs" "is_file fs i" "n < 2 ^ 64" "2 ^ 64 \<le> used fs - length (file_data fs i) + n" "length (file_data fs i) < n"
  shows "tmpfs_truncate i fs n = None"
proof -
  have "length (file_data fs i) \<le> used fs" using data_le_used assms(2) by (simp add: file_data_def is_file_def lv_def)
  then have "cadd64 (total_bytes fs) (n - length (file_data fs i)) = None"
    using assms(4,5) fs_okD(2) [OF assms(1)] by (simp add: cadd64_def)
  moreover have "file_get fs i = Inr (nodes fs ! i)" using assms(2) by (simp add: file_get_Inr)
  ultimately show ?thesis using assms(5) by (simp add: tmpfs_truncate_def Let_def file_data_def)
qed

definition two_files :: Tmpfs where
  "two_files = \<lparr>nodes = [(new_node ''/'' 0 Directory (file_mode_new 0x1ED))\<lparr>tn_children := [1, 2]\<rparr>,
     new_node ''f'' 1 Regular (file_mode_new 0x1A4), (new_node ''g'' 2 Regular (file_mode_new 0x1A4))\<lparr>tn_data := [1]\<rparr>],
     total_bytes = 1\<rparr>"

lemma two_files_shape:
  "length (nodes two_files) = 3" "lv two_files i \<longleftrightarrow> i < 3" "dr two_files i \<longleftrightarrow> i = 0"
  "kd two_files i = (if i = 0 then [1, 2] else [])" "nm two_files 1 = ''f''" "nm two_files 2 = ''g''"
  "used two_files = 1" "total_bytes two_files = 1"
  by (auto simp: two_files_def new_node_def shape_defs used_def less_Suc_eq numeral_3_eq_3)

lemma two_files_ok: "fs_ok two_files"
proof -
  have "(0, i) \<in> (child_rel (kd two_files))\<^sup>*" if "i < 3" for i
  proof (cases "i = 0")
    case False
    then have "(0, i) \<in> child_rel (kd two_files)" using that by (auto simp: child_rel_def two_files_shape)
    then show ?thesis by blast
  qed simp
  moreover have "inj_on (nm two_files) {Suc 0, 2}"
    using two_files_shape(5,6) by simp
  ultimately show ?thesis
    by (auto simp: fs_ok_def tree_ok_def two_files_shape(1-4,7,8) TMPFS_MAX_SIZE_def inj_on_def)
qed

theorem truncate_huge_panics_witness: "tmpfs_truncate 1 two_files (2 ^ 64 - 1) = None"
  by (rule truncate_huge_panics [OF two_files_ok])
    (simp_all add: is_file_def two_files_shape file_data_def, simp_all add: two_files_def new_node_def)

end
