(* ===== verification/NetCodec.thy ===== *)
theory NetCodec imports RPrelude begin

text \<open>
  The packet formats of the network stack (\<open>kernel/src/net/{eth,arp,ipv4,udp,icmp,dns}.rs\<close>): one
  parser and one writer per header, the Internet checksum and the ARP cache. Buffers and arrays
  are byte lists; every index, slice and \<open>copy_from_slice\<close> is checked, and \<open>debug_assert!\<close> is a
  panic, as in the development profile. A parser returns \<open>Some None\<close> when it rejects its input and
  \<open>None\<close> when it panics.
\<close>

type_synonym mac_addr = "byte list"
type_synonym ip_addr = "byte list"

named_theorems net_simps

section \<open>Buffers and byte order\<close>

text \<open>\<open>out[a..b].copy_from_slice(src)\<close>, and a call on the sub-slice \<open>&mut out[a..b]\<close>.\<close>

definition copy_at :: "byte list \<Rightarrow> nat \<Rightarrow> nat \<Rightarrow> byte list \<Rightarrow> byte list option" where
  "copy_at out a b src = (if a \<le> b \<and> b \<le> length out \<and> length src = b - a
     then Some (take a out @ src @ drop b out) else None)"

definition with_slice :: "byte list \<Rightarrow> nat \<Rightarrow> nat \<Rightarrow> (byte list \<Rightarrow> byte list option) \<Rightarrow> byte list option" where
  "with_slice out a b f = do { s \<leftarrow> aslice out a b; s' \<leftarrow> f s; copy_at out a b s' }"

definition u16_be :: "byte \<Rightarrow> byte \<Rightarrow> u16" where
  "u16_be a b = of_nat (unat a * 256 + unat b)"

definition u32_be :: "byte \<Rightarrow> byte \<Rightarrow> byte \<Rightarrow> byte \<Rightarrow> u32" where
  "u32_be a b c d = of_nat (((unat a * 256 + unat b) * 256 + unat c) * 256 + unat d)"

definition be16 :: "u16 \<Rightarrow> byte list" where
  "be16 w = [of_nat (unat w div 256), of_nat (unat w)]"

definition be32 :: "u32 \<Rightarrow> byte list" where
  "be32 w = [of_nat (unat w div 256 ^ 3), of_nat (unat w div 256 ^ 2), of_nat (unat w div 256), of_nat (unat w)]"

definition get_u16 :: "byte list \<Rightarrow> nat \<Rightarrow> u16 option" where
  "get_u16 d i = do { a \<leftarrow> aget d i; b \<leftarrow> aget d (i + 1); Some (u16_be a b) }"

definition get_u32 :: "byte list \<Rightarrow> nat \<Rightarrow> u32 option" where
  "get_u32 d i = do { a \<leftarrow> aget d i; b \<leftarrow> aget d (i + 1); c \<leftarrow> aget d (i + 2); e \<leftarrow> aget d (i + 3);
     Some (u32_be a b c e) }"

section \<open>Ethernet\<close>

definition ETH_HDR_LEN :: nat where "ETH_HDR_LEN = 14"
definition MAC_BROADCAST :: mac_addr where "MAC_BROADCAST = replicate 6 0xFF"
definition ETHERTYPE_IPV4 :: u16 where "ETHERTYPE_IPV4 = 0x0800"
definition ETHERTYPE_ARP :: u16 where "ETHERTYPE_ARP = 0x0806"

record EthHeader =
  eth_dst :: mac_addr
  eth_src :: mac_addr
  ethertype :: u16

definition eth_parse :: "byte list \<Rightarrow> (EthHeader \<times> byte list) option option" where
  "eth_parse frame =
     (if length frame < ETH_HDR_LEN then Some None
      else do {
        dst \<leftarrow> aslice frame 0 6;
        src \<leftarrow> aslice frame 6 12;
        ty \<leftarrow> get_u16 frame 12;
        payload \<leftarrow> aslice frame ETH_HDR_LEN (length frame);
        Some (Some (\<lparr>eth_dst = dst, eth_src = src, ethertype = ty\<rparr>, payload)) })"

definition write_header :: "byte list \<Rightarrow> mac_addr \<Rightarrow> mac_addr \<Rightarrow> u16 \<Rightarrow> byte list option" where
  "write_header out dst src ty =
     (if length out < ETH_HDR_LEN then None
      else do {
        out \<leftarrow> copy_at out 0 6 dst;
        out \<leftarrow> copy_at out 6 12 src;
        copy_at out 12 14 (be16 ty) })"

section \<open>The Internet checksum\<close>

text \<open>The sum is a \<open>u32\<close>, whose overflow panics.\<close>

definition cadd32 :: "nat \<Rightarrow> nat \<Rightarrow> nat option" where
  "cadd32 a b = (if a + b < 2 ^ 32 then Some (a + b) else None)"

function sum_loop :: "byte list \<Rightarrow> nat \<Rightarrow> nat \<Rightarrow> nat option" where
  "sum_loop d i s =
     (if i + 1 < length d
      then do { w \<leftarrow> get_u16 d i; s' \<leftarrow> cadd32 s (unat w); sum_loop d (i + 2) s' }
      else if i < length d then do { b \<leftarrow> aget d i; cadd32 s (unat b * 256) }
      else Some s)"
  by pat_completeness auto
termination by (relation "measure (\<lambda>(d, i, s). length d - i)") auto

definition add_ones_complement :: "nat \<Rightarrow> byte list \<Rightarrow> nat option" where
  "add_ones_complement s d = sum_loop d 0 s"

function fold_sum :: "nat \<Rightarrow> nat" where
  "fold_sum s = (if s div 65536 \<noteq> 0 then fold_sum (s mod 65536 + s div 65536) else s)"
  by pat_completeness auto
termination
proof (relation "measure id")
  fix s :: nat
  assume "s div 65536 \<noteq> 0"
  then show "(s mod 65536 + s div 65536, s) \<in> measure id"
    using div_mult_mod_eq [of s 65536] by (simp only: in_measure id_apply)
qed simp

declare sum_loop.simps [simp del] fold_sum.simps [simp del]

definition checksum :: "byte list \<Rightarrow> u16 option" where
  "checksum d = do { s \<leftarrow> sum_loop d 0 0; Some (NOT (of_nat (fold_sum s))) }"

section \<open>IPv4\<close>

definition IPV4_HDR_LEN :: nat where "IPV4_HDR_LEN = 20"
definition PROTO_ICMP :: byte where "PROTO_ICMP = 1"
definition PROTO_UDP :: byte where "PROTO_UDP = 17"
definition PROTO_TCP :: byte where "PROTO_TCP = 6"

record Ipv4Header =
  ihl :: byte
  ip_total_len :: u16
  identification :: u16
  flags_fragment :: u16
  ttl :: byte
  protocol :: byte
  ip_checksum :: u16
  ip_src :: ip_addr
  ip_dst :: ip_addr

definition ipv4_parse :: "byte list \<Rightarrow> (Ipv4Header \<times> byte list) option option" where
  "ipv4_parse packet =
     (if length packet < IPV4_HDR_LEN then Some None
      else do {
        ver_ihl \<leftarrow> aget packet 0;
        let version = drop_bit 4 ver_ihl;
        let ihl = ver_ihl AND 0x0F;
        if version \<noteq> 4 \<or> ihl < 5 then Some None
        else do {
          let header_len = unat ihl * 4;
          if length packet < header_len then Some None
          else do {
            tot \<leftarrow> get_u16 packet 2;
            id \<leftarrow> get_u16 packet 4;
            ff \<leftarrow> get_u16 packet 6;
            t \<leftarrow> aget packet 8;
            p \<leftarrow> aget packet 9;
            c \<leftarrow> get_u16 packet 10;
            src \<leftarrow> aslice packet 12 16;
            dst \<leftarrow> aslice packet 16 20;
            let payload_end = min (unat tot) (length packet);
            payload \<leftarrow> (if payload_end > header_len then aslice packet header_len payload_end else Some []);
            Some (Some (\<lparr>ihl = ihl, ip_total_len = tot, identification = id, flags_fragment = ff, ttl = t,
              protocol = p, ip_checksum = c, ip_src = src, ip_dst = dst\<rparr>, payload)) } } })"

definition ipv4_write :: "byte list \<Rightarrow> ip_addr \<Rightarrow> ip_addr \<Rightarrow> byte \<Rightarrow> nat \<Rightarrow> u16 \<Rightarrow> byte list option" where
  "ipv4_write out src dst proto payload_len ident =
     (if length out < IPV4_HDR_LEN then None
      else do {
        out \<leftarrow> aset out 0 0x45;
        out \<leftarrow> aset out 1 0;
        let tot = (of_nat (IPV4_HDR_LEN + payload_len) :: u16);
        out \<leftarrow> copy_at out 2 4 (be16 tot);
        out \<leftarrow> copy_at out 4 6 (be16 ident);
        out \<leftarrow> copy_at out 6 8 (be16 0);
        out \<leftarrow> aset out 8 64;
        out \<leftarrow> aset out 9 proto;
        out \<leftarrow> copy_at out 10 12 (be16 0);
        out \<leftarrow> copy_at out 12 16 src;
        out \<leftarrow> copy_at out 16 20 dst;
        hdr \<leftarrow> aslice out 0 IPV4_HDR_LEN;
        csum \<leftarrow> checksum hdr;
        copy_at out 10 12 (be16 csum) })"

section \<open>UDP\<close>

definition UDP_HDR_LEN :: nat where "UDP_HDR_LEN = 8"

record UdpHeader =
  udp_src_port :: u16
  udp_dst_port :: u16
  udp_length :: u16
  udp_checksum :: u16

definition udp_parse :: "byte list \<Rightarrow> (UdpHeader \<times> byte list) option option" where
  "udp_parse msg =
     (if length msg < UDP_HDR_LEN then Some None
      else do {
        sp \<leftarrow> get_u16 msg 0;
        dp \<leftarrow> get_u16 msg 2;
        len \<leftarrow> get_u16 msg 4;
        c \<leftarrow> get_u16 msg 6;
        let payload_end = min (unat len) (length msg);
        payload \<leftarrow> (if payload_end > UDP_HDR_LEN then aslice msg UDP_HDR_LEN payload_end else Some []);
        Some (Some (\<lparr>udp_src_port = sp, udp_dst_port = dp, udp_length = len, udp_checksum = c\<rparr>, payload)) })"

text \<open>The twelve bytes of pseudo-header that the UDP and TCP checksums start with.\<close>

definition pseudo_header :: "ip_addr \<Rightarrow> ip_addr \<Rightarrow> byte \<Rightarrow> u16 \<Rightarrow> byte list option" where
  "pseudo_header src_ip dst_ip proto len = do {
     p \<leftarrow> copy_at (replicate 12 0) 0 4 src_ip;
     p \<leftarrow> copy_at p 4 8 dst_ip;
     p \<leftarrow> aset p 8 0;
     p \<leftarrow> aset p 9 proto;
     copy_at p 10 12 (be16 len) }"

definition udp_write :: "byte list \<Rightarrow> ip_addr \<Rightarrow> ip_addr \<Rightarrow> u16 \<Rightarrow> u16 \<Rightarrow> nat \<Rightarrow> byte list option" where
  "udp_write out src_ip dst_ip src_port dst_port payload_len =
     (if length out < UDP_HDR_LEN + payload_len then None
      else do {
        let total_len = (of_nat (UDP_HDR_LEN + payload_len) :: u16);
        out \<leftarrow> copy_at out 0 2 (be16 src_port);
        out \<leftarrow> copy_at out 2 4 (be16 dst_port);
        out \<leftarrow> copy_at out 4 6 (be16 total_len);
        out \<leftarrow> copy_at out 6 8 (be16 0);
        pseudo \<leftarrow> pseudo_header src_ip dst_ip PROTO_UDP total_len;
        s \<leftarrow> add_ones_complement 0 pseudo;
        body \<leftarrow> aslice out 0 (UDP_HDR_LEN + payload_len);
        s \<leftarrow> add_ones_complement s body;
        let csum = NOT (of_nat (fold_sum s) :: u16);
        let csum = (if csum = 0 then 0xFFFF else csum);
        copy_at out 6 8 (be16 csum) })"

section \<open>ICMP\<close>

definition ICMP_HDR_LEN :: nat where "ICMP_HDR_LEN = 8"
definition TYPE_ECHO_REPLY :: byte where "TYPE_ECHO_REPLY = 0"
definition TYPE_ECHO_REQUEST :: byte where "TYPE_ECHO_REQUEST = 8"

definition write_echo :: "byte list \<Rightarrow> byte \<Rightarrow> u16 \<Rightarrow> u16 \<Rightarrow> nat \<Rightarrow> byte list option" where
  "write_echo out echo_type identifier seq payload_len =
     (if length out < ICMP_HDR_LEN + payload_len then None
      else do {
        out \<leftarrow> aset out 0 echo_type;
        out \<leftarrow> aset out 1 0;
        out \<leftarrow> copy_at out 2 4 (be16 0);
        out \<leftarrow> copy_at out 4 6 (be16 identifier);
        out \<leftarrow> copy_at out 6 8 (be16 seq);
        body \<leftarrow> aslice out 0 (ICMP_HDR_LEN + payload_len);
        csum \<leftarrow> checksum body;
        copy_at out 2 4 (be16 csum) })"

definition icmp_parse :: "byte list \<Rightarrow> (byte \<times> byte \<times> u16 \<times> u16 \<times> byte list) option option" where
  "icmp_parse msg =
     (if length msg < ICMP_HDR_LEN then Some None
      else do {
        csum \<leftarrow> checksum msg;
        if csum \<noteq> 0 then Some None
        else do {
          t \<leftarrow> aget msg 0;
          c \<leftarrow> aget msg 1;
          id \<leftarrow> get_u16 msg 4;
          seq \<leftarrow> get_u16 msg 6;
          payload \<leftarrow> aslice msg ICMP_HDR_LEN (length msg);
          Some (Some (t, c, id, seq, payload)) } })"

section \<open>ARP\<close>

definition ARP_PACKET_LEN :: nat where "ARP_PACKET_LEN = 28"
definition ARP_FRAME_LEN :: nat where "ARP_FRAME_LEN = ETH_HDR_LEN + ARP_PACKET_LEN"
definition HTYPE_ETHERNET :: u16 where "HTYPE_ETHERNET = 1"
definition PTYPE_IPV4 :: u16 where "PTYPE_IPV4 = ETHERTYPE_IPV4"
definition OP_REQUEST :: u16 where "OP_REQUEST = 1"
definition OP_REPLY :: u16 where "OP_REPLY = 2"

record ArpPacket =
  arp_op :: u16
  sender_mac :: mac_addr
  sender_ip :: ip_addr
  target_mac :: mac_addr
  target_ip :: ip_addr

definition arp_parse :: "byte list \<Rightarrow> ArpPacket option option" where
  "arp_parse payload =
     (if length payload < ARP_PACKET_LEN then Some None
      else do {
        htype \<leftarrow> get_u16 payload 0;
        ptype \<leftarrow> get_u16 payload 2;
        hlen \<leftarrow> aget payload 4;
        plen \<leftarrow> aget payload 5;
        if htype \<noteq> HTYPE_ETHERNET \<or> ptype \<noteq> PTYPE_IPV4 \<or> hlen \<noteq> 6 \<or> plen \<noteq> 4 then Some None
        else do {
          op \<leftarrow> get_u16 payload 6;
          sm \<leftarrow> aslice payload 8 14;
          si \<leftarrow> aslice payload 14 18;
          tm \<leftarrow> aslice payload 18 24;
          ti \<leftarrow> aslice payload 24 28;
          Some (Some \<lparr>arp_op = op, sender_mac = sm, sender_ip = si, target_mac = tm, target_ip = ti\<rparr>) } })"

definition arp_write :: "ArpPacket \<Rightarrow> byte list \<Rightarrow> byte list option" where
  "arp_write p out =
     (if length out < ARP_PACKET_LEN then None
      else do {
        out \<leftarrow> copy_at out 0 2 (be16 HTYPE_ETHERNET);
        out \<leftarrow> copy_at out 2 4 (be16 PTYPE_IPV4);
        out \<leftarrow> aset out 4 6;
        out \<leftarrow> aset out 5 4;
        out \<leftarrow> copy_at out 6 8 (be16 (arp_op p));
        out \<leftarrow> copy_at out 8 14 (sender_mac p);
        out \<leftarrow> copy_at out 14 18 (sender_ip p);
        out \<leftarrow> copy_at out 18 24 (target_mac p);
        copy_at out 24 28 (target_ip p) })"

definition CACHE_SIZE :: nat where "CACHE_SIZE = 8"

record CacheEntry =
  ce_ip :: ip_addr
  ce_mac :: mac_addr
  ce_valid :: bool

record ArpCache =
  ac_entries :: "CacheEntry list"
  next_slot :: nat

definition arp_cache_new :: ArpCache where
  "arp_cache_new = \<lparr>ac_entries = replicate CACHE_SIZE \<lparr>ce_ip = replicate 4 0, ce_mac = replicate 6 0, ce_valid = False\<rparr>,
     next_slot = 0\<rparr>"

text \<open>The loop over the entries: the table with the entry replaced, or \<open>None\<close> when there is none.\<close>

fun replace_entry :: "CacheEntry list \<Rightarrow> ip_addr \<Rightarrow> mac_addr \<Rightarrow> CacheEntry list option" where
  "replace_entry [] ip mac = None"
| "replace_entry (e # es) ip mac =
     (if ce_valid e \<and> ce_ip e = ip then Some (e\<lparr>ce_mac := mac\<rparr> # es)
      else map_option ((#) e) (replace_entry es ip mac))"

definition arp_insert :: "ArpCache \<Rightarrow> ip_addr \<Rightarrow> mac_addr \<Rightarrow> ArpCache option" where
  "arp_insert c ip mac =
     (case replace_entry (ac_entries c) ip mac of
        Some es \<Rightarrow> Some (c\<lparr>ac_entries := es\<rparr>)
      | None \<Rightarrow> do {
          es \<leftarrow> aset (ac_entries c) (next_slot c) \<lparr>ce_ip = ip, ce_mac = mac, ce_valid = True\<rparr>;
          Some \<lparr>ac_entries = es, next_slot = (next_slot c + 1) mod CACHE_SIZE\<rparr> })"

definition arp_lookup :: "ArpCache \<Rightarrow> ip_addr \<Rightarrow> mac_addr option" where
  "arp_lookup c ip = map_option ce_mac (find (\<lambda>e. ce_valid e \<and> ce_ip e = ip) (ac_entries c))"

definition build_request :: "byte list \<Rightarrow> mac_addr \<Rightarrow> ip_addr \<Rightarrow> ip_addr \<Rightarrow> byte list option" where
  "build_request out src_mac src_ip tgt =
     (if length out < ARP_FRAME_LEN then None
      else do {
        out \<leftarrow> write_header out MAC_BROADCAST src_mac ETHERTYPE_ARP;
        with_slice out ETH_HDR_LEN (length out)
          (arp_write \<lparr>arp_op = OP_REQUEST, sender_mac = src_mac, sender_ip = src_ip,
             target_mac = replicate 6 0, target_ip = tgt\<rparr>) })"

definition build_reply :: "byte list \<Rightarrow> mac_addr \<Rightarrow> ip_addr \<Rightarrow> mac_addr \<Rightarrow> ip_addr \<Rightarrow> byte list option" where
  "build_reply out our_mac our_ip peer_mac peer_ip =
     (if length out < ARP_FRAME_LEN then None
      else do {
        out \<leftarrow> write_header out peer_mac our_mac ETHERTYPE_ARP;
        with_slice out ETH_HDR_LEN (length out)
          (arp_write \<lparr>arp_op = OP_REPLY, sender_mac = our_mac, sender_ip = our_ip,
             target_mac = peer_mac, target_ip = peer_ip\<rparr>) })"

section \<open>DNS\<close>

definition DNS_PORT :: u16 where "DNS_PORT = 53"
definition HEADER_LEN :: nat where "HEADER_LEN = 12"
definition TYPE_A :: u16 where "TYPE_A = 1"
definition CLASS_IN :: u16 where "CLASS_IN = 1"

datatype DnsError = NameTooLong | LabelTooLong | Truncated | BadFormat | Loop | NotFoundA

text \<open>\<open>str::split('.')\<close> on the bytes of the name.\<close>

fun split_dots :: "byte list \<Rightarrow> byte list list" where
  "split_dots [] = [[]]"
| "split_dots (c # s) = (if c = 0x2E then [] # split_dots s
     else case split_dots s of p # ps \<Rightarrow> (c # p) # ps | [] \<Rightarrow> [[c]])"

fun encode_labels :: "byte list \<Rightarrow> nat \<Rightarrow> byte list list \<Rightarrow> (DnsError + byte list \<times> nat) option" where
  "encode_labels out pos [] = Some (Inr (out, pos))"
| "encode_labels out pos (label # ls) =
     (if label = [] then encode_labels out pos ls
      else if length label > 63 then Some (Inl LabelTooLong)
      else if pos + 1 + length label > length out then Some (Inl NameTooLong)
      else do {
        out \<leftarrow> aset out pos (of_nat (length label));
        out \<leftarrow> copy_at out (pos + 1) (pos + 1 + length label) label;
        encode_labels out (pos + (1 + length label)) ls })"

definition encode_name :: "byte list \<Rightarrow> byte list \<Rightarrow> (DnsError + byte list \<times> nat) option" where
  "encode_name out nm = do {
     r \<leftarrow> encode_labels out 0 (split_dots nm);
     case r of Inl e \<Rightarrow> Some (Inl e)
     | Inr (out, pos) \<Rightarrow>
         if pos \<ge> length out then Some (Inl NameTooLong)
         else do { out \<leftarrow> aset out pos 0; Some (Inr (out, pos + 1)) } }"

definition build_query_a :: "byte list \<Rightarrow> u16 \<Rightarrow> byte list \<Rightarrow> (DnsError + byte list \<times> nat) option" where
  "build_query_a out ident nm =
     (if length out < HEADER_LEN then Some (Inl NameTooLong)
      else do {
        out \<leftarrow> copy_at out 0 2 (be16 ident);
        out \<leftarrow> copy_at out 2 4 (be16 0x0100);
        out \<leftarrow> copy_at out 4 6 (be16 1);
        out \<leftarrow> copy_at out 6 8 (be16 0);
        out \<leftarrow> copy_at out 8 10 (be16 0);
        out \<leftarrow> copy_at out 10 12 (be16 0);
        tail \<leftarrow> aslice out HEADER_LEN (length out);
        r \<leftarrow> encode_name tail nm;
        case r of Inl e \<Rightarrow> Some (Inl e)
        | Inr (tail, name_len) \<Rightarrow> do {
            out \<leftarrow> copy_at out HEADER_LEN (length out) tail;
            let qtype_off = HEADER_LEN + name_len;
            if qtype_off + 4 > length out then Some (Inl NameTooLong)
            else do {
              out \<leftarrow> copy_at out qtype_off (qtype_off + 2) (be16 TYPE_A);
              out \<leftarrow> copy_at out (qtype_off + 2) (qtype_off + 4) (be16 CLASS_IN);
              Some (Inr (out, qtype_off + 4)) } } })"

function skip_name_loop :: "byte list \<Rightarrow> nat \<Rightarrow> nat \<Rightarrow> (DnsError + nat) option" where
  "skip_name_loop msg off hops =
     (if off \<ge> length msg then Some (Inl Truncated)
      else do {
        len \<leftarrow> aget msg off;
        if len = 0 then Some (Inr (off + 1))
        else if len AND 0xC0 = 0xC0 then
          (if off + 1 \<ge> length msg then Some (Inl Truncated) else Some (Inr (off + 2)))
        else if len AND 0xC0 \<noteq> 0 then Some (Inl BadFormat)
        else if hops + 1 > 128 then Some (Inl Loop)
        else skip_name_loop msg (off + (1 + unat len)) (hops + 1) })"
  by pat_completeness auto
termination by (relation "measure (\<lambda>(msg, off, hops). length msg - off)") auto

declare skip_name_loop.simps [simp del]

definition skip_name :: "byte list \<Rightarrow> nat \<Rightarrow> (DnsError + nat) option" where
  "skip_name msg off = skip_name_loop msg off 0"

primrec skip_questions :: "nat \<Rightarrow> byte list \<Rightarrow> nat \<Rightarrow> (DnsError + nat) option" where
  "skip_questions 0 msg off = Some (Inr off)"
| "skip_questions (Suc n) msg off = do {
     r \<leftarrow> skip_name msg off;
     case r of Inl e \<Rightarrow> Some (Inl e)
     | Inr off \<Rightarrow> if off + 4 > length msg then Some (Inl Truncated) else skip_questions n msg (off + 4) }"

primrec walk_answers :: "nat \<Rightarrow> byte list \<Rightarrow> nat \<Rightarrow> (DnsError + ip_addr) option" where
  "walk_answers 0 msg off = Some (Inl NotFoundA)"
| "walk_answers (Suc n) msg off = do {
     r \<leftarrow> skip_name msg off;
     case r of Inl e \<Rightarrow> Some (Inl e)
     | Inr off \<Rightarrow>
         if off + 10 > length msg then Some (Inl Truncated)
         else do {
           rtype \<leftarrow> get_u16 msg off;
           _ \<leftarrow> get_u16 msg (off + 2);
           _ \<leftarrow> get_u32 msg (off + 4);
           rl \<leftarrow> get_u16 msg (off + 8);
           let rdlength = unat rl;
           let rdata = off + 10;
           if rdata + rdlength > length msg then Some (Inl Truncated)
           else if rtype = TYPE_A \<and> rdlength = 4 then do {
             a \<leftarrow> aget msg rdata; b \<leftarrow> aget msg (rdata + 1); c \<leftarrow> aget msg (rdata + 2); d \<leftarrow> aget msg (rdata + 3);
             Some (Inr [a, b, c, d]) }
           else walk_answers n msg (rdata + rdlength) } }"

definition parse_first_a :: "byte list \<Rightarrow> (DnsError + ip_addr) option" where
  "parse_first_a msg =
     (if length msg < HEADER_LEN then Some (Inl Truncated)
      else do {
        flags \<leftarrow> get_u16 msg 2;
        qd \<leftarrow> get_u16 msg 4;
        an \<leftarrow> get_u16 msg 6;
        if flags AND 0x8000 = 0 then Some (Inl BadFormat)
        else if flags AND 0x000F \<noteq> 0 \<or> an = 0 then Some (Inl NotFoundA)
        else do {
          r \<leftarrow> skip_questions (unat qd) msg HEADER_LEN;
          case r of Inl e \<Rightarrow> Some (Inl e)
          | Inr off \<Rightarrow> walk_answers (unat an) msg off } })"


section \<open>Lemmas: byte order and buffers\<close>

lemma unat_byte: "unat (b :: byte) < 256"
  using unat_word_less [of b] by simp

lemma unat_u16: "unat (w :: u16) < 65536"
  using unat_word_less [of w] by simp

lemma unat_u16_be: "unat (u16_be a b) = unat a * 256 + unat b"
  using unat_byte [of a] unat_byte [of b] unfolding u16_be_def
  by (subst unat_of_nat_small) simp_all

lemma unat_of_nat_byte: "unat (of_nat n :: byte) = n mod 256"
  by (simp add: unsigned_of_nat take_bit_eq_mod)

lemma u16_be_be16 [net_simps]: "u16_be (of_nat (unat w div 256)) (of_nat (unat w)) = w"
proof -
  have "unat w div 256 < 256" using unat_u16 [of w] by (simp add: less_mult_imp_div_less)
  then have "(unat w div 256) mod 256 * 256 + unat w mod 256 = unat w" by simp
  then show ?thesis by (simp only: u16_be_def unat_of_nat_byte) simp
qed

lemma be16_bytes [net_simps]: "length (be16 w) = 2" "be16 w ! 0 = of_nat (unat w div 256)" "be16 w ! 1 = of_nat (unat w)"
  by (simp_all add: be16_def)

lemma be32_length [net_simps]: "length (be32 w) = 4"
  by (simp add: be32_def)

lemma u32_be_be32 [net_simps]:
  "u32_be (of_nat (unat w div 256 ^ 3)) (of_nat (unat w div 256 ^ 2)) (of_nat (unat w div 256)) (of_nat (unat w)) = w"
proof -
  define n where "n = unat w"
  have n: "n < 256 ^ 4" using unat_word_less [of w] by (simp add: n_def)
  have "n div 256 ^ 3 < 256" using n by (simp add: less_mult_imp_div_less)
  moreover have "n div 256 ^ 3 = n div 256 ^ 2 div 256" "n div 256 ^ 2 = n div 256 div 256"
    by (simp_all add: div_mult2_eq [symmetric])
  ultimately have "(((n div 256 ^ 3) mod 256 * 256 + n div 256 ^ 2 mod 256) * 256 + n div 256 mod 256) * 256 + n mod 256 = n"
    by (metis div_mult_mod_eq mod_less)
  then show ?thesis by (simp only: u32_be_def unat_of_nat_byte n_def [symmetric]) (simp add: n_def)
qed

lemma copy_at_in [rust_simps]:
  "a \<le> b \<Longrightarrow> b \<le> length out \<Longrightarrow> length src = b - a \<Longrightarrow> copy_at out a b src = Some (take a out @ src @ drop b out)"
  by (simp add: copy_at_def)

lemma copy_at_length: "copy_at out a b src = Some out' \<Longrightarrow> length out' = length out"
  by (auto simp: copy_at_def split: if_splits)

lemma get_u16_in [rust_simps]: "i + 1 < length d \<Longrightarrow> get_u16 d i = Some (u16_be (d ! i) (d ! (i + 1)))"
  by (simp add: get_u16_def aget_def)

lemma get_u32_in [rust_simps]:
  "i + 3 < length d \<Longrightarrow> get_u32 d i = Some (u32_be (d ! i) (d ! (i + 1)) (d ! (i + 2)) (d ! (i + 3)))"
  by (simp add: get_u32_def aget_def)

section \<open>Lemmas: the checksum\<close>

text \<open>The sum of the big-endian 16-bit words of a buffer.\<close>

fun word_sum :: "byte list \<Rightarrow> nat" where
  "word_sum [] = 0"
| "word_sum [a] = unat a * 256"
| "word_sum (a # b # d) = unat a * 256 + unat b + word_sum d"

lemma word_sum_bound: "word_sum d \<le> 65535 * length d"
proof (induction d rule: word_sum.induct)
  case (2 a)
  then show ?case using unat_byte [of a] by simp
next
  case (3 a b d)
  then show ?case using unat_byte [of a] unat_byte [of b] by simp
qed simp

lemma word_sum_append: "even (length d) \<Longrightarrow> word_sum (d @ e) = word_sum d + word_sum e"
  by (induction d rule: word_sum.induct) simp_all

lemma word_sum_be16 [simp]: "word_sum (be16 w) = unat w"
proof -
  have "unat w div 256 < 256" using unat_u16 [of w] by (simp add: less_mult_imp_div_less)
  then have "(unat w div 256) mod 256 * 256 + unat w mod 256 = unat w" by simp
  then show ?thesis by (simp only: be16_def word_sum.simps unat_of_nat_byte add_0_right)
qed

lemma sum_loop_eq:
  "s + word_sum (drop i d) < 2 ^ 32 \<Longrightarrow> sum_loop d i s = Some (s + word_sum (drop i d))"
proof (induction d i s rule: sum_loop.induct)
  case (1 d i s)
  consider "i + 1 < length d" | "i + 1 = length d" | "length d \<le> i" by linarith
  then show ?case
  proof cases
    case 1
    then have d: "drop i d = d ! i # d ! (i + 1) # drop (i + 2) d"
      by (metis Cons_nth_drop_Suc Suc_eq_plus1 Suc_lessD add_2_eq_Suc')
    then have s: "s + word_sum (drop i d) = s + unat (u16_be (d ! i) (d ! (i + 1))) + word_sum (drop (i + 2) d)"
      by (simp add: unat_u16_be)
    then have "cadd32 s (unat (u16_be (d ! i) (d ! (i + 1)))) = Some (s + unat (u16_be (d ! i) (d ! (i + 1))))"
      using "1.prems" by (simp add: cadd32_def)
    then show ?thesis using "1.IH" [OF 1] "1.prems" 1 s
      by (subst sum_loop.simps) (simp add: rust_simps)
  next
    case 2
    then have "drop i d = [d ! i]" by (metis Cons_nth_drop_Suc Suc_eq_plus1 drop_all le_refl less_add_one)
    then show ?thesis using 2 "1.prems" by (subst sum_loop.simps) (simp add: rust_simps cadd32_def)
  next
    case 3
    then show ?thesis by (subst sum_loop.simps) simp
  qed
qed

lemma fold_sum_props:
  "fold_sum s < 65536 \<and> fold_sum s mod 65535 = s mod 65535 \<and> (fold_sum s = 0 \<longleftrightarrow> s = 0)"
proof (induction s rule: fold_sum.induct)
  case (1 s)
  show ?case
  proof (cases "s div 65536 = 0")
    case True
    then have "fold_sum s = s" "s < 65536" by (simp_all add: fold_sum.simps [of s] div_eq_0_iff)
    then show ?thesis by simp
  next
    case False
    have "s mod 65535 = (s div 65536 * 65536 + s mod 65536) mod 65535" by simp
    also have "\<dots> = (s div 65536 * 65535 + (s mod 65536 + s div 65536)) mod 65535"
      by (rule arg_cong [of _ _ "\<lambda>x. x mod 65535"]) simp
    also have "\<dots> = (s mod 65536 + s div 65536) mod 65535" by (simp only: mod_mult_self3)
    finally show ?thesis using 1 [OF False] False fold_sum.simps [of s] by auto
  qed
qed

lemma unat_not_u16: "n < 65536 \<Longrightarrow> unat (NOT (of_nat n :: u16)) = 65535 - n"
proof -
  assume n: "n < 65536"
  have "NOT (of_nat n :: u16) = - 1 - of_nat n" by (simp add: not_eq_complement)
  also have "\<dots> = of_nat (65535 - n)" using n by (simp add: of_nat_diff)
  finally show ?thesis using n by (simp only:) (subst unat_of_nat_small, simp_all)
qed

lemma checksum_eq:
  assumes "length d < 65536"
  shows "checksum d = Some (NOT (of_nat (fold_sum (word_sum d))))"
proof -
  have "word_sum d < 2 ^ 32" using word_sum_bound [of d] assms by (simp add: less_eq_Suc_le)
  then show ?thesis using sum_loop_eq [of 0 0 d] by (simp add: checksum_def)
qed

text \<open>A message verifies when its word sum is a positive multiple of 65535; adding the complement
  of the folded sum of the rest makes it one.\<close>

lemma checksum_zero_iff:
  assumes "length d < 65536"
  shows "checksum d = Some 0 \<longleftrightarrow> 0 < word_sum d \<and> word_sum d mod 65535 = 0"
proof -
  let ?f = "fold_sum (word_sum d)"
  have f: "?f < 65536" "?f mod 65535 = word_sum d mod 65535" "(?f = 0) = (word_sum d = 0)"
    using fold_sum_props [of "word_sum d"] by auto
  have "checksum d = Some 0 \<longleftrightarrow> unat (NOT (of_nat ?f :: u16)) = 0"
    using checksum_eq [OF assms] by (simp add: unat_eq_0)
  also have "\<dots> \<longleftrightarrow> ?f = 65535" using f(1) unat_not_u16 [OF f(1)] by auto
  also have "\<dots> \<longleftrightarrow> 0 < word_sum d \<and> word_sum d mod 65535 = 0"
  proof (cases "?f = 65535")
    case True
    then show ?thesis using f by simp
  next
    case False
    then have "?f mod 65535 = ?f" using f(1) by simp
    then show ?thesis using False f by auto
  qed
  finally show ?thesis .
qed

lemma complement_sum:
  "0 < s + unat (NOT (of_nat (fold_sum s) :: u16)) \<and> (s + unat (NOT (of_nat (fold_sum s) :: u16))) mod 65535 = 0"
proof -
  let ?f = "fold_sum s"
  have f: "?f < 65536" "?f mod 65535 = s mod 65535" "(?f = 0) = (s = 0)" using fold_sum_props [of s] by auto
  have "(s + (65535 - ?f)) mod 65535 = (?f + (65535 - ?f)) mod 65535" using f(2) by (metis mod_add_left_eq)
  then show ?thesis using f unat_not_u16 [OF f(1)] by auto
qed


section \<open>Lemmas: parsers and writers\<close>

text \<open>Each parser accepts or rejects, without a panic; the writers give explicit byte sequences.\<close>

lemma aset_at [net_simps]: "i < length xs \<Longrightarrow> aset xs i v = Some (take i xs @ [v] @ drop (Suc i) xs)"
  by (simp add: aset_def upd_conv_take_nth_drop)

text \<open>A buffer written front to back: \<open>p\<close> is the part already written.\<close>

lemma copy_first: "length src = b \<Longrightarrow> b \<le> length r \<Longrightarrow> copy_at r 0 b src = Some (src @ drop b r)"
  by (simp add: copy_at_def)

lemma copy_next:
  "length p = a \<Longrightarrow> a \<le> b \<Longrightarrow> length src = b - a \<Longrightarrow> b - a \<le> length r \<Longrightarrow> copy_at (p @ r) a b src = Some ((p @ src) @ drop (b - a) r)"
  by (simp add: copy_at_def)

lemma aset_next: "length p = a \<Longrightarrow> 0 < length r \<Longrightarrow> aset (p @ r) a v = Some ((p @ [v]) @ drop 1 r)"
  by (cases r) (simp_all add: aset_def list_update_append)

lemmas write_steps = copy_first copy_next aset_next

lemma eth_parse_eq:
  "eth_parse frame = Some (if length frame < 14 then None
     else Some (\<lparr>eth_dst = take 6 frame, eth_src = take 6 (drop 6 frame), ethertype = u16_be (frame ! 12) (frame ! 13)\<rparr>,
       drop 14 frame))"
  by (simp add: eth_parse_def ETH_HDR_LEN_def rust_simps)

lemma write_header_eq [rust_simps]:
  assumes "14 \<le> length out" "length dst = 6" "length src = 6"
  shows "write_header out dst src ty = Some (dst @ src @ be16 ty @ drop 14 out)"
  using assms by (simp add: write_header_def ETH_HDR_LEN_def rust_simps net_simps)

definition ipv4_bytes :: "ip_addr \<Rightarrow> ip_addr \<Rightarrow> byte \<Rightarrow> nat \<Rightarrow> u16 \<Rightarrow> u16 \<Rightarrow> byte list" where
  "ipv4_bytes src dst proto n ident csum =
     [0x45, 0] @ be16 (of_nat (20 + n)) @ be16 ident @ be16 0 @ [64, proto] @ be16 csum @ src @ dst"

definition ipv4_csum :: "ip_addr \<Rightarrow> ip_addr \<Rightarrow> byte \<Rightarrow> nat \<Rightarrow> u16 \<Rightarrow> u16" where
  "ipv4_csum src dst proto n ident = NOT (of_nat (fold_sum (word_sum (ipv4_bytes src dst proto n ident 0))))"

lemma ipv4_write_eq [rust_simps]:
  assumes "length out = 20" "length src = 4" "length dst = 4"
  shows "ipv4_write out src dst proto n ident = Some (ipv4_bytes src dst proto n ident (ipv4_csum src dst proto n ident))"
  using assms
  by (simp add: ipv4_write_def IPV4_HDR_LEN_def rust_simps net_simps ipv4_bytes_def ipv4_csum_def checksum_eq
      del: aset_in)

lemma ipv4_bytes_length [net_simps]:
  "length src = 4 \<Longrightarrow> length dst = 4 \<Longrightarrow> length (ipv4_bytes src dst proto n ident c) = 20"
  by (simp add: ipv4_bytes_def net_simps)

lemma ipv4_checksum_ok:
  assumes "length src = 4" "length dst = 4"
  shows "checksum (ipv4_bytes src dst proto n ident (ipv4_csum src dst proto n ident)) = Some 0"
proof -
  let ?b = "ipv4_bytes src dst proto n ident"
  have sum: "word_sum (?b c) = word_sum (?b 0) + unat c" for c
    by (simp add: ipv4_bytes_def word_sum_append net_simps assms)
  have len: "length (?b c) < 65536" for c using assms by (simp add: net_simps)
  show ?thesis unfolding checksum_zero_iff [OF len] sum [of "ipv4_csum src dst proto n ident"]
    using complement_sum [of "word_sum (?b 0)"] by (simp only: ipv4_csum_def)
qed

definition ipv4_view :: "byte list \<Rightarrow> Ipv4Header" where
  "ipv4_view p = \<lparr>ihl = p ! 0 AND 0x0F, ip_total_len = u16_be (p ! 2) (p ! 3), identification = u16_be (p ! 4) (p ! 5),
     flags_fragment = u16_be (p ! 6) (p ! 7), ttl = p ! 8, protocol = p ! 9, ip_checksum = u16_be (p ! 10) (p ! 11),
     ip_src = take 4 (drop 12 p), ip_dst = take 4 (drop 16 p)\<rparr>"

lemma ipv4_parse_cases:
  "ipv4_parse p = Some None \<or>
   (20 \<le> length p \<and> ipv4_parse p = Some (Some (ipv4_view p,
      take (min (unat (u16_be (p ! 2) (p ! 3))) (length p) - unat (p ! 0 AND 0x0F) * 4) (drop (unat (p ! 0 AND 0x0F) * 4) p))))"
proof (cases "length p < 20")
  case True
  then show ?thesis by (simp add: ipv4_parse_def IPV4_HDR_LEN_def)
next
  case False
  then have "p \<noteq> []" by auto
  then show ?thesis using False
    by (simp add: ipv4_parse_def IPV4_HDR_LEN_def rust_simps Let_def ipv4_view_def) (auto simp: min_def)
qed

lemma ipv4_roundtrip:
  assumes "length src = 4" "length dst = 4" "20 + length payload < 65536"
  shows "\<exists>h. ipv4_parse (ipv4_bytes src dst proto (length payload) ident c @ payload) = Some (Some (h, payload))
    \<and> protocol h = proto \<and> ip_src h = src \<and> ip_dst h = dst \<and> identification h = ident \<and> ip_checksum h = c"
proof -
  let ?t = "of_nat (20 + length payload) :: u16"
  have t: "unat ?t = 20 + length payload" using assms(3) by (subst unat_of_nat_small) simp_all
  have five: "drop_bit 4 (0x45 :: byte) = 4" "(0x45 :: byte) AND 0x0F = 5" by simp_all
  let ?p = "ipv4_bytes src dst proto (length payload) ident c @ payload"
  have len: "length ?p = 20 + length payload" using assms by (simp add: net_simps)
  have nth: "?p ! 0 = 0x45" "u16_be (?p ! 2) (?p ! 3) = ?t" "u16_be (?p ! 4) (?p ! 5) = ident" "?p ! 9 = proto"
    "u16_be (?p ! 10) (?p ! 11) = c" "take 4 (drop 12 ?p) = src" "take 4 (drop 16 ?p) = dst" "drop 20 ?p = payload"
    using assms u16_be_be16 [of ?t] u16_be_be16 [of ident] u16_be_be16 [of c]
    by (simp_all add: ipv4_bytes_def be16_def nth_append)
  have "ipv4_parse ?p = Some (Some (ipv4_view ?p, payload))"
    using len nth t five by (simp add: ipv4_parse_def IPV4_HDR_LEN_def rust_simps Let_def ipv4_view_def)
  then show ?thesis using nth by (simp add: ipv4_view_def)
qed

definition echo_bytes :: "byte \<Rightarrow> u16 \<Rightarrow> u16 \<Rightarrow> u16 \<Rightarrow> byte list \<Rightarrow> byte list" where
  "echo_bytes t ident seq c payload = [t, 0] @ be16 c @ be16 ident @ be16 seq @ payload"

definition echo_csum :: "byte \<Rightarrow> u16 \<Rightarrow> u16 \<Rightarrow> byte list \<Rightarrow> u16" where
  "echo_csum t ident seq payload = NOT (of_nat (fold_sum (word_sum (echo_bytes t ident seq 0 payload))))"

lemma write_echo_eq [rust_simps]:
  assumes "length out = 8 + n" "n < 60000"
  shows "write_echo out t ident seq n = Some (echo_bytes t ident seq (echo_csum t ident seq (drop 8 out)) (drop 8 out))"
  using assms
  by (simp add: write_echo_def ICMP_HDR_LEN_def rust_simps net_simps echo_bytes_def echo_csum_def checksum_eq
      del: aset_in)

lemma echo_checksum_ok:
  assumes "length payload < 60000"
  shows "checksum (echo_bytes t ident seq (echo_csum t ident seq payload) payload) = Some 0"
proof -
  let ?b = "\<lambda>c. echo_bytes t ident seq c payload"
  have sum: "word_sum (?b c) = word_sum (?b 0) + unat c" for c
    by (simp add: echo_bytes_def word_sum_append net_simps)
  have len: "length (?b c) < 65536" for c using assms by (simp add: echo_bytes_def net_simps)
  show ?thesis unfolding checksum_zero_iff [OF len] sum [of "echo_csum t ident seq payload"]
    using complement_sum [of "word_sum (?b 0)"] by (simp only: echo_csum_def)
qed

lemma icmp_parse_cases:
  assumes "length msg < 65536"
  shows "icmp_parse msg = Some None \<or>
    (8 \<le> length msg \<and> checksum msg = Some 0
     \<and> icmp_parse msg = Some (Some (msg ! 0, msg ! 1, u16_be (msg ! 4) (msg ! 5), u16_be (msg ! 6) (msg ! 7), drop 8 msg)))"
proof (cases "length msg < 8")
  case True
  then show ?thesis by (simp add: icmp_parse_def ICMP_HDR_LEN_def)
next
  case False
  then have "msg \<noteq> []" by auto
  then show ?thesis using False checksum_eq [OF assms] by (simp add: icmp_parse_def ICMP_HDR_LEN_def rust_simps)
qed

lemma echo_roundtrip:
  assumes "length payload < 60000"
  shows "icmp_parse (echo_bytes t ident seq (echo_csum t ident seq payload) payload) = Some (Some (t, 0, ident, seq, payload))"
proof -
  let ?m = "echo_bytes t ident seq (echo_csum t ident seq payload) payload"
  have "?m ! 0 = t" "?m ! 1 = 0" "u16_be (?m ! 4) (?m ! 5) = ident" "u16_be (?m ! 6) (?m ! 7) = seq" "drop 8 ?m = payload"
    "length ?m = 8 + length payload"
    using u16_be_be16 [of ident] u16_be_be16 [of seq] by (simp_all add: echo_bytes_def be16_def)
  then show ?thesis using echo_checksum_ok [OF assms] by (simp add: icmp_parse_def ICMP_HDR_LEN_def rust_simps)
qed

text \<open>UDP: the pseudo-header, the datagram and its checksum together verify, and the field is never zero.\<close>

definition udp_bytes :: "u16 \<Rightarrow> u16 \<Rightarrow> u16 \<Rightarrow> byte list \<Rightarrow> byte list" where
  "udp_bytes sp dp c payload = be16 sp @ be16 dp @ be16 (of_nat (8 + length payload)) @ be16 c @ payload"

definition pseudo_bytes :: "ip_addr \<Rightarrow> ip_addr \<Rightarrow> byte \<Rightarrow> u16 \<Rightarrow> byte list" where
  "pseudo_bytes src dst proto len = src @ dst @ [0, proto] @ be16 len"

definition transport_csum :: "byte list \<Rightarrow> byte list \<Rightarrow> u16" where
  "transport_csum pseudo body = NOT (of_nat (fold_sum (word_sum pseudo + word_sum body)))"

definition udp_csum :: "ip_addr \<Rightarrow> ip_addr \<Rightarrow> u16 \<Rightarrow> u16 \<Rightarrow> byte list \<Rightarrow> u16" where
  "udp_csum src dst sp dp payload =
     (let c = transport_csum (pseudo_bytes src dst PROTO_UDP (of_nat (8 + length payload))) (udp_bytes sp dp 0 payload)
      in if c = 0 then 0xFFFF else c)"

lemma pseudo_header_eq [rust_simps]:
  "length src = 4 \<Longrightarrow> length dst = 4 \<Longrightarrow> pseudo_header src dst proto len = Some (pseudo_bytes src dst proto len)"
  by (simp add: pseudo_header_def pseudo_bytes_def rust_simps net_simps del: aset_in)

lemma transport_sum_eq:
  assumes "length d < 100" "length e < 60000"
  shows "add_ones_complement 0 d = Some (word_sum d)"
    "add_ones_complement (word_sum d) e = Some (word_sum d + word_sum e)"
proof -
  have "word_sum d + word_sum e < 2 ^ 32"
    using assms word_sum_bound [of d] word_sum_bound [of e] by simp
  then show "add_ones_complement 0 d = Some (word_sum d)"
    "add_ones_complement (word_sum d) e = Some (word_sum d + word_sum e)"
    using sum_loop_eq [of 0 0 d] sum_loop_eq [of "word_sum d" 0 e] by (simp_all add: add_ones_complement_def)
qed

lemma udp_write_eq [rust_simps]:
  assumes "length out = 8 + n" "n < 50000" "length src = 4" "length dst = 4"
  shows "udp_write out src dst sp dp n = Some (udp_bytes sp dp (udp_csum src dst sp dp (drop 8 out)) (drop 8 out))"
proof -
  define P where "P = pseudo_bytes src dst PROTO_UDP (of_nat (8 + n))"
  define B where "B = udp_bytes sp dp 0 (drop 8 out)"
  define C where "C = udp_csum src dst sp dp (drop 8 out)"
  have n: "length (drop 8 out) = n" using assms(1) by simp
  have len: "length P < 100" "length B = 8 + n" using assms by (simp_all add: P_def B_def pseudo_bytes_def udp_bytes_def net_simps)
  have sums: "add_ones_complement 0 P = Some (word_sum P)" "add_ones_complement (word_sum P) B = Some (word_sum P + word_sum B)"
    using transport_sum_eq [of P B] len assms(2) by simp_all
  have B: "be16 sp @ be16 dp @ be16 (of_nat (8 + n)) @ be16 0 @ drop 8 out = B"
    by (simp only: B_def udp_bytes_def n)
  have C: "(let c = NOT (of_nat (fold_sum (word_sum P + word_sum B)) :: u16) in if c = 0 then 0xFFFF else c) = C"
    by (simp only: C_def udp_csum_def transport_csum_def P_def B_def n)
  have "udp_write out src dst sp dp n = copy_at B 6 8 (be16 C)"
    unfolding udp_write_def C [symmetric] P_def [symmetric] UDP_HDR_LEN_def Let_def
    using assms len sums B P_def by (simp add: rust_simps net_simps del: of_nat_add)
  also have "\<dots> = Some (udp_bytes sp dp C (drop 8 out))"
    using assms len by (simp add: rust_simps net_simps B_def udp_bytes_def)
  finally show ?thesis by (simp only: C_def)
qed

lemma udp_parse_cases:
  "udp_parse m = Some (if length m < 8 then None else
     Some (\<lparr>udp_src_port = u16_be (m ! 0) (m ! 1), udp_dst_port = u16_be (m ! 2) (m ! 3),
        udp_length = u16_be (m ! 4) (m ! 5), udp_checksum = u16_be (m ! 6) (m ! 7)\<rparr>,
      take (min (unat (u16_be (m ! 4) (m ! 5))) (length m) - 8) (drop 8 m)))"
  by (auto simp: udp_parse_def UDP_HDR_LEN_def rust_simps Let_def min_def)

text \<open>ARP.\<close>

definition arp_bytes :: "ArpPacket \<Rightarrow> byte list" where
  "arp_bytes p = be16 1 @ be16 0x0800 @ [6, 4] @ be16 (arp_op p) @ sender_mac p @ sender_ip p @ target_mac p @ target_ip p"

definition arp_ok :: "ArpPacket \<Rightarrow> bool" where
  "arp_ok p \<longleftrightarrow> length (sender_mac p) = 6 \<and> length (sender_ip p) = 4 \<and> length (target_mac p) = 6 \<and> length (target_ip p) = 4"

lemma arp_write_eq [rust_simps]:
  "arp_ok p \<Longrightarrow> length out = 28 \<Longrightarrow> arp_write p out = Some (arp_bytes p)"
  by (simp add: arp_write_def arp_ok_def arp_bytes_def ARP_PACKET_LEN_def HTYPE_ETHERNET_def PTYPE_IPV4_def
      ETHERTYPE_IPV4_def rust_simps net_simps del: aset_in)

lemma arp_parse_cases:
  "arp_parse d = Some None \<or> (\<exists>p. arp_parse d = Some (Some p) \<and> arp_ok p)"
  by (cases "length d < 28") (simp_all add: arp_parse_def ARP_PACKET_LEN_def rust_simps arp_ok_def)

lemma arp_roundtrip: "arp_ok p \<Longrightarrow> arp_parse (arp_bytes p) = Some (Some p)"
  using u16_be_be16 [of "arp_op p"]
  by (simp add: arp_parse_def arp_bytes_def arp_ok_def ARP_PACKET_LEN_def HTYPE_ETHERNET_def PTYPE_IPV4_def
      ETHERTYPE_IPV4_def rust_simps be16_def u16_be_def)

section \<open>Lemmas: the ARP cache\<close>

definition entry_ok :: "CacheEntry \<Rightarrow> bool" where
  "entry_ok e \<longleftrightarrow> length (ce_ip e) = 4 \<and> length (ce_mac e) = 6"

definition cache_ok :: "ArpCache \<Rightarrow> bool" where [inv_defs]:
  "cache_ok c \<longleftrightarrow> length (ac_entries c) = CACHE_SIZE \<and> next_slot c < CACHE_SIZE \<and> list_all entry_ok (ac_entries c)"

lemma cache_new_ok: "cache_ok arp_cache_new"
  by (simp add: cache_ok_def arp_cache_new_def CACHE_SIZE_def entry_ok_def list_all_length)

lemma replace_entry_Some:
  "replace_entry es ip mac = Some es' \<Longrightarrow> length es' = length es
     \<and> find (\<lambda>e. ce_valid e \<and> ce_ip e = ip) es' = Some ((the (find (\<lambda>e. ce_valid e \<and> ce_ip e = ip) es))\<lparr>ce_mac := mac\<rparr>)
     \<and> (length mac = 6 \<longrightarrow> list_all entry_ok es \<longrightarrow> list_all entry_ok es')"
  by (induction es arbitrary: es') (auto simp: entry_ok_def split: if_splits)

lemma replace_entry_None: "replace_entry es ip mac = None \<longleftrightarrow> (\<forall>e \<in> set es. \<not> (ce_valid e \<and> ce_ip e = ip))"
  by (induction es) auto

lemma find_update_only:
  "i < length es \<Longrightarrow> \<forall>e \<in> set es. \<not> P e \<Longrightarrow> P x \<Longrightarrow> find P (es[i := x]) = Some x"
  by (induction es arbitrary: i) (auto simp: nth_Cons split: nat.splits)

lemma arp_insert_ok:
  assumes "cache_ok c" "length ip = 4" "length mac = 6"
  shows "\<exists>c'. arp_insert c ip mac = Some c' \<and> cache_ok c' \<and> arp_lookup c' ip = Some mac"
proof (cases "replace_entry (ac_entries c) ip mac")
  case None
  have i: "next_slot c < length (ac_entries c)" using assms(1) by (simp add: cache_ok_def)
  let ?e = "\<lparr>ce_ip = ip, ce_mac = mac, ce_valid = True\<rparr>"
  have "find (\<lambda>e. ce_valid e \<and> ce_ip e = ip) ((ac_entries c)[next_slot c := ?e]) = Some ?e"
    using None by (intro find_update_only [OF i]) (simp_all add: replace_entry_None)
  moreover have "list_all entry_ok ((ac_entries c)[next_slot c := ?e])"
    using assms by (auto simp: list_all_iff cache_ok_def entry_ok_def dest!: set_update_subset_insert [THEN subsetD])
  ultimately show ?thesis using None assms i
    by (simp add: arp_insert_def rust_simps arp_lookup_def cache_ok_def CACHE_SIZE_def)
next
  case (Some es)
  then show ?thesis using assms replace_entry_Some [OF Some]
    by (simp add: arp_insert_def arp_lookup_def cache_ok_def)
qed

lemma arp_lookup_length: "cache_ok c \<Longrightarrow> arp_lookup c ip = Some mac \<Longrightarrow> length mac = 6"
  by (auto simp: arp_lookup_def cache_ok_def entry_ok_def list_all_length find_Some_iff)

section \<open>Lemmas: DNS\<close>

lemma skip_name_loop_ok:
  "\<exists>r. skip_name_loop msg off hops = Some r \<and> (\<forall>n. r = Inr n \<longrightarrow> off < n \<and> n \<le> length msg)"
proof (induction msg off hops rule: skip_name_loop.induct)
  case (1 msg off hops)
  show ?case
  proof (cases "off < length msg")
    case True
    let ?len = "msg ! off"
    show ?thesis
    proof (cases "?len = 0 \<or> ?len AND 0xC0 = 0xC0 \<or> ?len AND 0xC0 \<noteq> 0 \<or> hops + 1 > 128")
      case stop: True
      then show ?thesis using True by (subst skip_name_loop.simps) (auto simp: rust_simps)
    next
      case False
      then have "skip_name_loop msg off hops = skip_name_loop msg (off + (1 + unat ?len)) (hops + 1)"
        using True by (subst skip_name_loop.simps) (simp add: rust_simps)
      moreover have "\<exists>r. skip_name_loop msg (off + (1 + unat ?len)) (hops + 1) = Some r
          \<and> (\<forall>n. r = Inr n \<longrightarrow> off + (1 + unat ?len) < n \<and> n \<le> length msg)"
        using False True by (intro "1.IH") (auto simp: rust_simps)
      ultimately show ?thesis by fastforce
    qed
  qed (subst skip_name_loop.simps, simp)
qed

lemma skip_name_ok:
  obtains e where "skip_name msg off = Some (Inl e)"
  | n where "skip_name msg off = Some (Inr n)" "off < n" "n \<le> length msg"
  using skip_name_loop_ok [of msg off 0] unfolding skip_name_def by (metis sum.exhaust)

lemma skip_questions_ok: "\<exists>r. skip_questions k msg off = Some r"
proof (induction k arbitrary: off)
  case (Suc k)
  show ?case by (cases rule: skip_name_ok [of msg off]) (use Suc in auto)
qed simp

lemma walk_answers_ok: "\<exists>r. walk_answers k msg off = Some r \<and> (\<forall>a. r = Inr a \<longrightarrow> length a = 4)"
proof (induction k arbitrary: off)
  case (Suc k)
  show ?case
  proof (cases rule: skip_name_ok [of msg off])
    case (2 n)
    show ?thesis
    proof (cases "n + 10 > length msg")
      case False
      then show ?thesis using 2 Suc by (simp add: rust_simps Let_def)
    qed (use 2 in simp)
  qed simp
qed simp

lemma parse_first_a_ok: "\<exists>r. parse_first_a msg = Some r \<and> (\<forall>a. r = Inr a \<longrightarrow> length a = 4)"
proof (cases "length msg < 12")
  case False
  obtain r where "skip_questions (unat (u16_be (msg ! 4) (msg ! 5))) msg 12 = Some r" using skip_questions_ok by blast
  then show ?thesis using False walk_answers_ok
    by (cases r) (simp_all add: parse_first_a_def HEADER_LEN_def rust_simps)
qed (simp add: parse_first_a_def HEADER_LEN_def)

lemma encode_labels_ok:
  "\<exists>r. encode_labels out pos ls = Some r \<and> (\<forall>o' p'. r = Inr (o', p') \<longrightarrow> length o' = length out)"
proof (induction ls arbitrary: out pos)
  case (Cons l ls)
  define out' where "out' = take (pos + 1) (out[pos := of_nat (length l)]) @ l @ drop (pos + 1 + length l) (out[pos := of_nat (length l)])"
  consider "l = []" | "l \<noteq> []" "length l > 63" | "l \<noteq> []" "length l \<le> 63" "pos + 1 + length l > length out"
    | "l \<noteq> []" "length l \<le> 63" "pos + 1 + length l \<le> length out" by linarith
  then show ?case
  proof cases
    case 1
    then show ?thesis using Cons.IH [of out pos] by simp
  next
    case 4
    then have "length out' = length out" by (simp add: out'_def)
    moreover have "encode_labels out pos (l # ls) = encode_labels out' (pos + (1 + length l)) ls"
      using 4 by (simp add: rust_simps out'_def del: drop_update_cancel)
    ultimately show ?thesis using Cons.IH [of out' "pos + (1 + length l)"] by (simp only:)
  qed simp_all
qed simp

lemma encode_name_ok:
  "\<exists>r. encode_name out nm = Some r \<and> (\<forall>o' p'. r = Inr (o', p') \<longrightarrow> length o' = length out \<and> p' \<le> length out)"
proof -
  obtain r where "encode_labels out 0 (split_dots nm) = Some r" "\<forall>o' p'. r = Inr (o', p') \<longrightarrow> length o' = length out"
    using encode_labels_ok by blast
  then show ?thesis by (cases r) (auto simp: encode_name_def rust_simps)
qed

lemma build_query_a_ok:
  "\<exists>r. build_query_a out ident nm = Some r \<and> (\<forall>o' n. r = Inr (o', n) \<longrightarrow> length o' = length out \<and> n \<le> length out)"
proof (cases "length out < 12")
  case False
  let ?o = "be16 ident @ be16 0x0100 @ be16 1 @ be16 0 @ be16 0 @ be16 0 @ drop 12 out"
  obtain r where "encode_name (drop 12 out) nm = Some r"
    "\<forall>o' p'. r = Inr (o', p') \<longrightarrow> length o' = length (drop 12 out) \<and> p' \<le> length (drop 12 out)"
    using encode_name_ok by blast
  then show ?thesis using False
    by (cases r) (auto simp: build_query_a_def HEADER_LEN_def rust_simps net_simps Let_def)
qed (simp add: build_query_a_def HEADER_LEN_def)

end
