(* ===== verification/Tcp.thy ===== *)
theory Tcp imports NetCodec begin

text \<open>
  The TCP client of the kernel (\<open>kernel/src/net/tcp.rs\<close>): the segment codec, the connection state
  machine, the connection table and the retransmission timer. An operation returns the new state
  and the frames it hands to the network card, in order; the card itself and the serial log are not
  modelled. \<open>pit::ticks()\<close> is the argument \<open>now\<close>, read once per operation. The table lock makes
  every operation atomic, and \<open>tick\<close> is the case in which its \<open>try_lock\<close> succeeds.
\<close>

section \<open>Segments\<close>

definition TCP_HDR_LEN :: nat where "TCP_HDR_LEN = 20"
definition FIN :: byte where "FIN = 0x01"
definition SYN :: byte where "SYN = 0x02"
definition RST :: byte where "RST = 0x04"
definition PSH :: byte where "PSH = 0x08"
definition ACK :: byte where "ACK = 0x10"
definition DEFAULT_MSS :: u16 where "DEFAULT_MSS = 1460"
definition DEFAULT_WINDOW :: u16 where "DEFAULT_WINDOW = 8192"
definition RTO_INITIAL_TICKS :: nat where "RTO_INITIAL_TICKS = 200"
definition RTO_MAX_TICKS :: nat where "RTO_MAX_TICKS = 3200"
definition MAX_RETRANSMITS :: nat where "MAX_RETRANSMITS = 5"
definition MAX_CONNS :: nat where "MAX_CONNS = 8"
definition RECV_BUF_LIMIT :: nat where "RECV_BUF_LIMIT = 16 * 1024"

record TcpHeader =
  th_src_port :: u16
  th_dst_port :: u16
  th_seq :: u32
  th_ack :: u32
  data_offset :: byte
  th_flags :: byte
  th_window :: u16
  th_checksum :: u16
  th_urgent :: u16

definition tcp_parse :: "byte list \<Rightarrow> (TcpHeader \<times> byte list \<times> byte list) option option" where
  "tcp_parse data =
     (if length data < TCP_HDR_LEN then Some None
      else do {
        sp \<leftarrow> get_u16 data 0;
        dp \<leftarrow> get_u16 data 2;
        sq \<leftarrow> get_u32 data 4;
        ak \<leftarrow> get_u32 data 8;
        b12 \<leftarrow> aget data 12;
        let off = drop_bit 4 b12 AND 0x0F;
        fl \<leftarrow> aget data 13;
        wn \<leftarrow> get_u16 data 14;
        cs \<leftarrow> get_u16 data 16;
        ur \<leftarrow> get_u16 data 18;
        let header_bytes = unat off * 4;
        if header_bytes < TCP_HDR_LEN \<or> header_bytes > length data then Some None
        else do {
          options \<leftarrow> aslice data TCP_HDR_LEN header_bytes;
          payload \<leftarrow> aslice data header_bytes (length data);
          Some (Some (\<lparr>th_src_port = sp, th_dst_port = dp, th_seq = sq, th_ack = ak, data_offset = off, th_flags = fl,
            th_window = wn, th_checksum = cs, th_urgent = ur\<rparr>, options, payload)) } })"

function mss_loop :: "byte list \<Rightarrow> nat \<Rightarrow> u16 option" where
  "mss_loop options i =
     (if i < length options then do {
        kind \<leftarrow> aget options i;
        if kind = 0 then Some DEFAULT_MSS
        else if kind = 1 then mss_loop options (i + 1)
        else if i + 1 \<ge> length options then Some DEFAULT_MSS
        else do {
          l \<leftarrow> aget options (i + 1);
          let len = unat l;
          if len < 2 \<or> i + len > length options then Some DEFAULT_MSS
          else if kind = 2 \<and> len = 4 then get_u16 options (i + 2)
          else mss_loop options (i + len) } }
      else Some DEFAULT_MSS)"
  by pat_completeness auto
termination by (relation "measure (\<lambda>(options, i). length options - i)") auto

declare mss_loop.simps [simp del]

definition parse_mss :: "byte list \<Rightarrow> u16 option" where
  "parse_mss options = mss_loop options 0"

text \<open>The writes into \<open>hdr = &mut out[start..start + header_len]\<close>.\<close>

definition write_fields :: "u16 \<Rightarrow> u16 \<Rightarrow> u32 \<Rightarrow> u32 \<Rightarrow> nat \<Rightarrow> byte \<Rightarrow> u16 \<Rightarrow> u16 option \<Rightarrow> byte list \<Rightarrow> byte list option" where
  "write_fields src_port dst_port seq ack header_len flags window mss_option hdr = do {
     hdr \<leftarrow> copy_at hdr 0 2 (be16 src_port);
     hdr \<leftarrow> copy_at hdr 2 4 (be16 dst_port);
     hdr \<leftarrow> copy_at hdr 4 8 (be32 seq);
     hdr \<leftarrow> copy_at hdr 8 12 (be32 ack);
     hdr \<leftarrow> aset hdr 12 (push_bit 4 (of_nat header_len div 4));
     hdr \<leftarrow> aset hdr 13 flags;
     hdr \<leftarrow> copy_at hdr 14 16 (be16 window);
     hdr \<leftarrow> copy_at hdr 16 18 (be16 0);
     hdr \<leftarrow> copy_at hdr 18 20 (be16 0);
     case mss_option of None \<Rightarrow> Some hdr
     | Some mss \<Rightarrow> do {
         hdr \<leftarrow> aset hdr 20 2;
         hdr \<leftarrow> aset hdr 21 4;
         copy_at hdr 22 24 (be16 mss) } }"

definition write_segment :: "byte list \<Rightarrow> nat \<Rightarrow> ip_addr \<Rightarrow> ip_addr \<Rightarrow> u16 \<Rightarrow> u16 \<Rightarrow> u32 \<Rightarrow> u32 \<Rightarrow> byte \<Rightarrow> u16
    \<Rightarrow> u16 option \<Rightarrow> nat \<Rightarrow> (byte list \<times> nat) option" where
  "write_segment out start src_ip dst_ip src_port dst_port seq ack flags window mss_option payload_len =
     (let opt_len = (if mss_option \<noteq> None then 4 else 0);
          header_len = TCP_HDR_LEN + opt_len;
          tot = header_len + payload_len
      in if start + tot > length out then None
      else do {
        out \<leftarrow> with_slice out start (start + header_len)
          (write_fields src_port dst_port seq ack header_len flags window mss_option);
        pseudo \<leftarrow> pseudo_header src_ip dst_ip PROTO_TCP (of_nat tot);
        s \<leftarrow> add_ones_complement 0 pseudo;
        body \<leftarrow> aslice out start (start + tot);
        s \<leftarrow> add_ones_complement s body;
        let csum = NOT (of_nat (fold_sum s) :: u16);
        out \<leftarrow> copy_at out (start + 16) (start + 18) (be16 csum);
        Some (out, tot) })"

text \<open>A frame: Ethernet header, payload, segment, then the IPv4 header, in a buffer of the given
  size. The callers write this sequence out; \<open>send_control\<close> is the one with no payload.\<close>

definition tcp_frame :: "nat \<Rightarrow> ip_addr \<Rightarrow> mac_addr \<Rightarrow> mac_addr \<Rightarrow> ip_addr \<Rightarrow> u16 \<Rightarrow> u16 \<Rightarrow> u32 \<Rightarrow> u32 \<Rightarrow> byte \<Rightarrow> u16
    \<Rightarrow> u16 option \<Rightarrow> byte list \<Rightarrow> u16 \<Rightarrow> byte list option" where
  "tcp_frame buf_len our_ip our_mac peer_mac remote_ip remote_port local_port seq ack flags window mss_option data ip_id = do {
     buf \<leftarrow> write_header (replicate buf_len 0) peer_mac our_mac ETHERTYPE_IPV4;
     let tcp_off = ETH_HDR_LEN + IPV4_HDR_LEN;
     buf \<leftarrow> copy_at buf (tcp_off + TCP_HDR_LEN) (tcp_off + TCP_HDR_LEN + length data) data;
     (buf, tcp_len) \<leftarrow> write_segment buf tcp_off our_ip remote_ip local_port remote_port seq ack flags window mss_option (length data);
     buf \<leftarrow> with_slice buf ETH_HDR_LEN (ETH_HDR_LEN + IPV4_HDR_LEN)
       (\<lambda>h. ipv4_write h our_ip remote_ip PROTO_TCP tcp_len ip_id);
     aslice buf 0 (tcp_off + tcp_len) }"

section \<open>Connections\<close>

datatype State = Closed | SynSent | Established | FinWait1 | FinWait2 | CloseWait | LastAck | TimeWait

record PendingSegment =
  ps_seq :: u32
  ps_data :: "byte list"
  ps_flags :: byte
  seq_len :: u32
  last_tx_tick :: nat
  retries :: nat

record TcpConn =
  state :: State
  local_port :: u16
  remote_ip :: ip_addr
  remote_port :: u16
  peer_mac :: mac_addr
  snd_una :: u32
  snd_nxt :: u32
  snd_wnd :: u16
  iss :: u32
  rcv_nxt :: u32
  rcv_wnd :: u16
  irs :: u32
  mss :: u16
  pending :: "PendingSegment list"
  recv_buf :: "byte list"
  peer_fin_seen :: bool

definition conn_new :: "u16 \<Rightarrow> ip_addr \<Rightarrow> u16 \<Rightarrow> mac_addr \<Rightarrow> u32 \<Rightarrow> TcpConn" where
  "conn_new lport rip rport mac isn =
     \<lparr>state = Closed, local_port = lport, remote_ip = rip, remote_port = rport, peer_mac = mac,
      snd_una = isn, snd_nxt = isn, snd_wnd = DEFAULT_WINDOW, iss = isn,
      rcv_nxt = 0, rcv_wnd = DEFAULT_WINDOW, irs = 0, mss = DEFAULT_MSS,
      pending = [], recv_buf = [], peer_fin_seen = False\<rparr>"

definition conn_matches :: "TcpConn \<Rightarrow> u16 \<Rightarrow> ip_addr \<Rightarrow> u16 \<Rightarrow> bool" where
  "conn_matches c lport rip rport \<longleftrightarrow> local_port c = lport \<and> remote_ip c = rip \<and> remote_port c = rport"

text \<open>\<open>TcpConn::read\<close> with a buffer of \<open>n\<close> bytes: the bytes copied.\<close>

definition conn_read :: "TcpConn \<Rightarrow> nat \<Rightarrow> TcpConn \<times> byte list" where
  "conn_read c out_len =
     (if recv_buf c = [] then (c, [])
      else let n = min out_len (length (recv_buf c)) in (c\<lparr>recv_buf := drop n (recv_buf c)\<rparr>, take n (recv_buf c)))"

text \<open>Sequence numbers compare modulo \<open>2^32\<close>: the difference as \<open>i32\<close>.\<close>

definition seq_lt :: "u32 \<Rightarrow> u32 \<Rightarrow> bool" where
  "seq_lt a b \<longleftrightarrow> sint (a - b) < 0"

definition seq_le :: "u32 \<Rightarrow> u32 \<Rightarrow> bool" where
  "seq_le a b \<longleftrightarrow> sint (a - b) \<le> 0"

section \<open>The state machine\<close>

record AckParams =
  ap_seq :: u32
  ap_ack :: u32
  ap_win :: u16
  ap_flags :: byte
  ap_peer_mac :: mac_addr
  ap_remote_ip :: ip_addr
  ap_remote_port :: u16
  ap_local_port :: u16

datatype Notify = NotifyNone | NotifyEstablished ip_addr u16 | NotifyDataReady ip_addr u16 nat | NotifyClosed ip_addr u16

record SegmentResult =
  notify :: Notify
  res_ack :: "AckParams option"

definition has_flag :: "byte \<Rightarrow> byte \<Rightarrow> bool" where
  "has_flag flags f \<longleftrightarrow> flags AND f \<noteq> 0"

definition ack_for :: "TcpConn \<Rightarrow> byte \<Rightarrow> AckParams" where
  "ack_for c flags = \<lparr>ap_seq = snd_nxt c, ap_ack = rcv_nxt c, ap_win = rcv_wnd c, ap_flags = flags,
     ap_peer_mac = peer_mac c, ap_remote_ip = remote_ip c, ap_remote_port = remote_port c, ap_local_port = local_port c\<rparr>"

definition quiet :: SegmentResult where
  "quiet = \<lparr>notify = NotifyNone, res_ack = None\<rparr>"

definition syn_sent_segment :: "TcpConn \<Rightarrow> TcpHeader \<Rightarrow> byte list \<Rightarrow> (TcpConn \<times> SegmentResult) option" where
  "syn_sent_segment c hdr options =
     (if \<not> has_flag (th_flags hdr) SYN \<or> \<not> has_flag (th_flags hdr) ACK then Some (c, quiet)
      else if th_ack hdr \<noteq> iss c + 1 then
        Some (c, \<lparr>notify = NotifyNone, res_ack = Some \<lparr>ap_seq = th_ack hdr, ap_ack = 0, ap_win = 0, ap_flags = RST OR ACK,
          ap_peer_mac = peer_mac c, ap_remote_ip = remote_ip c, ap_remote_port = remote_port c, ap_local_port = local_port c\<rparr>\<rparr>)
      else do {
        m \<leftarrow> parse_mss options;
        let c = c\<lparr>irs := th_seq hdr, rcv_nxt := th_seq hdr + 1, snd_una := th_ack hdr, snd_wnd := th_window hdr,
          mss := max m 536, state := Established, pending := filter (\<lambda>p. \<not> has_flag (ps_flags p) SYN) (pending c)\<rparr>;
        Some (c, \<lparr>notify = NotifyEstablished (remote_ip c) (remote_port c), res_ack = Some (ack_for c ACK)\<rparr>) })"

text \<open>The three parts of a segment in a synchronised state: ACK field, payload, FIN.\<close>

definition ack_field :: "TcpConn \<Rightarrow> TcpHeader \<Rightarrow> TcpConn" where
  "ack_field c hdr =
     (if has_flag (th_flags hdr) ACK \<and> seq_lt (snd_una c) (th_ack hdr) \<and> seq_le (th_ack hdr) (snd_nxt c)
      then let c = c\<lparr>snd_una := th_ack hdr, snd_wnd := th_window hdr,
             pending := filter (\<lambda>p. seq_lt (th_ack hdr) (ps_seq p + seq_len p)) (pending c)\<rparr>
           in if state c = FinWait1 \<and> (\<forall>p \<in> set (pending c). \<not> has_flag (ps_flags p) FIN)
              then c\<lparr>state := FinWait2\<rparr> else c
      else c)"

definition payload_field :: "TcpConn \<Rightarrow> TcpHeader \<Rightarrow> byte list \<Rightarrow> TcpConn \<times> nat" where
  "payload_field c hdr data =
     (if data \<noteq> [] \<and> th_seq hdr = rcv_nxt c
      then let n = min (length data) (RECV_BUF_LIMIT - length (recv_buf c))
           in (c\<lparr>recv_buf := recv_buf c @ take n data, rcv_nxt := rcv_nxt c + of_nat n\<rparr>, n)
      else (c, 0))"

definition fin_state :: "State \<Rightarrow> State" where
  "fin_state s = (case s of Established \<Rightarrow> CloseWait | FinWait1 \<Rightarrow> TimeWait | FinWait2 \<Rightarrow> TimeWait | _ \<Rightarrow> s)"

definition fin_field :: "TcpConn \<Rightarrow> TcpHeader \<Rightarrow> byte list \<Rightarrow> TcpConn \<times> bool" where
  "fin_field c hdr data =
     (if has_flag (th_flags hdr) FIN \<and> th_seq hdr + of_nat (length data) = rcv_nxt c
      then (c\<lparr>rcv_nxt := rcv_nxt c + 1, peer_fin_seen := True, state := fin_state (state c)\<rparr>, True)
      else (c, False))"

definition synchronized_segment :: "TcpConn \<Rightarrow> TcpHeader \<Rightarrow> byte list \<Rightarrow> TcpConn \<times> SegmentResult" where
  "synchronized_segment c hdr data =
     (let (c, bytes_delivered) = payload_field (ack_field c hdr) hdr data;
          (c, peer_just_closed) = fin_field c hdr data;
          need_ack = (bytes_delivered > 0 \<or> peer_just_closed \<or> has_flag (th_flags hdr) SYN)
      in (c, \<lparr>notify =
           (if peer_just_closed \<and> bytes_delivered = 0 then NotifyClosed (remote_ip c) (remote_port c)
            else if bytes_delivered > 0 then NotifyDataReady (remote_ip c) (remote_port c) bytes_delivered
            else NotifyNone),
         res_ack = (if need_ack then Some (ack_for c ACK) else None)\<rparr>))"

definition last_ack_segment :: "TcpConn \<Rightarrow> TcpHeader \<Rightarrow> TcpConn \<times> SegmentResult" where
  "last_ack_segment c hdr =
     (if has_flag (th_flags hdr) ACK \<and> th_ack hdr = snd_nxt c
      then (c\<lparr>state := Closed\<rparr>, \<lparr>notify = NotifyClosed (remote_ip c) (remote_port c), res_ack = None\<rparr>)
      else (c, quiet))"

definition process_segment :: "TcpConn \<Rightarrow> TcpHeader \<Rightarrow> byte list \<Rightarrow> byte list \<Rightarrow> (TcpConn \<times> SegmentResult) option" where
  "process_segment c hdr options data =
     (if has_flag (th_flags hdr) RST
      then Some (c\<lparr>state := Closed\<rparr>, \<lparr>notify = NotifyClosed (remote_ip c) (remote_port c), res_ack = None\<rparr>)
      else case state c of
        SynSent \<Rightarrow> syn_sent_segment c hdr options
      | LastAck \<Rightarrow> Some (last_ack_segment c hdr)
      | TimeWait \<Rightarrow> Some (c, quiet)
      | Closed \<Rightarrow> Some (c, quiet)
      | _ \<Rightarrow> Some (synchronized_segment c hdr data))"

section \<open>Sending, closing and the timer, on one connection\<close>

text \<open>The segmentation loop of \<open>send\<close>. It does not end when \<open>mss\<close> is 0; \<open>None\<close> is then the result.\<close>

partial_function (option) send_loop :: "ip_addr \<Rightarrow> mac_addr \<Rightarrow> nat \<Rightarrow> byte list \<Rightarrow> TcpConn \<Rightarrow> nat \<Rightarrow> (TcpConn \<times> byte list list) option" where
  [code]: "send_loop our_ip our_mac now data c offset =
     (if offset < length data then do {
        let chunk_len = min (length data - offset) (unat (mss c));
        chunk \<leftarrow> aslice data offset (offset + chunk_len);
        frame \<leftarrow> tcp_frame 1600 our_ip our_mac (peer_mac c) (remote_ip c) (remote_port c) (local_port c) (snd_nxt c) (rcv_nxt c)
          (PSH OR ACK) (rcv_wnd c) None chunk (ucast (snd_nxt c));
        let c' = c\<lparr>pending := pending c @ [\<lparr>ps_seq = snd_nxt c, ps_data = chunk, ps_flags = PSH OR ACK,
              seq_len = of_nat chunk_len, last_tx_tick = now, retries = 0\<rparr>],
            snd_nxt := snd_nxt c + of_nat chunk_len\<rparr>;
        (c'', frames) \<leftarrow> send_loop our_ip our_mac now data c' (offset + chunk_len);
        Some (c'', frame # frames) }
      else Some (c, []))"

definition close_conn :: "TcpConn \<Rightarrow> nat \<Rightarrow> TcpConn" where
  "close_conn c now = c\<lparr>pending := pending c @ [\<lparr>ps_seq = snd_nxt c, ps_data = [], ps_flags = FIN OR ACK,
       seq_len = 1, last_tx_tick = now, retries = 0\<rparr>],
     snd_nxt := snd_nxt c + 1, state := (if state c = Established then FinWait1 else LastAck)\<rparr>"

definition rto :: "nat \<Rightarrow> nat" where
  "rto r = min (RTO_INITIAL_TICKS * 2 ^ (min r 4)) RTO_MAX_TICKS"

text \<open>One pass over the pending segments; the flag says that one of them exhausted its retries.\<close>

primrec tick_pending :: "ip_addr \<Rightarrow> mac_addr \<Rightarrow> nat \<Rightarrow> TcpConn \<Rightarrow> PendingSegment list
    \<Rightarrow> (bool \<times> PendingSegment list \<times> byte list list) option" where
  "tick_pending our_ip our_mac now c [] = Some (False, [], [])"
| "tick_pending our_ip our_mac now c (seg # segs) =
     (if now - last_tx_tick seg < rto (retries seg) then do {
        (g, ss, fs) \<leftarrow> tick_pending our_ip our_mac now c segs;
        Some (g, seg # ss, fs) }
      else if retries seg \<ge> MAX_RETRANSMITS then do {
        (g, ss, fs) \<leftarrow> tick_pending our_ip our_mac now c segs;
        Some (True, seg # ss, fs) }
      else do {
        let mss_opt = (if has_flag (ps_flags seg) SYN then Some DEFAULT_MSS else None);
        frame \<leftarrow> tcp_frame 1600 our_ip our_mac (peer_mac c) (remote_ip c) (remote_port c) (local_port c) (ps_seq seg) (rcv_nxt c)
          (ps_flags seg OR ACK) (rcv_wnd c) mss_opt (ps_data seg) (ucast (ps_seq seg));
        (g, ss, fs) \<leftarrow> tick_pending our_ip our_mac now c segs;
        Some (g, seg\<lparr>last_tx_tick := now, retries := retries seg + 1\<rparr> # ss, frame # fs) })"

definition tick_conn :: "ip_addr \<Rightarrow> mac_addr \<Rightarrow> nat \<Rightarrow> TcpConn \<Rightarrow> (TcpConn \<times> byte list list) option" where
  "tick_conn our_ip our_mac now c = do {
     (g, segs, frames) \<leftarrow> tick_pending our_ip our_mac now c (pending c);
     Some (c\<lparr>pending := segs, state := (if g then Closed else state c)\<rparr>, frames) }"

section \<open>The connection table\<close>

record Table =
  conns :: "TcpConn option list"
  our_ip :: ip_addr
  our_mac :: mac_addr
  next_ephemeral :: u16
  isn_counter :: u32

definition table_new :: Table where
  "table_new = \<lparr>conns = replicate MAX_CONNS None, our_ip = replicate 4 0, our_mac = replicate 6 0,
     next_ephemeral = 49152, isn_counter = 0\<rparr>"

definition tcp_init :: "Table \<Rightarrow> ip_addr \<Rightarrow> mac_addr \<Rightarrow> Table" where
  "tcp_init t ip mac = t\<lparr>our_ip := ip, our_mac := mac\<rparr>"

fun index_where :: "('a \<Rightarrow> bool) \<Rightarrow> 'a list \<Rightarrow> nat option" where
  "index_where P [] = None"
| "index_where P (x # xs) = (if P x then Some 0 else map_option Suc (index_where P xs))"

definition table_alloc :: "Table \<Rightarrow> nat option" where
  "table_alloc t = index_where (\<lambda>c. c = None) (conns t)"

definition find_mut :: "Table \<Rightarrow> u16 \<Rightarrow> ip_addr \<Rightarrow> u16 \<Rightarrow> nat option" where
  "find_mut t lport rip rport =
     index_where (\<lambda>c. case c of None \<Rightarrow> False | Some x \<Rightarrow> conn_matches x lport rip rport) (conns t)"

definition port_in_use :: "Table \<Rightarrow> u16 \<Rightarrow> bool" where
  "port_in_use t p \<longleftrightarrow> (\<exists>c \<in> set (conns t). case c of None \<Rightarrow> False | Some x \<Rightarrow> local_port x = p)"

definition next_port :: "u16 \<Rightarrow> u16" where
  "next_port p = (if p \<ge> 65000 then 49152 else p + 1)"

primrec alloc_port_loop :: "nat \<Rightarrow> Table \<Rightarrow> Table \<times> u16" where
  "alloc_port_loop 0 t = (t, 49152)"
| "alloc_port_loop (Suc n) t =
     (let p = next_ephemeral t; t = t\<lparr>next_ephemeral := next_port p\<rparr>
      in if port_in_use t p then alloc_port_loop n t else (t, p))"

definition alloc_port :: "Table \<Rightarrow> Table \<times> u16" where
  "alloc_port t = alloc_port_loop 1024 t"

definition next_isn :: "Table \<Rightarrow> nat \<Rightarrow> Table \<times> u32" where
  "next_isn t now =
     (let k = isn_counter t + 0x9E3779B9 in (t\<lparr>isn_counter := k\<rparr>, of_nat now * 64 + k))"

datatype TcpError = NoSlot | NoRoute | NotConnected | TcpClosed | SendFailed

definition tcp_connect :: "Table \<Rightarrow> nat \<Rightarrow> ip_addr \<Rightarrow> u16 \<Rightarrow> mac_addr \<Rightarrow> (Table \<times> byte list list \<times> (TcpError + nat)) option" where
  "tcp_connect t now rip rport mac =
     (let (t, lport) = alloc_port t;
          (t, isn) = next_isn t now
      in case table_alloc t of
           None \<Rightarrow> Some (t, [], Inl NoSlot)
         | Some i \<Rightarrow> do {
             let c = (conn_new lport rip rport mac isn)\<lparr>state := SynSent, snd_nxt := isn + 1\<rparr>;
             frame \<leftarrow> tcp_frame (ETH_HDR_LEN + IPV4_HDR_LEN + TCP_HDR_LEN + 4) (our_ip t) (our_mac t) mac rip rport lport
               isn 0 SYN DEFAULT_WINDOW (Some DEFAULT_MSS) [] (of_nat i + 1);
             let c = c\<lparr>pending := pending c @ [\<lparr>ps_seq = isn, ps_data = [], ps_flags = SYN, seq_len = 1,
               last_tx_tick = now, retries = 0\<rparr>]\<rparr>;
             cs \<leftarrow> aset (conns t) i (Some c);
             Some (t\<lparr>conns := cs\<rparr>, [frame], Inr i) })"

definition conn_at :: "Table \<Rightarrow> nat \<Rightarrow> TcpConn option" where
  "conn_at t i = (if i < length (conns t) then conns t ! i else None)"

definition put_conn :: "Table \<Rightarrow> nat \<Rightarrow> TcpConn \<Rightarrow> Table" where
  "put_conn t i c = t\<lparr>conns := (conns t)[i := Some c]\<rparr>"

definition tcp_send :: "Table \<Rightarrow> nat \<Rightarrow> nat \<Rightarrow> byte list \<Rightarrow> (Table \<times> byte list list \<times> (TcpError + unit)) option" where
  "tcp_send t now i data =
     (if data = [] then Some (t, [], Inr ())
      else case conn_at t i of
        None \<Rightarrow> Some (t, [], Inl NotConnected)
      | Some c \<Rightarrow>
          if state c \<noteq> Established then Some (t, [], Inl NotConnected)
          else do {
            (c', frames) \<leftarrow> send_loop (our_ip t) (our_mac t) now data c 0;
            Some (put_conn t i c', frames, Inr ()) })"

definition send_control :: "Table \<Rightarrow> AckParams \<Rightarrow> byte list option" where
  "send_control t a = tcp_frame (ETH_HDR_LEN + IPV4_HDR_LEN + TCP_HDR_LEN) (our_ip t) (our_mac t) (ap_peer_mac a) (ap_remote_ip a)
     (ap_remote_port a) (ap_local_port a) (ap_seq a) (ap_ack a) (ap_flags a) (ap_win a) None [] (ucast (ap_seq a))"

definition tcp_close :: "Table \<Rightarrow> nat \<Rightarrow> nat \<Rightarrow> (Table \<times> byte list list \<times> (TcpError + unit)) option" where
  "tcp_close t now i =
     (case conn_at t i of
        None \<Rightarrow> Some (t, [], Inl NotConnected)
      | Some c \<Rightarrow>
          if state c \<noteq> Established \<and> state c \<noteq> CloseWait then Some (t, [], Inl TcpClosed)
          else do {
            frame \<leftarrow> send_control t (ack_for c (FIN OR ACK));
            Some (put_conn t i (close_conn c now), [frame], Inr ()) })"

definition tcp_read :: "Table \<Rightarrow> nat \<Rightarrow> nat \<Rightarrow> Table \<times> byte list" where
  "tcp_read t i out_len =
     (case conn_at t i of
        None \<Rightarrow> (t, [])
      | Some c \<Rightarrow> let (c', bs) = conn_read c out_len in (put_conn t i c', bs))"

definition tcp_state :: "Table \<Rightarrow> nat \<Rightarrow> State option" where
  "tcp_state t i = map_option state (conn_at t i)"

text \<open>\<open>handle_segment\<close> up to its notification, which the stack acts on: the connection concerned,
  with the acknowledgement sent.\<close>

definition handle_segment :: "Table \<Rightarrow> Ipv4Header \<Rightarrow> byte list \<Rightarrow> (Table \<times> byte list list \<times> (nat \<times> Notify) option) option" where
  "handle_segment t ip payload = do {
     r \<leftarrow> tcp_parse payload;
     case r of
       None \<Rightarrow> Some (t, [], None)
     | Some (hdr, options, data) \<Rightarrow>
         (case find_mut t (th_dst_port hdr) (ip_src ip) (th_src_port hdr) of
            None \<Rightarrow> Some (t, [], None)
          | Some i \<Rightarrow> do {
              slot \<leftarrow> aget (conns t) i;
              c \<leftarrow> slot;
              (c', res) \<leftarrow> process_segment c hdr options data;
              let t = put_conn t i c';
              frames \<leftarrow> (case res_ack res of None \<Rightarrow> Some [] | Some a \<Rightarrow> map_option (\<lambda>f. [f]) (send_control t a));
              Some (t, frames, Some (i, notify res)) }) }"

primrec tick_slots :: "ip_addr \<Rightarrow> mac_addr \<Rightarrow> nat \<Rightarrow> TcpConn option list \<Rightarrow> (TcpConn option list \<times> byte list list) option" where
  "tick_slots oip omac now [] = Some ([], [])"
| "tick_slots oip omac now (slot # slots) =
     (case slot of
        None \<Rightarrow> do { (ss, fs) \<leftarrow> tick_slots oip omac now slots; Some (None # ss, fs) }
      | Some c \<Rightarrow>
          if state c = Closed then do { (ss, fs) \<leftarrow> tick_slots oip omac now slots; Some (None # ss, fs) }
          else do {
            (c', f) \<leftarrow> tick_conn oip omac now c;
            (ss, fs) \<leftarrow> tick_slots oip omac now slots;
            Some (Some c' # ss, f @ fs) })"

definition tick :: "Table \<Rightarrow> nat \<Rightarrow> (Table \<times> byte list list) option" where
  "tick t now = do {
     (cs, frames) \<leftarrow> tick_slots (our_ip t) (our_mac t) now (conns t);
     Some (t\<lparr>conns := cs\<rparr>, frames) }"

record ConnInfo =
  ci_local_ip :: ip_addr
  ci_local_port :: u16
  ci_remote_ip :: ip_addr
  ci_remote_port :: u16
  ci_state :: State
  rx_queued :: nat

definition snapshot :: "Table \<Rightarrow> ConnInfo list" where
  "snapshot t = map (\<lambda>c. \<lparr>ci_local_ip = our_ip t, ci_local_port = local_port c, ci_remote_ip = remote_ip c,
     ci_remote_port = remote_port c, ci_state = state c, rx_queued = length (recv_buf c)\<rparr>) (List.map_filter id (conns t))"

fun as_str :: "State \<Rightarrow> string" where
  "as_str Closed = ''CLOSED''"
| "as_str SynSent = ''SYN_SENT''"
| "as_str Established = ''ESTABLISHED''"
| "as_str FinWait1 = ''FIN_WAIT1''"
| "as_str FinWait2 = ''FIN_WAIT2''"
| "as_str CloseWait = ''CLOSE_WAIT''"
| "as_str LastAck = ''LAST_ACK''"
| "as_str TimeWait = ''TIME_WAIT''"

section \<open>Lemmas: frames\<close>

text \<open>The bytes of a segment, with its checksum, and of the frame that carries it.\<close>

definition mss_bytes :: "u16 option \<Rightarrow> byte list" where
  "mss_bytes m = (case m of None \<Rightarrow> [] | Some v \<Rightarrow> [2, 4] @ be16 v)"

definition tcp_bytes :: "u16 \<Rightarrow> u16 \<Rightarrow> u32 \<Rightarrow> u32 \<Rightarrow> byte \<Rightarrow> u16 \<Rightarrow> u16 option \<Rightarrow> u16 \<Rightarrow> byte list \<Rightarrow> byte list" where
  "tcp_bytes sp dp seq ack flags window m c data =
     be16 sp @ be16 dp @ be32 seq @ be32 ack @ [if m = None then 0x50 else 0x60, flags] @ be16 window @ be16 c @ be16 0
       @ mss_bytes m @ data"

definition tcp_csum :: "ip_addr \<Rightarrow> ip_addr \<Rightarrow> u16 \<Rightarrow> u16 \<Rightarrow> u32 \<Rightarrow> u32 \<Rightarrow> byte \<Rightarrow> u16 \<Rightarrow> u16 option \<Rightarrow> byte list \<Rightarrow> u16" where
  "tcp_csum src dst sp dp seq ack flags window m data =
     transport_csum (pseudo_bytes src dst PROTO_TCP (of_nat (20 + length (mss_bytes m) + length data)))
       (tcp_bytes sp dp seq ack flags window m 0 data)"

lemma tcp_bytes_length [net_simps]:
  "length (tcp_bytes sp dp seq ack flags window m c data) = 20 + length (mss_bytes m) + length data"
  by (simp add: tcp_bytes_def net_simps)

lemma mss_bytes_length [simp]: "length (mss_bytes m) = (if m = None then 0 else 4)"
  by (auto simp: mss_bytes_def net_simps split: option.splits)

lemma with_slice_in [rust_simps]:
  assumes "a \<le> b" "b \<le> length out" "f (take (b - a) (drop a out)) = Some s" "length s = b - a"
  shows "with_slice out a b f = Some (take a out @ s @ drop b out)"
  using assms by (simp add: with_slice_def rust_simps)

text \<open>The header, without payload and with a zero checksum.\<close>

definition tcp_hdr0 :: "u16 \<Rightarrow> u16 \<Rightarrow> u32 \<Rightarrow> u32 \<Rightarrow> byte \<Rightarrow> u16 \<Rightarrow> u16 option \<Rightarrow> byte list" where
  "tcp_hdr0 sp dp seq ack flags window m = tcp_bytes sp dp seq ack flags window m 0 []"

lemma write_fields_eq:
  assumes "length hdr = 20 + length (mss_bytes m)"
  shows "write_fields sp dp seq ack (20 + length (mss_bytes m)) flags window m hdr = Some (tcp_hdr0 sp dp seq ack flags window m)"
proof (cases m)
  case None
  then have "length hdr = 20" using assms by simp
  then show ?thesis unfolding None
    by (simp add: write_fields_def write_steps net_simps del: append_assoc aset_at)
      (simp add: tcp_hdr0_def tcp_bytes_def mss_bytes_def)
next
  case (Some v)
  then have "length hdr = 24" using assms by simp
  then show ?thesis unfolding Some
    by (simp add: write_fields_def write_steps net_simps del: append_assoc aset_at)
      (simp add: tcp_hdr0_def tcp_bytes_def mss_bytes_def)
qed

lemma write_header_part:
  assumes "start + 20 + length (mss_bytes m) + n \<le> length out"
    and data: "data = take n (drop (start + 20 + length (mss_bytes m)) out)"
  shows "with_slice out start (start + (20 + length (mss_bytes m)))
      (write_fields sp dp seq ack (20 + length (mss_bytes m)) flags window m)
    = Some (take start out @ tcp_bytes sp dp seq ack flags window m 0 data @ drop (start + 20 + length (mss_bytes m) + n) out)"
proof -
  define k where "k = 20 + length (mss_bytes m)"
  define h where "h = tcp_hdr0 sp dp seq ack flags window m"
  have h: "length h = k" "h @ data = tcp_bytes sp dp seq ack flags window m 0 data"
    by (simp_all add: h_def tcp_hdr0_def k_def net_simps) (simp add: tcp_bytes_def)
  have le: "start + k + n \<le> length out" and d: "data = take n (drop (start + k) out)"
    using assms by (simp_all add: k_def add.assoc)
  have rest: "drop (start + k) out = data @ drop (start + k + n) out"
    unfolding d by (metis append_take_drop_id drop_drop add.commute)
  have "write_fields sp dp seq ack k flags window m (take k (drop start out)) = Some h"
    unfolding k_def h_def using le by (intro write_fields_eq) (simp add: k_def)
  then have "with_slice out start (start + k) (write_fields sp dp seq ack k flags window m)
      = Some (take start out @ h @ drop (start + k) out)"
    using le h(1) by (intro with_slice_in) simp_all
  also have "\<dots> = Some (take start out @ (h @ data) @ drop (start + k + n) out)" by (simp only: rest append_assoc)
  finally show ?thesis by (simp only: h(2) k_def add.assoc)
qed

lemma write_segment_eq:
  assumes "length src = 4" "length dst = 4" "start + 20 + length (mss_bytes m) + n \<le> length out" "n < 50000"
    and data: "data = take n (drop (start + 20 + length (mss_bytes m)) out)"
  shows "write_segment out start src dst sp dp seq ack flags window m n =
    Some (take start out @ tcp_bytes sp dp seq ack flags window m (tcp_csum src dst sp dp seq ack flags window m data) data
      @ drop (start + 20 + length (mss_bytes m) + n) out, 20 + length (mss_bytes m) + n)"
proof -
  define k where "k = 20 + length (mss_bytes m)"
  define P where "P = pseudo_bytes src dst PROTO_TCP (of_nat (k + n))"
  define B where "B = tcp_bytes sp dp seq ack flags window m 0 data"
  define C where "C = tcp_csum src dst sp dp seq ack flags window m data"
  define R where "R = drop (start + k + n) out"
  have n: "length data = n"
    using assms(3) length_take [of n "drop (start + 20 + length (mss_bytes m)) out"]
    by (simp only: data [symmetric] length_drop)
  have k: "TCP_HDR_LEN + (if m \<noteq> None then 4 else 0) = k" "k \<le> 24" by (simp_all add: k_def TCP_HDR_LEN_def)
  have len: "length P < 100" "length B = k + n" using assms n
    by (simp_all add: P_def B_def pseudo_bytes_def net_simps k_def)
  have sums: "add_ones_complement 0 P = Some (word_sum P)" "add_ones_complement (word_sum P) B = Some (word_sum P + word_sum B)"
    using transport_sum_eq [of P B] len assms(4) k by simp_all
  have C: "NOT (of_nat (fold_sum (word_sum P + word_sum B)) :: u16) = C"
    by (simp only: C_def tcp_csum_def transport_csum_def P_def B_def n k_def)
  have w: "with_slice out start (start + k) (write_fields sp dp seq ack k flags window m) = Some (take start out @ B @ R)"
    unfolding k_def B_def R_def using write_header_part [OF assms(3) data] by (simp only: add.assoc)
  have st: "length (take start out) = start" using assms by auto
  have fin: "copy_at (take start out @ B @ R) (start + 16) (start + 18) (be16 C)
      = Some (take start out @ tcp_bytes sp dp seq ack flags window m C data @ R)"
    using st len assms by (simp add: rust_simps net_simps B_def tcp_bytes_def)
  have sl: "aslice (take start out @ B @ R) start (start + (k + n)) = Some B"
    using st len by (simp add: rust_simps)
  have ps: "pseudo_header src dst PROTO_TCP (of_nat (k + n)) = Some P"
    using assms by (simp add: rust_simps P_def)
  have g: "\<not> start + (k + n) > length out" using assms by (simp add: k_def)
  have "write_segment out start src dst sp dp seq ack flags window m n =
      Some (take start out @ tcp_bytes sp dp seq ack flags window m C data @ R, k + n)"
    unfolding write_segment_def Let_def k using g by (simp only: w ps sums sl C fin if_False bind.simps)
  then show ?thesis by (simp only: C_def R_def k_def add.assoc)
qed

definition tcp_frame_bytes :: "ip_addr \<Rightarrow> mac_addr \<Rightarrow> mac_addr \<Rightarrow> ip_addr \<Rightarrow> u16 \<Rightarrow> u16 \<Rightarrow> u32 \<Rightarrow> u32 \<Rightarrow> byte \<Rightarrow> u16
    \<Rightarrow> u16 option \<Rightarrow> byte list \<Rightarrow> u16 \<Rightarrow> byte list" where
  "tcp_frame_bytes ip mac pmac rip rport lport seq ack flags window m data ip_id =
     (let n = 20 + length (mss_bytes m) + length data in
      pmac @ mac @ be16 ETHERTYPE_IPV4 @ ipv4_bytes ip rip PROTO_TCP n ip_id (ipv4_csum ip rip PROTO_TCP n ip_id)
        @ tcp_bytes lport rport seq ack flags window m (tcp_csum ip rip lport rport seq ack flags window m data) data)"

lemma tcp_frame_eq:
  assumes "length ip = 4" "length rip = 4" "length mac = 6" "length pmac = 6"
    and "m \<noteq> None \<Longrightarrow> data = []" "54 + length (mss_bytes m) + length data \<le> L" "length data < 50000"
  shows "tcp_frame L ip mac pmac rip rport lport seq ack flags window m data ip_id =
    Some (tcp_frame_bytes ip mac pmac rip rport lport seq ack flags window m data ip_id)"
proof -
  define H where "H = pmac @ mac @ be16 ETHERTYPE_IPV4"
  define k where "k = length (mss_bytes m)"
  define S where "S = tcp_bytes lport rport seq ack flags window m (tcp_csum ip rip lport rport seq ack flags window m data) data"
  define I where "I = ipv4_bytes ip rip PROTO_TCP (20 + k + length data) ip_id (ipv4_csum ip rip PROTO_TCP (20 + k + length data) ip_id)"
  define Z where "Z = replicate (L - (54 + k + length data)) (0 :: byte)"
  define B where "B = H @ replicate 40 0 @ data @ replicate (L - (54 + length data)) 0"
  have k: "k = 0 \<or> (k = 4 \<and> data = [])" using assms(5) by (auto simp: k_def)
  have len: "length H = 14" "length I = 20" "length S = 20 + k + length data" "length B = L" "54 + k + length data \<le> L"
    using assms by (simp_all add: H_def I_def S_def B_def k_def net_simps)
  have 1: "write_header (replicate L 0) pmac mac ETHERTYPE_IPV4 = Some (H @ replicate (L - 14) 0)"
    using assms len(5) by (simp add: rust_simps H_def)
  have "replicate (L - 14) (0::byte) = replicate 40 0 @ replicate (L - 54) 0"
    using len(5) by (simp add: replicate_add [symmetric])
  then have 2: "copy_at (H @ replicate (L - 14) 0) 54 (54 + length data) data = Some B"
    using len by (simp add: rust_simps B_def)
  have d: "take (length data) (drop (34 + 20 + k) B) = data" "take 34 B = H @ replicate 20 0" "drop (34 + 20 + k + length data) B = Z"
    using k len by (auto simp: B_def Z_def)
  have 3: "write_segment B 34 ip rip lport rport seq ack flags window m (length data)
      = Some ((H @ replicate 20 0) @ S @ Z, 20 + k + length data)"
    using write_segment_eq [of ip rip 34 m "length data" B data lport rport seq ack flags window] assms len d
    by (simp only: k_def S_def)
  have 4: "with_slice ((H @ replicate 20 0) @ S @ Z) 14 34 (\<lambda>h. ipv4_write h ip rip PROTO_TCP (20 + k + length data) ip_id)
      = Some (H @ I @ S @ Z)"
    using with_slice_in [of 14 34 "(H @ replicate 20 0) @ S @ Z" "\<lambda>h. ipv4_write h ip rip PROTO_TCP (20 + k + length data) ip_id" I]
      len assms by (simp add: rust_simps I_def)
  have 5: "aslice (H @ I @ S @ Z) 0 (34 + (20 + k + length data)) = Some (H @ I @ S)"
    using len by (simp add: rust_simps)
  have "tcp_frame L ip mac pmac rip rport lport seq ack flags window m data ip_id = Some (H @ I @ S)"
    unfolding tcp_frame_def Let_def ETH_HDR_LEN_def IPV4_HDR_LEN_def TCP_HDR_LEN_def
    using 2 3 4 5 by (simp add: 1)
  then show ?thesis by (simp add: tcp_frame_bytes_def Let_def H_def I_def S_def k_def)
qed

lemma tcp_frame_total:
  assumes "length ip = 4" "length rip = 4" "length mac = 6" "length pmac = 6"
    and "m \<noteq> None \<Longrightarrow> data = []" "54 + length (mss_bytes m) + length data \<le> L" "length data < 50000"
  shows "\<exists>f. tcp_frame L ip mac pmac rip rport lport seq ack flags window m data ip_id = Some f"
  using tcp_frame_eq [OF assms] by blast

lemma tcp_frame_panics:
  assumes "length mac = 6" "length pmac = 6" "14 \<le> L" "L < 54 + length data"
  shows "tcp_frame L ip mac pmac rip rport lport seq ack flags window m data ip_id = None"
proof -
  have "length (pmac @ mac @ be16 ETHERTYPE_IPV4 @ replicate (L - 14) 0) = L" using assms by (simp add: net_simps)
  then have "copy_at (pmac @ mac @ be16 ETHERTYPE_IPV4 @ replicate (L - 14) 0) 54 (54 + length data) data = None"
    using assms(4) by (simp only: copy_at_def) simp
  then show ?thesis
    unfolding tcp_frame_def Let_def ETH_HDR_LEN_def IPV4_HDR_LEN_def TCP_HDR_LEN_def using assms by (simp add: rust_simps)
qed

text \<open>What the peer reads from a segment, and that its checksum verifies.\<close>

lemma tcp_parse_cases:
  "tcp_parse d = Some None \<or> (\<exists>h options data. tcp_parse d = Some (Some (h, options, data)) \<and> length data \<le> length d
     \<and> th_src_port h = u16_be (d ! 0) (d ! 1) \<and> th_dst_port h = u16_be (d ! 2) (d ! 3) \<and> 20 \<le> length d)"
proof (cases "length d < 20")
  case True
  then show ?thesis by (simp add: tcp_parse_def TCP_HDR_LEN_def)
next
  case False
  then have "d \<noteq> []" by auto
  then show ?thesis using False by (simp add: tcp_parse_def TCP_HDR_LEN_def rust_simps Let_def)
qed

lemma tcp_roundtrip:
  assumes "th = tcp_bytes sp dp seq ack flags window m c data"
  shows "\<exists>h. tcp_parse th = Some (Some (h, mss_bytes m, data)) \<and> th_src_port h = sp \<and> th_dst_port h = dp
    \<and> th_seq h = seq \<and> th_ack h = ack \<and> th_flags h = flags \<and> th_window h = window \<and> th_checksum h = c"
proof -
  have five: "drop_bit 4 (0x50 :: byte) AND 0x0F = 5" "drop_bit 4 (0x60 :: byte) AND 0x0F = 6" by simp_all
  have n: "u16_be (th ! 0) (th ! 1) = sp" "u16_be (th ! 2) (th ! 3) = dp" "u32_be (th ! 4) (th ! 5) (th ! 6) (th ! 7) = seq"
    "u32_be (th ! 8) (th ! 9) (th ! 10) (th ! 11) = ack" "th ! 12 = (if m = None then 0x50 else 0x60)" "th ! 13 = flags"
    "u16_be (th ! 14) (th ! 15) = window" "u16_be (th ! 16) (th ! 17) = c"
    using u16_be_be16 [of sp] u16_be_be16 [of dp] u32_be_be32 [of seq] u32_be_be32 [of ack] u16_be_be16 [of window] u16_be_be16 [of c]
    by (simp_all add: assms tcp_bytes_def be16_def be32_def)
  have l: "length th = 20 + length (mss_bytes m) + length data" "th \<noteq> []" using assms by (auto simp: net_simps tcp_bytes_def be16_def)
  have s: "drop 20 th = mss_bytes m @ data" by (simp add: assms tcp_bytes_def net_simps)
  have s24: "drop 24 th = drop 4 (drop 20 th)" by simp
  show ?thesis
  proof (cases m)
    case None
    then show ?thesis using n l s five by (simp add: tcp_parse_def TCP_HDR_LEN_def rust_simps Let_def mss_bytes_def)
  next
    case (Some v)
    then show ?thesis using n l s s24 five
      by (simp add: tcp_parse_def TCP_HDR_LEN_def rust_simps Let_def mss_bytes_def be16_def)
  qed
qed

section \<open>Lemmas: one connection never panics\<close>

lemma mss_loop_total: "\<exists>m. mss_loop options i = Some m"
proof (induction "length options - i" arbitrary: i rule: less_induct)
  case less
  have IH: "\<exists>m. mss_loop options j = Some m" if "i < length options" "i < j" for j
    using less that by (meson diff_less_mono2)
  show ?case
  proof (cases "i + 1 < length options")
    case True
    then show ?thesis using IH by (subst mss_loop.simps) (simp add: rust_simps Let_def)
  next
    case False
    then show ?thesis using IH by (subst mss_loop.simps) (simp add: rust_simps Let_def)
  qed
qed

definition seg_ok :: "PendingSegment \<Rightarrow> bool" where
  "seg_ok p \<longleftrightarrow> length (ps_data p) \<le> 1546 \<and> retries p \<le> MAX_RETRANSMITS \<and> (has_flag (ps_flags p) SYN \<longrightarrow> ps_data p = [])"

definition conn_ok :: "TcpConn \<Rightarrow> bool" where [inv_defs]:
  "conn_ok c \<longleftrightarrow> length (remote_ip c) = 4 \<and> length (peer_mac c) = 6 \<and> 536 \<le> unat (mss c)
     \<and> length (recv_buf c) \<le> RECV_BUF_LIMIT \<and> list_all seg_ok (pending c)"

definition same_peer :: "TcpConn \<Rightarrow> TcpConn \<Rightarrow> bool" where
  "same_peer c c' \<longleftrightarrow> local_port c' = local_port c \<and> remote_ip c' = remote_ip c \<and> remote_port c' = remote_port c
     \<and> peer_mac c' = peer_mac c"

lemma conn_new_ok:
  "length rip = 4 \<Longrightarrow> length mac = 6 \<Longrightarrow> conn_ok (conn_new lport rip rport mac isn)"
  by (simp add: conn_ok_def conn_new_def DEFAULT_MSS_def)

definition ack_ok :: "AckParams \<Rightarrow> bool" where
  "ack_ok a \<longleftrightarrow> length (ap_remote_ip a) = 4 \<and> length (ap_peer_mac a) = 6"

definition res_ok :: "SegmentResult \<Rightarrow> bool" where
  "res_ok r \<longleftrightarrow> (case res_ack r of None \<Rightarrow> True | Some a \<Rightarrow> ack_ok a)"

lemma ack_field_simps [simp]:
  "irs (ack_field c h) = irs c" "rcv_nxt (ack_field c h) = rcv_nxt c" "recv_buf (ack_field c h) = recv_buf c"
  "peer_fin_seen (ack_field c h) = peer_fin_seen c" "local_port (ack_field c h) = local_port c"
  "remote_ip (ack_field c h) = remote_ip c" "remote_port (ack_field c h) = remote_port c" "peer_mac (ack_field c h) = peer_mac c"
  "mss (ack_field c h) = mss c" "snd_nxt (ack_field c h) = snd_nxt c" "iss (ack_field c h) = iss c"
  by (simp_all add: ack_field_def Let_def)

lemma ack_field_pending:
  "pending (ack_field c h) = (if has_flag (th_flags h) ACK \<and> seq_lt (snd_una c) (th_ack h) \<and> seq_le (th_ack h) (snd_nxt c)
     then filter (\<lambda>p. seq_lt (th_ack h) (ps_seq p + seq_len p)) (pending c) else pending c)"
  "snd_una (ack_field c h) = (if has_flag (th_flags h) ACK \<and> seq_lt (snd_una c) (th_ack h) \<and> seq_le (th_ack h) (snd_nxt c)
     then th_ack h else snd_una c)"
  by (simp_all add: ack_field_def Let_def)

lemma list_all_filter: "list_all P xs \<Longrightarrow> list_all P (filter Q xs)"
  by (simp add: list_all_iff)

lemma same_peer_trans: "same_peer c d \<Longrightarrow> same_peer d e \<Longrightarrow> same_peer c e"
  by (simp add: same_peer_def)

lemma fields_ok:
  "conn_ok c \<Longrightarrow> conn_ok (ack_field c h) \<and> same_peer c (ack_field c h)"
  "conn_ok c \<Longrightarrow> conn_ok (fst (payload_field c h data)) \<and> same_peer c (fst (payload_field c h data))"
  "conn_ok c \<Longrightarrow> conn_ok (fst (fin_field c h data)) \<and> same_peer c (fst (fin_field c h data))"
  by (simp_all add: conn_ok_def same_peer_def ack_field_pending list_all_filter payload_field_def fin_field_def Let_def)
    (auto simp: min_def)

lemma synchronized_fst:
  "fst (synchronized_segment c h data) = fst (fin_field (fst (payload_field (ack_field c h) h data)) h data)"
  by (simp add: synchronized_segment_def case_prod_unfold Let_def)

lemma synchronized_ok:
  assumes "conn_ok c"
  shows "conn_ok (fst (synchronized_segment c h data)) \<and> same_peer c (fst (synchronized_segment c h data))
    \<and> res_ok (snd (synchronized_segment c h data))"
proof -
  let ?c = "fst (synchronized_segment c h data)"
  have "conn_ok ?c \<and> same_peer c ?c"
    unfolding synchronized_fst using assms fields_ok same_peer_trans by meson
  moreover have "res_ack (snd (synchronized_segment c h data)) \<in> {None, Some (ack_for ?c ACK)}"
    by (simp add: synchronized_segment_def case_prod_unfold Let_def)
  ultimately show ?thesis by (auto simp: res_ok_def ack_ok_def ack_for_def conn_ok_def)
qed

lemma process_segment_ok:
  assumes "conn_ok c"
  shows "\<exists>c' r. process_segment c h options data = Some (c', r) \<and> conn_ok c' \<and> same_peer c c' \<and> res_ok r"
proof -
  obtain m where m: "parse_mss options = Some m" using mss_loop_total by (auto simp: parse_mss_def)
  have "536 \<le> unat (max m 536)" by (simp add: max_def word_le_nat_alt)
  then have "\<exists>c' r. syn_sent_segment c h options = Some (c', r) \<and> conn_ok c' \<and> same_peer c c' \<and> res_ok r"
    using assms m by (simp add: syn_sent_segment_def conn_ok_def same_peer_def res_ok_def ack_ok_def ack_for_def quiet_def
        list_all_filter Let_def)
  moreover have "\<exists>c' r. last_ack_segment c h = (c', r) \<and> conn_ok c' \<and> same_peer c c' \<and> res_ok r"
    using assms by (simp add: last_ack_segment_def conn_ok_def same_peer_def res_ok_def quiet_def)
  moreover have "\<exists>c' r. synchronized_segment c h data = (c', r) \<and> conn_ok c' \<and> same_peer c c' \<and> res_ok r"
    using synchronized_ok [OF assms, of h data] by (metis prod.collapse)
  moreover have "conn_ok (c\<lparr>state := Closed\<rparr>)" "same_peer c (c\<lparr>state := Closed\<rparr>)" "same_peer c c"
    using assms by (simp_all add: conn_ok_def same_peer_def)
  ultimately show ?thesis using assms
    by (cases "has_flag (th_flags h) RST"; cases "state c") (simp_all add: process_segment_def res_ok_def quiet_def)
qed

text \<open>What \<open>send\<close> queues: the data cut into chunks of at most \<open>m\<close> bytes, numbered consecutively.\<close>

function chunks :: "nat \<Rightarrow> byte list \<Rightarrow> byte list list" where
  "chunks m d = (if m = 0 \<or> d = [] then [] else take m d # chunks m (drop m d))"
  by pat_completeness auto
termination by (relation "measure (\<lambda>(m, d). length d)") auto

declare chunks.simps [simp del]

primrec segs_from :: "nat \<Rightarrow> u32 \<Rightarrow> byte list list \<Rightarrow> PendingSegment list" where
  "segs_from now q [] = []"
| "segs_from now q (d # ds) = \<lparr>ps_seq = q, ps_data = d, ps_flags = PSH OR ACK, seq_len = of_nat (length d),
     last_tx_tick = now, retries = 0\<rparr> # segs_from now (q + of_nat (length d)) ds"

lemma concat_chunks: "0 < m \<Longrightarrow> concat (chunks m d) = d"
  by (induction m d rule: chunks.induct) (subst chunks.simps, simp)

lemma chunks_bound: "x \<in> set (chunks m d) \<Longrightarrow> x \<noteq> [] \<and> length x \<le> m \<and> length x \<le> length d"
proof (induction m d rule: chunks.induct)
  case (1 m d)
  then show ?case by (subst (asm) chunks.simps) (fastforce split: if_splits)
qed

lemma send_loop_ok:
  assumes "length ip = 4" "length mac = 6" "length (remote_ip c) = 4" "length (peer_mac c) = 6" "0 < unat (mss c)"
    and "offset \<le> length data" "unat (mss c) \<le> 1546 \<or> length data - offset \<le> 1546"
  shows "\<exists>frames. send_loop ip mac now data c offset = Some
    (c\<lparr>pending := pending c @ segs_from now (snd_nxt c) (chunks (unat (mss c)) (drop offset data)),
       snd_nxt := snd_nxt c + of_nat (length data - offset)\<rparr>, frames)"
  using assms
proof (induction "length data - offset" arbitrary: c offset rule: less_induct)
  case less
  show ?case
  proof (cases "offset < length data")
    case True
    define k where "k = min (length data - offset) (unat (mss c))"
    define ch where "ch = take k (drop offset data)"
    define c' where "c' = c\<lparr>pending := pending c @ [\<lparr>ps_seq = snd_nxt c, ps_data = ch, ps_flags = PSH OR ACK,
        seq_len = of_nat k, last_tx_tick = now, retries = 0\<rparr>], snd_nxt := snd_nxt c + of_nat k\<rparr>"
    have k: "0 < k" "k \<le> 1546" "offset + k \<le> length data" using less.prems True by (auto simp: k_def)
    then have ch: "length ch = k" by (simp add: ch_def)
    have "\<exists>f. tcp_frame 1600 ip mac (peer_mac c) (remote_ip c) (remote_port c) (local_port c) (snd_nxt c) (rcv_nxt c)
          (PSH OR ACK) (rcv_wnd c) None ch (ucast (snd_nxt c)) = Some f"
      using less.prems k ch by (intro tcp_frame_total) auto
    then obtain frame where fr: "tcp_frame 1600 ip mac (peer_mac c) (remote_ip c) (remote_port c) (local_port c) (snd_nxt c) (rcv_nxt c)
          (PSH OR ACK) (rcv_wnd c) None ch (ucast (snd_nxt c)) = Some frame" by blast
    have "\<exists>frames. send_loop ip mac now data c' (offset + k) = Some
        (c'\<lparr>pending := pending c' @ segs_from now (snd_nxt c') (chunks (unat (mss c')) (drop (offset + k) data)),
           snd_nxt := snd_nxt c' + of_nat (length data - (offset + k))\<rparr>, frames)"
      using less.prems k by (intro less.hyps) (auto simp: c'_def)
    then obtain frames where rec: "send_loop ip mac now data c' (offset + k) = Some
        (c'\<lparr>pending := pending c' @ segs_from now (snd_nxt c') (chunks (unat (mss c')) (drop (offset + k) data)),
           snd_nxt := snd_nxt c' + of_nat (length data - (offset + k))\<rparr>, frames)" by blast
    have "take (unat (mss c)) (drop offset data) = ch" "drop (unat (mss c)) (drop offset data) = drop (offset + k) data"
      by (auto simp: ch_def k_def min_def add.commute [of "unat (mss c)"])
    then have cs: "chunks (unat (mss c)) (drop offset data) = ch # chunks (unat (mss c)) (drop (offset + k) data)"
      using less.prems True by (subst chunks.simps) simp
    have sum: "of_nat k + of_nat (length data - (offset + k)) = (of_nat (length data - offset) :: u32)"
      using k(3) by (simp only: of_nat_add [symmetric]) (rule arg_cong [of _ _ of_nat], simp)
    have sl: "aslice data offset (offset + k) = Some ch" using k by (simp add: rust_simps ch_def)
    have "send_loop ip mac now data c offset = Some
        (c'\<lparr>pending := pending c' @ segs_from now (snd_nxt c') (chunks (unat (mss c')) (drop (offset + k) data)),
           snd_nxt := snd_nxt c' + of_nat (length data - (offset + k))\<rparr>, frame # frames)"
      using True by (subst send_loop.simps) (simp only: if_True Let_def k_def [symmetric] sl fr bind.simps c'_def [symmetric] rec prod.case)
    then show ?thesis by (simp add: c'_def cs ch add.assoc sum)
  next
    case False
    then show ?thesis by (subst send_loop.simps) (simp add: chunks.simps)
  qed
qed

lemma send_loop_jumbo:
  assumes "length mac = 6" "length (peer_mac c) = 6" "1546 < unat (mss c)" "1546 < length data"
  shows "send_loop ip mac now data c 0 = None"
proof -
  define k where "k = min (length data) (unat (mss c))"
  have k: "1546 < k" "k \<le> length data" using assms by (auto simp: k_def)
  have "tcp_frame 1600 ip mac (peer_mac c) (remote_ip c) (remote_port c) (local_port c) (snd_nxt c) (rcv_nxt c)
        (PSH OR ACK) (rcv_wnd c) None (take k data) (ucast (snd_nxt c)) = None"
    using assms k by (intro tcp_frame_panics) auto
  moreover have "data \<noteq> []" using assms(4) by auto
  ultimately show ?thesis using assms k
    by (subst send_loop.simps) (simp add: Let_def k_def [symmetric] rust_simps)
qed

lemma close_conn_ok: "conn_ok c \<Longrightarrow> conn_ok (close_conn c now)"
  by (simp add: close_conn_def conn_ok_def seg_ok_def)

lemma conn_read_ok: "conn_ok c \<Longrightarrow> conn_ok (fst (conn_read c n))"
  by (auto simp: conn_read_def Let_def conn_ok_def)

lemma segs_from_ok: "\<forall>x \<in> set ds. length x \<le> 1546 \<Longrightarrow> list_all seg_ok (segs_from now q ds)"
  by (induction ds arbitrary: q) (auto simp: seg_ok_def has_flag_def PSH_def ACK_def SYN_def)

text \<open>A timer pass keeps the queue up to retry counts and times.\<close>

definition same_seg :: "PendingSegment \<Rightarrow> PendingSegment \<Rightarrow> bool" where
  "same_seg p q \<longleftrightarrow> ps_seq q = ps_seq p \<and> ps_data q = ps_data p \<and> ps_flags q = ps_flags p \<and> seq_len q = seq_len p"

definition due :: "nat \<Rightarrow> PendingSegment \<Rightarrow> bool" where
  "due now p \<longleftrightarrow> rto (retries p) \<le> now - last_tx_tick p"

definition retry :: "nat \<Rightarrow> PendingSegment \<Rightarrow> PendingSegment" where
  "retry now p = (if due now p \<and> retries p < MAX_RETRANSMITS then p\<lparr>last_tx_tick := now, retries := retries p + 1\<rparr> else p)"

lemma retry_simps [simp]:
  "ps_seq (retry now p) = ps_seq p" "ps_data (retry now p) = ps_data p" "ps_flags (retry now p) = ps_flags p"
  "seq_len (retry now p) = seq_len p"
  by (simp_all add: retry_def)

lemma tick_pending_ok:
  assumes "length ip = 4" "length mac = 6" "length (remote_ip c) = 4" "length (peer_mac c) = 6" "list_all seg_ok segs"
  shows "\<exists>frames. tick_pending ip mac now c segs =
    Some (\<exists>p \<in> set segs. due now p \<and> MAX_RETRANSMITS \<le> retries p, map (retry now) segs, frames)"
  using assms(5)
proof (induction segs)
  case (Cons p ps)
  let ?m = "if has_flag (ps_flags p) SYN then Some DEFAULT_MSS else None"
  have "\<exists>f. tcp_frame 1600 ip mac (peer_mac c) (remote_ip c) (remote_port c) (local_port c) (ps_seq p) (rcv_nxt c)
        (ps_flags p OR ACK) (rcv_wnd c) ?m (ps_data p) (ucast (ps_seq p)) = Some f"
    using assms Cons.prems by (intro tcp_frame_total) (auto simp: seg_ok_def split: if_splits)
  then obtain f where f: "tcp_frame 1600 ip mac (peer_mac c) (remote_ip c) (remote_port c) (local_port c) (ps_seq p) (rcv_nxt c)
        (ps_flags p OR ACK) (rcv_wnd c) ?m (ps_data p) (ucast (ps_seq p)) = Some f" by blast
  obtain fs where fs: "tick_pending ip mac now c ps =
      Some (\<exists>q \<in> set ps. due now q \<and> MAX_RETRANSMITS \<le> retries q, map (retry now) ps, fs)" using Cons by auto
  consider "\<not> due now p" | "due now p" "MAX_RETRANSMITS \<le> retries p" | "due now p" "retries p < MAX_RETRANSMITS" by linarith
  then show ?case
    by cases (simp_all add: fs f due_def retry_def Let_def)
qed simp

lemma retry_ok: "seg_ok p \<Longrightarrow> seg_ok (retry now p)"
  by (simp add: seg_ok_def retry_def)

lemma tick_conn_eq:
  assumes "length ip = 4" "length mac = 6" "conn_ok c"
  shows "\<exists>frames. tick_conn ip mac now c = Some (c\<lparr>pending := map (retry now) (pending c),
      state := (if \<exists>p \<in> set (pending c). due now p \<and> MAX_RETRANSMITS \<le> retries p then Closed else state c)\<rparr>, frames)"
  using tick_pending_ok [of ip mac c "pending c" now] assms by (auto simp: tick_conn_def conn_ok_def)

lemma tick_conn_ok:
  assumes "length ip = 4" "length mac = 6" "conn_ok c"
  shows "\<exists>c' frames. tick_conn ip mac now c = Some (c', frames) \<and> conn_ok c' \<and> same_peer c c'"
  using tick_conn_eq [OF assms, of now] assms(3)
  by (auto simp: conn_ok_def same_peer_def list_all_iff retry_ok)

end
