(* ===== verification/TcpTable.thy ===== *)
theory TcpTable imports Tcp begin

text \<open>
  The TCP connection table: every operation of \<open>tcp.rs\<close> on the table returns, and keeps the
  connections well formed and their local ports distinct, so that an inbound segment belongs to at
  most one connection.
\<close>

section \<open>Lemmas: the table\<close>

definition conn_list :: "Table \<Rightarrow> TcpConn list" where
  "conn_list t = List.map_filter id (conns t)"

text \<open>The slots: well-formed connections with pairwise distinct local ports.\<close>

definition conns_ok :: "TcpConn option list \<Rightarrow> bool" where
  "conns_ok cs \<longleftrightarrow> (\<forall>i c. i < length cs \<longrightarrow> cs ! i = Some c \<longrightarrow> conn_ok c)
     \<and> (\<forall>i j c d. i < length cs \<longrightarrow> j < length cs \<longrightarrow> cs ! i = Some c \<longrightarrow> cs ! j = Some d
          \<longrightarrow> local_port c = local_port d \<longrightarrow> i = j)"

definition table_ok :: "Table \<Rightarrow> bool" where [inv_defs]:
  "table_ok t \<longleftrightarrow> length (conns t) = MAX_CONNS \<and> length (our_ip t) = 4 \<and> length (our_mac t) = 6 \<and> conns_ok (conns t)
     \<and> 49152 \<le> unat (next_ephemeral t) \<and> unat (next_ephemeral t) \<le> 65000"

lemma conns_okI:
  assumes "\<And>i c. i < length cs \<Longrightarrow> cs ! i = Some c \<Longrightarrow> conn_ok c"
    and "\<And>i j c d. i < length cs \<Longrightarrow> j < length cs \<Longrightarrow> cs ! i = Some c \<Longrightarrow> cs ! j = Some d \<Longrightarrow> local_port c = local_port d \<Longrightarrow> i = j"
  shows "conns_ok cs"
  using assms unfolding conns_ok_def by blast

lemma conns_okD:
  assumes "conns_ok cs" "i < length cs" "cs ! i = Some c"
  shows "conn_ok c" "j < length cs \<Longrightarrow> cs ! j = Some d \<Longrightarrow> local_port c = local_port d \<Longrightarrow> i = j"
  using assms unfolding conns_ok_def by blast+

lemma conns_ok_update:
  assumes "conns_ok cs" "conn_ok c'" "\<And>j d. j < length cs \<Longrightarrow> j \<noteq> i \<Longrightarrow> cs ! j = Some d \<Longrightarrow> local_port d \<noteq> local_port c'"
  shows "conns_ok (cs[i := Some c'])"
proof (rule conns_okI)
  fix k c assume "k < length (cs[i := Some c'])" "cs[i := Some c'] ! k = Some c"
  then show "conn_ok c" using assms(2) conns_okD(1) [OF assms(1)] by (cases "k = i") auto
next
  fix k l c d
  assume a: "k < length (cs[i := Some c'])" "l < length (cs[i := Some c'])" "cs[i := Some c'] ! k = Some c" "cs[i := Some c'] ! l = Some d"
    "local_port c = local_port d"
  show "k = l"
  proof (cases "k = i \<or> l = i")
    case True
    then show ?thesis using a assms(3) by (cases "k = i"; cases "l = i") (auto dest: sym)
  next
    case False
    then show ?thesis using a conns_okD(2) [OF assms(1), of k c l d] by simp
  qed
qed

lemma index_where_Some:
  "index_where P xs = Some i \<Longrightarrow> i < length xs \<and> P (xs ! i) \<and> (\<forall>j < i. \<not> P (xs ! j))"
proof (induction xs arbitrary: i)
  case (Cons x xs)
  then show ?case by (cases "P x") (auto simp: less_Suc_eq_0_disj)
qed simp

lemma index_where_None: "index_where P xs = None \<longleftrightarrow> (\<forall>x \<in> set xs. \<not> P x)"
  by (induction xs) auto

lemma conn_atD: "conn_at t i = Some c \<longleftrightarrow> i < length (conns t) \<and> conns t ! i = Some c"
  by (simp add: conn_at_def)

lemma put_conn_ok:
  assumes "table_ok t" "conn_at t i = Some c" "conn_ok c'" "local_port c' = local_port c"
  shows "table_ok (put_conn t i c')"
proof -
  have i: "i < length (conns t)" "conns t ! i = Some c" and ok: "conns_ok (conns t)"
    using assms(1,2) by (simp_all add: conn_atD table_ok_def)
  have "conns_ok ((conns t)[i := Some c'])"
    by (rule conns_ok_update [OF ok assms(3)]) (use assms(4) conns_okD(2) [OF ok i] in force)
  then show ?thesis using assms(1) by (simp add: table_ok_def put_conn_def)
qed

text \<open>A port comes from the ephemeral range and is free: the table has eight slots, so at most
  eight of the candidates are taken.\<close>

lemma next_port_range:
  assumes "49152 \<le> unat p" "unat p \<le> 65000"
  shows "49152 \<le> unat (next_port p) \<and> unat (next_port p) \<le> 65000
    \<and> unat (next_port p) = (if unat p = 65000 then 49152 else unat p + 1)"
proof (cases "unat p = 65000")
  case True
  then have "unat p = unat (65000 :: u16)" by simp
  then have "p = 65000" by (rule unsigned_word_eqI)
  then show ?thesis by (simp add: next_port_def)
next
  case False
  then have "\<not> p \<ge> 65000" using assms by (simp add: word_le_nat_alt)
  moreover have "unat (p + 1) = unat p + 1" using assms unat_add_lem [of p 1] by simp
  ultimately show ?thesis using assms False by (simp add: next_port_def)
qed

lemma candidate_port:
  assumes "49152 \<le> unat p" "unat p \<le> 65000"
  shows "unat ((next_port ^^ k) p) = 49152 + (unat p - 49152 + k) mod 15849"
proof (induction k)
  case 0
  then show ?case using assms by simp
next
  case (Suc k)
  let ?x = "(unat p - 49152 + k) mod 15849"
  have x: "?x < 15849" by simp
  have "unat (next_port ((next_port ^^ k) p)) = (if unat ((next_port ^^ k) p) = 65000 then 49152 else unat ((next_port ^^ k) p) + 1)"
    using next_port_range [of "(next_port ^^ k) p"] Suc x by simp
  also have "\<dots> = 49152 + (?x + 1) mod 15849" using Suc x by (cases "?x = 15848") auto
  also have "\<dots> = 49152 + (unat p - 49152 + Suc k) mod 15849" by (simp only: mod_add_left_eq add_Suc_right Suc_eq_plus1 add.assoc)
  finally show ?case by simp
qed

lemma alloc_port_loop_cases:
  "\<exists>k. fst (alloc_port_loop n t) = t\<lparr>next_ephemeral := (next_port ^^ k) (next_ephemeral t)\<rparr>
     \<and> ((\<exists>j < n. snd (alloc_port_loop n t) = (next_port ^^ j) (next_ephemeral t) \<and> \<not> port_in_use t (snd (alloc_port_loop n t)))
        \<or> (\<forall>j < n. port_in_use t ((next_port ^^ j) (next_ephemeral t))))"
proof (induction n arbitrary: t)
  case 0
  then show ?case by (intro exI [of _ 0]) simp
next
  case (Suc n)
  let ?t = "t\<lparr>next_ephemeral := next_port (next_ephemeral t)\<rparr>"
  have use: "port_in_use ?t p = port_in_use t p" for p by (simp add: port_in_use_def)
  show ?case
  proof (cases "port_in_use t (next_ephemeral t)")
    case False
    then show ?thesis by (intro exI [of _ 1]) (auto simp: Let_def use intro!: exI [of _ 0])
  next
    case True
    from Suc [of ?t] obtain k where k: "fst (alloc_port_loop n ?t) = ?t\<lparr>next_ephemeral := (next_port ^^ k) (next_port (next_ephemeral t))\<rparr>"
      and d: "(\<exists>j < n. snd (alloc_port_loop n ?t) = (next_port ^^ j) (next_port (next_ephemeral t)) \<and> \<not> port_in_use t (snd (alloc_port_loop n ?t)))
        \<or> (\<forall>j < n. port_in_use t ((next_port ^^ j) (next_port (next_ephemeral t))))"
      by (auto simp: use)
    have e: "alloc_port_loop (Suc n) t = alloc_port_loop n ?t" using True by (simp add: Let_def use)
    have sw: "(next_port ^^ j) (next_port p) = (next_port ^^ Suc j) p" for j p by (simp add: funpow_swap1)
    from d have "(\<exists>j < Suc n. snd (alloc_port_loop n ?t) = (next_port ^^ j) (next_ephemeral t) \<and> \<not> port_in_use t (snd (alloc_port_loop n ?t)))
        \<or> (\<forall>j < Suc n. port_in_use t ((next_port ^^ j) (next_ephemeral t)))"
    proof
      assume "\<exists>j < n. snd (alloc_port_loop n ?t) = (next_port ^^ j) (next_port (next_ephemeral t)) \<and> \<not> port_in_use t (snd (alloc_port_loop n ?t))"
      then show ?thesis unfolding sw by blast
    next
      assume "\<forall>j < n. port_in_use t ((next_port ^^ j) (next_port (next_ephemeral t)))"
      then have "port_in_use t ((next_port ^^ j) (next_ephemeral t))" if "j < Suc n" for j
        using that True unfolding sw by (cases j) auto
      then show ?thesis by blast
    qed
    then show ?thesis unfolding e k by (intro exI [of _ "Suc k"]) (simp add: funpow_swap1)
  qed
qed

lemma alloc_port_ok:
  assumes "table_ok t"
  shows "\<not> port_in_use t (snd (alloc_port t)) \<and> (\<exists>p. fst (alloc_port t) = t\<lparr>next_ephemeral := p\<rparr> \<and> 49152 \<le> unat p \<and> unat p \<le> 65000)"
proof -
  let ?c = "\<lambda>j. (next_port ^^ j) (next_ephemeral t)"
  have r: "49152 \<le> unat (next_ephemeral t)" "unat (next_ephemeral t) \<le> 65000" using assms by (simp_all add: table_ok_def)
  have inj: "inj_on ?c {..<1024}"
  proof (rule inj_onI)
    fix i j assume ij: "i \<in> {..<1024 :: nat}" "j \<in> {..<1024}" "?c i = ?c j"
    then have "(unat (next_ephemeral t) - 49152 + i) mod 15849 = (unat (next_ephemeral t) - 49152 + j) mod 15849"
      using candidate_port [OF r, of i] candidate_port [OF r, of j] by simp
    then have "15849 dvd int i - int j" by (simp add: mod_eq_iff_dvd_symdiff_nat)
    then have "int i - int j \<noteq> 0 \<Longrightarrow> 15849 \<le> \<bar>int i - int j\<bar>" using dvd_imp_le_int [of "int i - int j" 15849] by simp
    then show "i = j" using ij by (cases "i = j") auto
  qed
  have "\<not> (\<forall>j < 1024. port_in_use t (?c j))"
  proof
    assume a: "\<forall>j < 1024. port_in_use t (?c j)"
    let ?U = "(\<lambda>c. case c of None \<Rightarrow> 0 | Some x \<Rightarrow> local_port x) ` set (conns t)"
    have "?c ` {..<1024} \<subseteq> ?U" using a by (force simp: port_in_use_def image_iff split: option.splits)
    then have "card (?c ` {..<1024}) \<le> card ?U" by (intro card_mono) auto
    also have "\<dots> \<le> length (conns t)" using card_image_le [of "set (conns t)"] card_length [of "conns t"] le_trans by blast
    finally show False using card_image [OF inj] assms by (simp add: table_ok_def MAX_CONNS_def)
  qed
  then obtain k j where "fst (alloc_port t) = t\<lparr>next_ephemeral := ?c k\<rparr>" "\<not> port_in_use t (snd (alloc_port t))"
    using alloc_port_loop_cases [of 1024 t] by (auto simp: alloc_port_def)
  moreover have "49152 \<le> unat (?c k)" "unat (?c k) \<le> 65000" using candidate_port [OF r, of k] by (simp_all add: less_Suc_eq_le [symmetric])
  ultimately show ?thesis by blast
qed

text \<open>Every operation of the table returns and keeps the invariant; \<open>send\<close> needs chunks that fit its
  1600-byte buffer.\<close>

lemma table_okD:
  assumes "table_ok t"
  shows "length (our_ip t) = 4" "length (our_mac t) = 6" "length (conns t) = MAX_CONNS" "conns_ok (conns t)"
    "conn_at t i = Some c \<Longrightarrow> conn_ok c"
  using assms conns_okD(1) by (auto simp: table_ok_def conn_atD)

lemma send_control_total: "table_ok t \<Longrightarrow> ack_ok a \<Longrightarrow> \<exists>f. send_control t a = Some f"
  unfolding send_control_def ack_ok_def ETH_HDR_LEN_def IPV4_HDR_LEN_def TCP_HDR_LEN_def
  by (intro tcp_frame_total) (auto simp: table_okD)

lemma connect_ok:
  assumes "table_ok t" "length rip = 4" "length mac = 6"
  shows "\<exists>t' fs r. tcp_connect t now rip rport mac = Some (t', fs, r) \<and> table_ok t'"
proof -
  obtain t1 lport where a: "alloc_port t = (t1, lport)" by (cases "alloc_port t")
  obtain t2 isn where b: "next_isn t1 now = (t2, isn)" by (cases "next_isn t1 now")
  have t2: "table_ok t2" "\<not> port_in_use t2 lport" "our_ip t2 = our_ip t" "our_mac t2 = our_mac t" "conns t2 = conns t"
    using alloc_port_ok [OF assms(1)] assms(1) a b
    by (auto simp: next_isn_def Let_def table_ok_def port_in_use_def)
  show ?thesis
  proof (cases "table_alloc t2")
    case None
    then show ?thesis using a b t2 by (simp add: tcp_connect_def)
  next
    case (Some i)
    define c where "c = (conn_new lport rip rport mac isn)\<lparr>state := SynSent, snd_nxt := isn + 1, pending := [\<lparr>ps_seq = isn, ps_data = [],
      ps_flags = SYN, seq_len = 1, last_tx_tick = now, retries = 0\<rparr>]\<rparr>"
    have i: "i < length (conns t2)" "conns t2 ! i = None" 
      using index_where_Some [of "\<lambda>c. c = None" "conns t2" i] Some by (simp_all add: table_alloc_def)
    have c: "conn_ok c" "local_port c = lport"
      using conn_new_ok [OF assms(2,3), of lport rport isn] by (simp_all add: c_def conn_ok_def seg_ok_def conn_new_def)
    have "local_port d \<noteq> lport" if "j < length (conns t2)" "conns t2 ! j = Some d" for j d
    proof
      assume "local_port d = lport"
      moreover have "Some d \<in> set (conns t2)" using that nth_mem [of j "conns t2"] by simp
      ultimately have "port_in_use t2 lport" unfolding port_in_use_def by (intro bexI [of _ "Some d"]) simp_all
      then show False using t2(2) by simp
    qed
    then have "conns_ok ((conns t2)[i := Some c])"
      using c by (intro conns_ok_update [OF table_okD(4) [OF t2(1)]]) auto
    then have "table_ok (t2\<lparr>conns := (conns t2)[i := Some c]\<rparr>)" using t2(1) by (simp add: table_ok_def)
    moreover have "\<exists>f. tcp_frame (ETH_HDR_LEN + IPV4_HDR_LEN + TCP_HDR_LEN + 4) (our_ip t2) (our_mac t2) mac rip rport lport
        isn 0 SYN DEFAULT_WINDOW (Some DEFAULT_MSS) [] (of_nat i + 1) = Some f"
      using assms t2 unfolding ETH_HDR_LEN_def IPV4_HDR_LEN_def TCP_HDR_LEN_def by (intro tcp_frame_total) (auto simp: table_okD)
    ultimately show ?thesis using a b Some i
      by (auto simp: tcp_connect_def Let_def rust_simps c_def conn_new_def)
  qed
qed

lemma send_ok:
  assumes "table_ok t" "length data \<le> 1546 \<or> (\<forall>c. conn_at t i = Some c \<longrightarrow> unat (mss c) \<le> 1546)"
  shows "\<exists>t' fs r. tcp_send t now i data = Some (t', fs, r) \<and> table_ok t'"
proof (cases "conn_at t i")
  case None
  then show ?thesis using assms by (simp add: tcp_send_def)
next
  case (Some c)
  have c: "conn_ok c" using table_okD(5) [OF assms(1) Some] .
  then have "\<exists>frames. send_loop (our_ip t) (our_mac t) now data c 0 = Some
      (c\<lparr>pending := pending c @ segs_from now (snd_nxt c) (chunks (unat (mss c)) (drop 0 data)),
         snd_nxt := snd_nxt c + of_nat (length data - 0)\<rparr>, frames)"
    using assms Some by (intro send_loop_ok) (auto simp: conn_ok_def table_okD)
  moreover have "conn_ok (c\<lparr>pending := pending c @ segs_from now (snd_nxt c) (chunks (unat (mss c)) (drop 0 data)),
         snd_nxt := snd_nxt c + of_nat (length data - 0)\<rparr>)"
    using c assms(2) Some chunks_bound by (fastforce simp: conn_ok_def intro!: segs_from_ok)
  ultimately show ?thesis using assms Some
    by (auto simp: tcp_send_def intro!: put_conn_ok)
qed

lemma close_ok:
  assumes "table_ok t"
  shows "\<exists>t' fs r. tcp_close t now i = Some (t', fs, r) \<and> table_ok t'"
proof (cases "conn_at t i")
  case None
  then show ?thesis using assms by (simp add: tcp_close_def)
next
  case (Some c)
  have c: "conn_ok c" using table_okD(5) [OF assms Some] .
  then have "ack_ok (ack_for c (FIN OR ACK))" by (simp add: ack_ok_def ack_for_def conn_ok_def)
  then obtain f where "send_control t (ack_for c (FIN OR ACK)) = Some f" using send_control_total [OF assms] by blast
  then show ?thesis using assms Some c put_conn_ok [OF assms Some close_conn_ok [OF c]]
    by (simp add: tcp_close_def close_conn_def)
qed

lemma read_ok:
  assumes "table_ok t"
  shows "table_ok (fst (tcp_read t i n))"
proof (cases "conn_at t i")
  case None
  then show ?thesis using assms by (simp add: tcp_read_def)
next
  case (Some c)
  have "local_port (fst (conn_read c n)) = local_port c" by (simp add: conn_read_def Let_def)
  then have "table_ok (put_conn t i (fst (conn_read c n)))"
    using put_conn_ok [OF assms Some conn_read_ok] table_okD(5) [OF assms Some] by simp
  then show ?thesis using Some by (simp add: tcp_read_def case_prod_unfold Let_def)
qed

lemma handle_segment_ok:
  assumes "table_ok t" "length (ip_src ip) = 4"
  shows "\<exists>t' fs r. handle_segment t ip payload = Some (t', fs, r) \<and> table_ok t'"
proof -
  have "tcp_parse payload = Some None \<or> (\<exists>h opts data. tcp_parse payload = Some (Some (h, opts, data)))"
    using tcp_parse_cases [of payload] by blast
  then show ?thesis
  proof (elim disjE exE)
    assume "tcp_parse payload = Some None"
    then show ?thesis using assms by (simp add: handle_segment_def)
  next
    fix h opts data assume p: "tcp_parse payload = Some (Some (h, opts, data))"
    show ?thesis
    proof (cases "find_mut t (th_dst_port h) (ip_src ip) (th_src_port h)")
      case None
      then show ?thesis using assms p by (simp add: handle_segment_def)
    next
      case (Some i)
      then obtain c where i: "i < length (conns t)" "conns t ! i = Some c"
        using index_where_Some unfolding find_mut_def by (metis (no_types, lifting) option.case_eq_if option.collapse)
      then have at: "conn_at t i = Some c" by (simp add: conn_atD)
      obtain c' r where r: "process_segment c h opts data = Some (c', r)" "conn_ok c'" "same_peer c c'" "res_ok r"
        using process_segment_ok [OF table_okD(5) [OF assms(1) at]] by blast
      have t': "table_ok (put_conn t i c')" using put_conn_ok [OF assms(1) at r(2)] r(3) by (simp add: same_peer_def)
      have "\<exists>fs. (case res_ack r of None \<Rightarrow> Some [] | Some a \<Rightarrow> map_option (\<lambda>f. [f]) (send_control (put_conn t i c') a)) = Some fs"
        using send_control_total [OF t'] r(4) by (cases "res_ack r") (fastforce simp: res_ok_def)+
      then show ?thesis using p Some i r t' by (auto simp: handle_segment_def rust_simps)
    qed
  qed
qed

definition slot_ticked :: "ip_addr \<Rightarrow> mac_addr \<Rightarrow> nat \<Rightarrow> TcpConn option \<Rightarrow> TcpConn option \<Rightarrow> bool" where
  "slot_ticked ip mac now s s' \<longleftrightarrow> (case s of None \<Rightarrow> s' = None
     | Some c \<Rightarrow> if state c = Closed then s' = None
         else \<exists>c' f. tick_conn ip mac now c = Some (c', f) \<and> conn_ok c' \<and> same_peer c c' \<and> s' = Some c')"

lemma slot_ticked_simps:
  "slot_ticked ip mac now None s \<longleftrightarrow> s = None"
  "state c = Closed \<Longrightarrow> slot_ticked ip mac now (Some c) s \<longleftrightarrow> s = None"
  by (simp_all add: slot_ticked_def)

lemma tick_slots_ok:
  assumes "length ip = 4" "length mac = 6" "\<forall>c. Some c \<in> set slots \<longrightarrow> conn_ok c"
  shows "\<exists>ss fs. tick_slots ip mac now slots = Some (ss, fs) \<and> list_all2 (slot_ticked ip mac now) slots ss"
  using assms(3)
proof (induction slots)
  case (Cons s slots)
  then obtain ss fs where IH: "tick_slots ip mac now slots = Some (ss, fs)" "list_all2 (slot_ticked ip mac now) slots ss" by auto
  consider "s = None" | c where "s = Some c" "state c = Closed" | c where "s = Some c" "state c \<noteq> Closed" by (cases s) auto
  then show ?case
  proof cases
    case (3 c)
    then obtain c' f where c: "tick_conn ip mac now c = Some (c', f)" "conn_ok c'" "same_peer c c'"
      using tick_conn_ok [OF assms(1,2), of c now] Cons.prems by auto
    then have "slot_ticked ip mac now s (Some c')" using 3 by (simp add: slot_ticked_def)
    then show ?thesis using IH 3 c by simp
  qed (use IH in \<open>simp_all add: slot_ticked_simps\<close>)
qed simp

lemma tick_ok:
  assumes "table_ok t"
  shows "\<exists>cs fs. tick t now = Some (t\<lparr>conns := cs\<rparr>, fs) \<and> table_ok (t\<lparr>conns := cs\<rparr>)
    \<and> list_all2 (slot_ticked (our_ip t) (our_mac t) now) (conns t) cs"
proof -
  have "\<forall>c. Some c \<in> set (conns t) \<longrightarrow> conn_ok c"
    using conns_okD(1) [OF table_okD(4) [OF assms]] by (metis in_set_conv_nth)
  then obtain ss fs where ss: "tick_slots (our_ip t) (our_mac t) now (conns t) = Some (ss, fs)"
    "list_all2 (slot_ticked (our_ip t) (our_mac t) now) (conns t) ss"
    using tick_slots_ok [of "our_ip t" "our_mac t" "conns t" now] table_okD [OF assms] by blast
  have len: "length ss = length (conns t)" using ss(2) by (simp add: list_all2_lengthD)
  have old: "\<exists>c. conns t ! i = Some c \<and> conn_ok c' \<and> local_port c = local_port c'" if "i < length (conns t)" "ss ! i = Some c'" for i c'
    using list_all2_nthD [OF ss(2) that(1)] that(2)
    by (cases "conns t ! i") (auto simp: slot_ticked_def same_peer_def split: if_splits)
  have "conns_ok ss"
  proof (rule conns_okI)
    fix i j c d assume a: "i < length ss" "j < length ss" "ss ! i = Some c" "ss ! j = Some d" "local_port c = local_port d"
    then show "i = j" using old [of i c] old [of j d] conns_okD(2) [OF table_okD(4) [OF assms]] len by metis
  qed (use old len in auto)
  then have "table_ok (t\<lparr>conns := ss\<rparr>)" using assms len by (simp add: table_ok_def)
  then show ?thesis using ss by (intro exI [of _ ss] exI [of _ fs]) (simp add: tick_def)
qed

end
