(* ===== verification/TcpStream.thy ===== *)
theory TcpStream imports TcpTable begin

text \<open>
  What a TCP connection promises to its two ends, over any sequence of inbound segments, sends,
  closes, timer ticks and reads: bytes are delivered to the reader exactly once and in order, bytes
  the peer has not acknowledged stay queued for retransmission, and a peer that stays silent is given
  up. Sequence numbers wrap; the lemmas locate them relative to the initial sequence numbers.
\<close>

section \<open>Runs of one connection\<close>

datatype conn_op = Segment TcpHeader "byte list" "byte list" | SendOp nat "byte list" | CloseOp nat | TickOp nat | ReadOp nat

text \<open>One operation on a connection, with the bytes accepted from the writer and given to the reader
  so far. An operation that \<open>tcp.rs\<close> refuses leaves everything as it is.\<close>

fun conn_step :: "ip_addr \<Rightarrow> mac_addr \<Rightarrow> conn_op \<Rightarrow> TcpConn \<times> byte list \<times> byte list \<Rightarrow> (TcpConn \<times> byte list \<times> byte list) option" where
  "conn_step ip mac (Segment h options data) (c, sent, got) = do {
     (c', _) \<leftarrow> process_segment c h options data; Some (c', sent, got) }"
| "conn_step ip mac (SendOp now data) (c, sent, got) =
     (if data = [] \<or> state c \<noteq> Established then Some (c, sent, got)
      else do { (c', _) \<leftarrow> send_loop ip mac now data c 0; Some (c', sent @ data, got) })"
| "conn_step ip mac (CloseOp now) (c, sent, got) =
     (if state c \<noteq> Established \<and> state c \<noteq> CloseWait then Some (c, sent, got) else Some (close_conn c now, sent, got))"
| "conn_step ip mac (TickOp now) (c, sent, got) =
     (if state c = Closed then Some (c, sent, got)
      else do { (c', _) \<leftarrow> tick_conn ip mac now c; Some (c', sent, got) })"
| "conn_step ip mac (ReadOp n) (c, sent, got) = Some (fst (conn_read c n), sent, got @ snd (conn_read c n))"

primrec conn_run :: "ip_addr \<Rightarrow> mac_addr \<Rightarrow> conn_op list \<Rightarrow> TcpConn \<times> byte list \<times> byte list \<Rightarrow> (TcpConn \<times> byte list \<times> byte list) option" where
  "conn_run ip mac [] s = Some s"
| "conn_run ip mac (op # ops) s = Option.bind (conn_step ip mac op s) (conn_run ip mac ops)"

text \<open>The connection a completed handshake leaves behind.\<close>

definition established :: "TcpConn \<Rightarrow> bool" where
  "established c \<longleftrightarrow> conn_ok c \<and> state c = Established \<and> pending c = [] \<and> recv_buf c = [] \<and> \<not> peer_fin_seen c
     \<and> snd_una c = iss c + 1 \<and> snd_nxt c = iss c + 1 \<and> rcv_nxt c = irs c + 1"

section \<open>Sequence numbers\<close>

lemma sint_small: "- (2 ^ 31) \<le> k \<Longrightarrow> k < 2 ^ 31 \<Longrightarrow> sint (word_of_int k :: u32) = k"
  by (simp add: signed_of_int signed_take_bit_int_eq_self)

lemma seq_cmp:
  assumes "m < 2 ^ 31" "n < 2 ^ 31"
  shows "seq_lt (b + of_nat m) (b + of_nat n) \<longleftrightarrow> m < n" "seq_le (b + of_nat m) (b + of_nat n) \<longleftrightarrow> m \<le> n"
proof -
  have "(b + of_nat m) - (b + of_nat n) = (word_of_int (int m - int n) :: u32)"
    by (simp add: of_int_diff [symmetric])
  moreover have "sint (word_of_int (int m - int n) :: u32) = int m - int n"
    using assms by (intro sint_small) auto
  ultimately show "seq_lt (b + of_nat m) (b + of_nat n) \<longleftrightarrow> m < n" "seq_le (b + of_nat m) (b + of_nat n) \<longleftrightarrow> m \<le> n"
    by (simp_all add: seq_lt_def seq_le_def)
qed

lemma at_offset: "w = b + of_nat (unat (w - b))" for w b :: u32
  by simp

section \<open>The receive side\<close>

text \<open>The peer's byte stream starts at \<open>base + 1\<close>. A segment of the peer carries a piece of it, and a
  FIN stands at its end; segments may be lost, repeated, reordered and cut anew.\<close>

definition peer_segment :: "u32 \<Rightarrow> byte list \<Rightarrow> TcpHeader \<Rightarrow> byte list \<Rightarrow> bool" where
  "peer_segment base strm h data \<longleftrightarrow>
     (data \<noteq> [] \<longrightarrow> unat (th_seq h - (base + 1)) + length data \<le> length strm
        \<and> data = take (length data) (drop (unat (th_seq h - (base + 1))) strm))
     \<and> (has_flag (th_flags h) FIN \<longrightarrow> unat (th_seq h + of_nat (length data) - (base + 1)) = length strm)"

definition rcv_inv :: "byte list \<Rightarrow> TcpConn \<Rightarrow> byte list \<Rightarrow> bool" where
  "rcv_inv strm c got \<longleftrightarrow> (\<exists>n \<le> length strm. got @ recv_buf c = take n strm
     \<and> rcv_nxt c = irs c + 1 + of_nat (n + of_bool (peer_fin_seen c)) \<and> (peer_fin_seen c \<longrightarrow> n = length strm))"

lemma unat_u32_small: "n < 2 ^ 32 \<Longrightarrow> unat (of_nat n :: u32) = n"
  by (rule unat_of_nat_small) simp

lemma rcv_offset:
  assumes "rcv_nxt c = irs c + 1 + of_nat k" "k < 2 ^ 32"
  shows "unat (rcv_nxt c - (irs c + 1)) = k"
  using assms by (simp add: unat_u32_small del: of_nat_add)

lemma payload_rcv:
  assumes "rcv_inv strm c got" "peer_segment (irs c) strm h data" "length strm < 2 ^ 32 - 1"
  shows "rcv_inv strm (fst (payload_field c h data)) got \<and> irs (fst (payload_field c h data)) = irs c"
proof (cases "data \<noteq> [] \<and> th_seq h = rcv_nxt c")
  case True
  from assms(1) obtain n where n: "n \<le> length strm" "got @ recv_buf c = take n strm"
    "rcv_nxt c = irs c + 1 + of_nat (n + of_bool (peer_fin_seen c))" "peer_fin_seen c \<longrightarrow> n = length strm"
    unfolding rcv_inv_def by blast
  have off: "unat (th_seq h - (irs c + 1)) = n + of_bool (peer_fin_seen c)"
    using True rcv_offset [OF n(3)] n(1) assms(3) by (simp add: of_bool_def)
  have le: "n + of_bool (peer_fin_seen c) + length data \<le> length strm"
    and d: "data = take (length data) (drop (n + of_bool (peer_fin_seen c)) strm)"
    using assms(2) True off unfolding peer_segment_def by auto
  then have fin: "\<not> peer_fin_seen c" using n(4) by auto
  define m where "m = min (length data) (RECV_BUF_LIMIT - length (recv_buf c))"
  have d': "data = take (length data) (drop n strm)" using d fin by simp
  have "take m data = take m (drop n strm)" using arg_cong [OF d', of "take m"] by (simp add: m_def)
  then have "got @ recv_buf c @ take m data = take (n + m) strm"
    using n(2) by (simp add: take_add append_assoc [symmetric] del: append_assoc)
  moreover have "n + m \<le> length strm" using le fin by (simp add: m_def)
  ultimately show ?thesis using True fin n(3)
    by (auto simp: payload_field_def Let_def m_def [symmetric] rcv_inv_def add.assoc intro!: exI [of _ "n + m"])
next
  case False
  then have "fst (payload_field c h data) = c" by (simp only: payload_field_def if_False fst_conv)
  then show ?thesis using assms(1) by simp
qed

lemma fin_rcv:
  assumes "rcv_inv strm c got" "peer_segment (irs c) strm h data" "length strm < 2 ^ 32 - 1"
  shows "rcv_inv strm (fst (fin_field c h data)) got \<and> irs (fst (fin_field c h data)) = irs c"
proof (cases "has_flag (th_flags h) FIN \<and> th_seq h + of_nat (length data) = rcv_nxt c")
  case True
  from assms(1) obtain n where n: "n \<le> length strm" "got @ recv_buf c = take n strm"
    "rcv_nxt c = irs c + 1 + of_nat (n + of_bool (peer_fin_seen c))" "peer_fin_seen c \<longrightarrow> n = length strm"
    unfolding rcv_inv_def by blast
  have "unat (rcv_nxt c - (irs c + 1)) = n + of_bool (peer_fin_seen c)"
    using rcv_offset [OF n(3)] n(1) assms(3) by (simp add: of_bool_def)
  moreover have "unat (rcv_nxt c - (irs c + 1)) = length strm" using assms(2) True by (simp add: peer_segment_def)
  ultimately have "n = length strm" "\<not> peer_fin_seen c" using n(4) by (auto simp: of_bool_def split: if_splits)
  then show ?thesis using True n by (simp add: fin_field_def rcv_inv_def)
next
  case False
  then have "fst (fin_field c h data) = c" by (simp only: fin_field_def if_False fst_conv)
  then show ?thesis using assms(1) by simp
qed

lemma rcv_inv_cong:
  "recv_buf c' = recv_buf c \<Longrightarrow> rcv_nxt c' = rcv_nxt c \<Longrightarrow> irs c' = irs c \<Longrightarrow> peer_fin_seen c' = peer_fin_seen c
     \<Longrightarrow> rcv_inv strm c' got = rcv_inv strm c got"
  by (simp add: rcv_inv_def)

lemma synchronized_rcv:
  assumes "rcv_inv strm c got" "peer_segment (irs c) strm h data" "length strm < 2 ^ 32 - 1"
  shows "rcv_inv strm (fst (synchronized_segment c h data)) got \<and> irs (fst (synchronized_segment c h data)) = irs c"
proof -
  let ?a = "ack_field c h"
  let ?p = "fst (payload_field ?a h data)"
  have "rcv_inv strm ?a got" using assms(1) by (simp add: rcv_inv_cong [of ?a c])
  then have p: "rcv_inv strm ?p got" "irs ?p = irs c" using payload_rcv [of strm ?a got h data] assms by simp_all
  then show ?thesis unfolding synchronized_fst using fin_rcv [of strm ?p got h data] assms by simp
qed

section \<open>The send side\<close>

text \<open>The retransmission queue as a chain: segment after segment from offset \<open>i\<close> to offset \<open>e\<close> of the
  sequence space, a FIN only at the end.\<close>

definition seg_units :: "PendingSegment \<Rightarrow> nat" where
  "seg_units p = length (ps_data p) + of_bool (has_flag (ps_flags p) FIN)"

fun seg_chain :: "u32 \<Rightarrow> nat \<Rightarrow> PendingSegment list \<Rightarrow> nat \<Rightarrow> bool" where
  "seg_chain b i [] e \<longleftrightarrow> i = e"
| "seg_chain b i (p # ps) e \<longleftrightarrow> ps_seq p = b + of_nat i \<and> seq_len p = of_nat (seg_units p) \<and> 0 < seg_units p
     \<and> (has_flag (ps_flags p) FIN \<longrightarrow> ps = []) \<and> seg_chain b (i + seg_units p) ps e"

lemma seg_chain_le: "seg_chain b i ps e \<Longrightarrow> i \<le> e"
  by (induction ps arbitrary: i) force+

lemma seg_chain_end:
  "seg_chain b i ps e \<Longrightarrow> p \<in> set ps \<Longrightarrow> \<exists>k. i < k \<and> k \<le> e \<and> ps_seq p + seq_len p = b + of_nat k"
proof (induction ps arbitrary: i)
  case (Cons q ps)
  show ?case
  proof (cases "p = q")
    case True
    then show ?thesis using Cons.prems seg_chain_le [of b "i + seg_units q" ps e]
      by (intro exI [of _ "i + seg_units q"]) (simp add: add.assoc)
  next
    case False
    then obtain k where "i + seg_units q < k" "k \<le> e" "ps_seq p + seq_len p = b + of_nat k"
      using Cons.IH [of "i + seg_units q"] Cons.prems by auto
    then show ?thesis by (intro exI [of _ k]) simp
  qed
qed simp

text \<open>An acknowledgement removes a prefix of the queue that it covers, and nothing else.\<close>

lemma seg_chain_ack:
  assumes "seg_chain b i ps e" "i \<le> x" "x \<le> e" "e < 2 ^ 31"
  shows "\<exists>j \<ge> i. j \<le> x \<and> seg_chain b j (filter (\<lambda>p. seq_lt (b + of_nat x) (ps_seq p + seq_len p)) ps) e
    \<and> concat (map ps_data (filter (\<lambda>p. seq_lt (b + of_nat x) (ps_seq p + seq_len p)) ps)) = drop (j - i) (concat (map ps_data ps))"
  using assms(1,2)
proof (induction ps arbitrary: i)
  case Nil
  then show ?case using assms(3) by (intro exI [of _ i]) simp
next
  case (Cons p ps)
  let ?keep = "\<lambda>p. seq_lt (b + of_nat x) (ps_seq p + seq_len p)"
  let ?u = "seg_units p"
  have x31: "x < 2 ^ 31" using assms(3,4) by simp
  have p: "ps_seq p + seq_len p = b + of_nat (i + ?u)" "i + ?u \<le> e" "seg_chain b (i + ?u) ps e"
    using Cons.prems(1) seg_chain_le [of b "i + ?u" ps e] by (simp_all add: add.assoc)
  then have kp: "?keep p \<longleftrightarrow> x < i + ?u" using seq_cmp(1) [OF x31, of "i + ?u" b] assms(4) by simp
  show ?case
  proof (cases "x < i + ?u")
    case True
    have "?keep q" if q: "q \<in> set ps" for q
    proof -
      obtain k where "i + ?u < k" "k \<le> e" "ps_seq q + seq_len q = b + of_nat k" using seg_chain_end [OF p(3) q] by blast
      then show ?thesis using seq_cmp(1) [OF x31, of k b] True assms(4) by simp
    qed
    then have "filter ?keep (p # ps) = p # ps" using kp True by (simp add: filter_id_conv)
    then show ?thesis using Cons.prems by (intro exI [of _ i]) simp
  next
    case False
    then obtain j where j: "i + ?u \<le> j" "j \<le> x" "seg_chain b j (filter ?keep ps) e"
      "concat (map ps_data (filter ?keep ps)) = drop (j - (i + ?u)) (concat (map ps_data ps))"
      using Cons.IH [OF p(3)] by auto
    have "drop (j - i) (concat (map ps_data (p # ps))) = drop (j - (i + ?u)) (concat (map ps_data ps))"
    proof (cases "has_flag (ps_flags p) FIN")
      case True
      then have "ps = []" "length (ps_data p) \<le> j - i" using Cons.prems(1) j(1) by (simp_all add: seg_units_def)
      then show ?thesis by simp
    next
      case False
      then have "?u = length (ps_data p)" by (simp add: seg_units_def)
      then show ?thesis using j(1) by (simp add: drop_append)
    qed
    then show ?thesis using j kp False by (intro exI [of _ j]) simp
  qed
qed

definition snd_inv :: "TcpConn \<Rightarrow> byte list \<Rightarrow> bool" where
  "snd_inv c sent \<longleftrightarrow> (\<exists>i fin. 1 \<le> i \<and> fin \<le> 1 \<and> seg_chain (iss c) i (pending c) (1 + length sent + fin)
     \<and> snd_nxt c = iss c + of_nat (1 + length sent + fin)
     \<and> i \<le> unat (snd_una c - iss c) \<and> unat (snd_una c - iss c) \<le> 1 + length sent + fin
     \<and> concat (map ps_data (pending c)) = drop (i - 1) sent
     \<and> (state c = Established \<or> state c = CloseWait \<longrightarrow> fin = 0))"

lemma ack_snd:
  assumes "snd_inv c sent" "length sent < 2 ^ 31 - 2" "has_flag (th_flags h) ACK \<longrightarrow> unat (th_ack h - iss c) < 2 ^ 31"
  shows "snd_inv (ack_field c h) sent"
proof (cases "has_flag (th_flags h) ACK \<and> seq_lt (snd_una c) (th_ack h) \<and> seq_le (th_ack h) (snd_nxt c)")
  case True
  from assms(1) obtain i fin where I: "1 \<le> i" "fin \<le> 1" "seg_chain (iss c) i (pending c) (1 + length sent + fin)"
    "snd_nxt c = iss c + of_nat (1 + length sent + fin)" "i \<le> unat (snd_una c - iss c)"
    "unat (snd_una c - iss c) \<le> 1 + length sent + fin" "concat (map ps_data (pending c)) = drop (i - 1) sent"
    "state c = Established \<or> state c = CloseWait \<longrightarrow> fin = 0" unfolding snd_inv_def by blast
  define x where "x = unat (th_ack h - iss c)"
  define u where "u = unat (snd_una c - iss c)"
  define e where "e = 1 + length sent + fin"
  have w: "th_ack h = iss c + of_nat x" "snd_una c = iss c + of_nat u" "snd_nxt c = iss c + of_nat e"
    using I(4) by (simp_all add: x_def u_def e_def)
  have small: "x < 2 ^ 31" "u < 2 ^ 31" "e < 2 ^ 31" using assms(2,3) True I(2,6) by (simp_all add: x_def u_def e_def)
  have xu: "u < x" "x \<le> e" using True w seq_cmp [OF small(2,1)] seq_cmp [OF small(1,3)] by simp_all
  obtain j where j: "i \<le> j" "j \<le> x"
    "seg_chain (iss c) j (filter (\<lambda>p. seq_lt (iss c + of_nat x) (ps_seq p + seq_len p)) (pending c)) e"
    "concat (map ps_data (filter (\<lambda>p. seq_lt (iss c + of_nat x) (ps_seq p + seq_len p)) (pending c)))
       = drop (j - i) (concat (map ps_data (pending c)))"
    using seg_chain_ack [of "iss c" i "pending c" e x] I xu small by (auto simp: e_def u_def)
  have d: "drop (j - i) (drop (i - 1) sent) = drop (j - 1) sent" using I(1) j(1) by simp
  have st: "state (ack_field c h) = Established \<or> state (ack_field c h) = CloseWait \<Longrightarrow> fin = 0"
    using I(8) by (auto simp: ack_field_def Let_def split: if_splits)
  have ux: "unat (of_nat x :: u32) = x" using small(1) by (intro unat_u32_small) simp
  show ?thesis unfolding snd_inv_def
    using I(1,2) j xu(2) w d I(7) st True ux
    by (intro exI [of _ j] exI [of _ fin]) (simp add: ack_field_pending e_def del: of_nat_add)
next
  case False
  then have "ack_field c h = c" by (simp only: ack_field_def if_False)
  then show ?thesis using assms(1) by simp
qed

lemma snd_inv_state:
  assumes "snd_inv c sent" "iss c' = iss c" "pending c' = pending c" "snd_nxt c' = snd_nxt c" "snd_una c' = snd_una c"
    and "state c' = Established \<or> state c' = CloseWait \<Longrightarrow> state c = Established \<or> state c = CloseWait"
  shows "snd_inv c' sent"
  using assms unfolding snd_inv_def by auto

lemma payload_field_simps [simp]:
  "state (fst (payload_field c h data)) = state c" "iss (fst (payload_field c h data)) = iss c"
  "pending (fst (payload_field c h data)) = pending c" "snd_nxt (fst (payload_field c h data)) = snd_nxt c"
  "snd_una (fst (payload_field c h data)) = snd_una c"
  by (simp_all add: payload_field_def Let_def)

lemma synchronized_snd:
  assumes "snd_inv c sent" "length sent < 2 ^ 31 - 2" "has_flag (th_flags h) ACK \<longrightarrow> unat (th_ack h - iss c) < 2 ^ 31"
  shows "snd_inv (fst (synchronized_segment c h data)) sent \<and> iss (fst (synchronized_segment c h data)) = iss c"
proof -
  let ?p = "fst (payload_field (ack_field c h) h data)"
  have "snd_inv ?p sent"
    using ack_snd [OF assms] by (rule snd_inv_state) simp_all
  then have "snd_inv (fst (fin_field ?p h data)) sent"
    by (rule snd_inv_state) (auto simp: fin_field_def fin_state_def split: State.splits if_splits)
  moreover have "iss (fst (fin_field ?p h data)) = iss c" by (simp add: fin_field_def)
  ultimately show ?thesis by (simp only: synchronized_fst)
qed

lemma process_synced:
  assumes "state c \<noteq> SynSent" "process_segment c h options data = Some (c', r)"
  shows "state c' \<noteq> SynSent \<and> (c' = fst (synchronized_segment c h data) \<or> c' = c \<or> c' = c\<lparr>state := Closed\<rparr>)"
proof (cases "has_flag (th_flags h) RST")
  case True
  then show ?thesis using assms by (auto simp: process_segment_def)
next
  case False
  have "state (fst (synchronized_segment c h data)) \<noteq> SynSent"
    using assms(1) by (auto simp: synchronized_fst fin_field_def payload_field_def ack_field_def Let_def fin_state_def split: State.splits)
  then show ?thesis using False assms
    by (cases "state c") (auto simp: process_segment_def last_ack_segment_def split: if_splits)
qed

lemma seg_chain_append:
  assumes "seg_chain b i ps e" "list_all (\<lambda>p. \<not> has_flag (ps_flags p) FIN) ps" "seg_chain b e qs f"
  shows "seg_chain b i (ps @ qs) f"
  using assms by (induction ps arbitrary: i) auto

lemma seg_chain_length:
  "seg_chain b i ps e \<Longrightarrow> e = i + length (concat (map ps_data ps)) + length (filter (\<lambda>p. has_flag (ps_flags p) FIN) ps)"
proof (induction ps arbitrary: i)
  case (Cons p ps)
  then have "seg_chain b (i + seg_units p) ps e" by simp
  then have "e = i + seg_units p + length (concat (map ps_data ps)) + length (filter (\<lambda>p. has_flag (ps_flags p) FIN) ps)"
    by (rule Cons.IH)
  then show ?case by (simp add: seg_units_def)
qed simp

lemma seg_chain_no_fin:
  assumes "seg_chain b i ps (1 + length sent)" "concat (map ps_data ps) = drop (i - 1) sent" "1 \<le> i" "i \<le> 1 + length sent"
  shows "list_all (\<lambda>p. \<not> has_flag (ps_flags p) FIN) ps"
proof -
  have "filter (\<lambda>p. has_flag (ps_flags p) FIN) ps = []"
    using seg_chain_length [OF assms(1)] assms(2-) by simp
  then show ?thesis by (simp add: filter_empty_conv list_all_iff)
qed

lemma segs_from_chain:
  assumes "\<forall>d \<in> set ds. d \<noteq> []"
  shows "seg_chain b i (segs_from now (b + of_nat i) ds) (i + length (concat ds))"
    "map ps_data (segs_from now q ds) = ds"
  using assms
proof (induction ds arbitrary: i q)
  case (Cons d ds)
  have f: "\<not> has_flag (PSH OR ACK) FIN" by (simp add: has_flag_def PSH_def ACK_def FIN_def)
  { case 1
    then show ?case using Cons.IH(1) [of "i + length d"] f by (simp add: seg_units_def add.assoc)
  next
    case 2
    then show ?case using Cons.IH(2) by simp }
qed simp_all

lemma send_snd:
  assumes "snd_inv c sent" "state c = Established" "0 < unat (mss c)"
  shows "snd_inv (c\<lparr>pending := pending c @ segs_from now (snd_nxt c) (chunks (unat (mss c)) data),
     snd_nxt := snd_nxt c + of_nat (length data)\<rparr>) (sent @ data)"
proof -
  from assms obtain i where I: "1 \<le> i" "seg_chain (iss c) i (pending c) (1 + length sent)"
    "snd_nxt c = iss c + of_nat (1 + length sent)" "i \<le> unat (snd_una c - iss c)"
    "unat (snd_una c - iss c) \<le> 1 + length sent" "concat (map ps_data (pending c)) = drop (i - 1) sent"
    unfolding snd_inv_def by auto
  let ?new = "segs_from now (snd_nxt c) (chunks (unat (mss c)) data)"
  have ne: "\<forall>d \<in> set (chunks (unat (mss c)) data). d \<noteq> []" using chunks_bound by blast
  have new: "seg_chain (iss c) (1 + length sent) ?new (1 + length sent + length data)" "concat (map ps_data ?new) = data"
    using segs_from_chain(1) [OF ne, of "iss c" "1 + length sent" now] segs_from_chain(2) [OF ne] concat_chunks [OF assms(3)] I(3)
    by simp_all
  have i: "i \<le> 1 + length sent" using I by simp
  have "seg_chain (iss c) i (pending c @ ?new) (1 + length (sent @ data))"
    using seg_chain_append [OF I(2) seg_chain_no_fin [OF I(2,6,1) i] new(1)] by simp
  moreover have "concat (map ps_data (pending c @ ?new)) = drop (i - 1) (sent @ data)" using I(6) new(2) i by simp
  moreover have "snd_nxt c + of_nat (length data) = iss c + of_nat (1 + length (sent @ data))" using I(3) by (simp add: add.assoc)
  ultimately show ?thesis using I unfolding snd_inv_def
    by (intro exI [of _ i] exI [of _ 0]) (simp del: map_append concat_append)
qed

lemma close_snd:
  assumes "snd_inv c sent" "state c = Established \<or> state c = CloseWait"
  shows "snd_inv (close_conn c now) sent"
proof -
  from assms obtain i where I: "1 \<le> i" "seg_chain (iss c) i (pending c) (1 + length sent)"
    "snd_nxt c = iss c + of_nat (1 + length sent)" "i \<le> unat (snd_una c - iss c)"
    "unat (snd_una c - iss c) \<le> 1 + length sent" "concat (map ps_data (pending c)) = drop (i - 1) sent"
    unfolding snd_inv_def by auto
  have i: "i \<le> 1 + length sent" using I by simp
  let ?f = "\<lparr>ps_seq = snd_nxt c, ps_data = [], ps_flags = FIN OR ACK, seq_len = 1, last_tx_tick = now, retries = 0\<rparr>"
  have "seg_chain (iss c) (1 + length sent) [?f] (1 + length sent + 1)"
    using I(3) by (simp add: seg_units_def has_flag_def FIN_def ACK_def)
  then have "seg_chain (iss c) i (pending c @ [?f]) (1 + length sent + 1)"
    by (rule seg_chain_append [OF I(2) seg_chain_no_fin [OF I(2,6,1) i]])
  then show ?thesis using I unfolding snd_inv_def
    by (intro exI [of _ i] exI [of _ 1]) (auto simp: close_conn_def add.assoc)
qed

lemma retry_chain: "seg_chain b i (map (retry now) ps) e = seg_chain b i ps e"
  by (induction ps arbitrary: i) (auto simp: seg_units_def)

lemma tick_snd:
  assumes "snd_inv c sent"
  shows "snd_inv (c\<lparr>pending := map (retry now) (pending c), state := (if g then Closed else state c)\<rparr>) sent"
proof -
  have "ps_data \<circ> retry now = ps_data" by (simp add: fun_eq_iff)
  then have "snd_inv (c\<lparr>pending := map (retry now) (pending c)\<rparr>) sent"
    using assms unfolding snd_inv_def by (simp add: retry_chain)
  then show ?thesis by (rule snd_inv_state) (simp_all split: if_splits)
qed

section \<open>Runs\<close>

text \<open>What the theorems assume of an operation: a segment that carries the peer's stream, and whose
  acknowledgement number lies in the half of the sequence space after ours.\<close>

definition op_ok :: "u32 \<Rightarrow> u32 \<Rightarrow> byte list \<Rightarrow> conn_op \<Rightarrow> bool" where
  "op_ok b base strm op \<longleftrightarrow> (case op of
     Segment h options data \<Rightarrow> peer_segment base strm h data \<and> (has_flag (th_flags h) ACK \<longrightarrow> unat (th_ack h - b) < 2 ^ 31)
   | _ \<Rightarrow> True)"

definition bytes_in :: "conn_op \<Rightarrow> nat" where
  "bytes_in op = (case op of SendOp now data \<Rightarrow> length data | _ \<Rightarrow> 0)"

definition run_inv :: "u32 \<Rightarrow> u32 \<Rightarrow> u16 \<Rightarrow> byte list \<Rightarrow> TcpConn \<times> byte list \<times> byte list \<Rightarrow> bool" where
  "run_inv b base m strm s \<longleftrightarrow> (case s of (c, sent, got) \<Rightarrow> conn_ok c \<and> state c \<noteq> SynSent \<and> iss c = b \<and> irs c = base \<and> mss c = m
     \<and> rcv_inv strm c got \<and> snd_inv c sent)"

lemma conn_read_rcv: "rcv_inv strm c got \<Longrightarrow> rcv_inv strm (fst (conn_read c n)) (got @ snd (conn_read c n))"
  by (auto simp: conn_read_def Let_def rcv_inv_def)

lemma segment_run_inv:
  assumes "run_inv b base m strm (c, sent, got)" "op_ok b base strm (Segment h options data)"
    and "length strm < 2 ^ 32 - 1" "length sent < 2 ^ 31 - 2"
  shows "\<exists>c'. conn_step ip mac (Segment h options data) (c, sent, got) = Some (c', sent, got) \<and> run_inv b base m strm (c', sent, got)"
proof -
  have I: "conn_ok c" "state c \<noteq> SynSent" "iss c = b" "irs c = base" "mss c = m" "rcv_inv strm c got" "snd_inv c sent"
    using assms(1) by (simp_all add: run_inv_def)
  obtain c' r where c': "process_segment c h options data = Some (c', r)" "conn_ok c'" using process_segment_ok [OF I(1)] by blast
  have "run_inv b base m strm (c', sent, got)"
    using process_synced [OF I(2) c'(1)]
  proof (elim conjE disjE)
    assume "state c' \<noteq> SynSent" and e: "c' = fst (synchronized_segment c h data)"
    moreover have "mss c' = mss c" unfolding e synchronized_fst by (simp add: fin_field_def payload_field_def Let_def)
    ultimately show ?thesis using synchronized_rcv [OF I(6)] synchronized_snd [OF I(7) assms(4)] assms(2,3) I c'(2)
      by (simp add: run_inv_def op_ok_def)
  next
    assume "c' = c"
    then show ?thesis using assms(1) by simp
  next
    assume "c' = c\<lparr>state := Closed\<rparr>"
    then show ?thesis using I c'(2) snd_inv_state [OF I(7), of "c\<lparr>state := Closed\<rparr>"] by (simp add: run_inv_def rcv_inv_def)
  qed
  then show ?thesis using c'(1) by simp
qed

lemma send_run_inv:
  assumes "run_inv b base m strm (c, sent, got)" "unat m \<le> 1546" "length ip = 4" "length mac = 6"
  shows "\<exists>c' sent'. conn_step ip mac (SendOp now data) (c, sent, got) = Some (c', sent', got)
    \<and> length sent' \<le> length sent + length data \<and> run_inv b base m strm (c', sent', got)"
proof (cases "data = [] \<or> state c \<noteq> Established")
  case True
  then show ?thesis using assms(1) by simp
next
  case False
  have I: "conn_ok c" "iss c = b" "irs c = base" "mss c = m" "rcv_inv strm c got" "snd_inv c sent"
    using assms(1) by (simp_all add: run_inv_def)
  have pos: "0 < unat (mss c)" "length (remote_ip c) = 4" "length (peer_mac c) = 6" using I(1) by (simp_all add: conn_ok_def)
  define c' where "c' = c\<lparr>pending := pending c @ segs_from now (snd_nxt c) (chunks (unat (mss c)) data),
     snd_nxt := snd_nxt c + of_nat (length data)\<rparr>"
  have "\<exists>frames. send_loop ip mac now data c 0 = Some (c', frames)"
    using send_loop_ok [OF assms(3,4) pos(2,3,1), of 0 data now] assms(2) I(4) by (simp add: c'_def)
  moreover have "conn_ok c'"
  proof -
    have "length x \<le> 1546" if "x \<in> set (chunks (unat (mss c)) data)" for x using chunks_bound [OF that] assms(2) I(4) by simp
    then show ?thesis using I(1) by (simp add: c'_def conn_ok_def segs_from_ok)
  qed
  moreover have "rcv_inv strm c' got" using I(5) by (simp add: c'_def rcv_inv_def)
  moreover have "snd_inv c' (sent @ data)" using send_snd [OF I(6) _ pos(1)] False by (simp add: c'_def)
  ultimately show ?thesis using False I by (auto simp: run_inv_def c'_def)
qed

lemma conn_step_inv:
  assumes "run_inv b base m strm (c, sent, got)" "op_ok b base strm op" "unat m \<le> 1546" "length ip = 4" "length mac = 6"
    and "length strm < 2 ^ 32 - 1" "length sent < 2 ^ 31 - 2"
  shows "\<exists>c' sent' got'. conn_step ip mac op (c, sent, got) = Some (c', sent', got')
    \<and> length sent' \<le> length sent + bytes_in op \<and> run_inv b base m strm (c', sent', got')"
proof (cases op)
  case (Segment h options data)
  then show ?thesis using segment_run_inv [of b base m strm c sent got h options data ip mac] assms by (auto simp: bytes_in_def)
next
  case (SendOp now data)
  then show ?thesis using send_run_inv [OF assms(1,3-5), of now data] by (auto simp: bytes_in_def)
next
  case (CloseOp now)
  have I: "run_inv b base m strm (close_conn c now, sent, got)" if "state c = Established \<or> state c = CloseWait"
    using assms(1) close_snd [of c sent now] close_conn_ok [of c now] that
    by (auto simp: run_inv_def close_conn_def rcv_inv_def)
  then show ?thesis using CloseOp assms(1) by auto
next
  case (TickOp now)
  show ?thesis
  proof (cases "state c = Closed")
    case False
    have ok: "conn_ok c" using assms(1) by (simp add: run_inv_def)
    define g where "g = (\<exists>p \<in> set (pending c). due now p \<and> MAX_RETRANSMITS \<le> retries p)"
    obtain fs where fs: "tick_conn ip mac now c = Some (c\<lparr>pending := map (retry now) (pending c), state := (if g then Closed else state c)\<rparr>, fs)"
      using tick_conn_eq [OF assms(4,5) ok, of now] by (auto simp: g_def)
    then have "conn_ok (c\<lparr>pending := map (retry now) (pending c), state := (if g then Closed else state c)\<rparr>)"
      using tick_conn_ok [OF assms(4,5) ok, of now] by auto
    then show ?thesis using TickOp False fs assms(1) tick_snd [where c = c and sent = sent and now = now and g = g]
        rcv_inv_cong [of "c\<lparr>pending := map (retry now) (pending c), state := (if g then Closed else state c)\<rparr>" c strm got]
      by (simp add: run_inv_def)
  qed (use TickOp assms(1) in simp)
next
  case (ReadOp n)
  have "snd_inv (fst (conn_read c n)) sent" if "snd_inv c sent"
    using that by (rule snd_inv_state) (auto simp: conn_read_def Let_def split: if_splits)
  then show ?thesis using ReadOp assms(1) conn_read_ok [of c n] conn_read_rcv [of strm c got n]
    by (simp add: run_inv_def) (simp add: conn_read_def Let_def)
qed

lemma conn_run_inv:
  assumes "run_inv b base m strm (c, sent, got)" "list_all (op_ok b base strm) ops" "unat m \<le> 1546" "length ip = 4" "length mac = 6"
    and "length strm < 2 ^ 32 - 1" "length sent + sum_list (map bytes_in ops) < 2 ^ 31 - 2"
  shows "\<exists>c' sent' got'. conn_run ip mac ops (c, sent, got) = Some (c', sent', got') \<and> run_inv b base m strm (c', sent', got')"
  using assms(1,2,7)
proof (induction ops arbitrary: c sent got)
  case (Cons op ops)
  then obtain c' sent' got' where s: "conn_step ip mac op (c, sent, got) = Some (c', sent', got')"
    "length sent' \<le> length sent + bytes_in op" "run_inv b base m strm (c', sent', got')"
    using conn_step_inv [of b base m strm c sent got op ip mac] assms(3-6) by auto
  then show ?case using Cons.IH [of c' sent' got'] Cons.prems by auto
qed simp

lemma established_inv:
  assumes "established c"
  shows "run_inv (iss c) (irs c) (mss c) strm (c, [], [])"
proof -
  have "rcv_inv strm c []" using assms unfolding rcv_inv_def established_def by (intro exI [of _ 0]) simp
  moreover have "snd_inv c []" using assms unfolding snd_inv_def established_def by (intro exI [of _ 1] exI [of _ 0]) simp
  ultimately show ?thesis using assms by (simp add: run_inv_def established_def)
qed

section \<open>Properties\<close>

text \<open>C29: In-order delivery. From an established connection whose segment size fits the
  send buffer, over any sequence of segments of the peer's stream (lost, repeated, reordered, cut in any
  way), sends, closes, timer ticks and reads, nothing panics and what the reader got, followed by what
  is buffered, is a prefix of the peer's stream; once the peer's FIN is accepted it is all of it.\<close>

theorem tcp_in_order:
  assumes "established c" "unat (mss c) \<le> 1546" "length ip = 4" "length mac = 6"
    and "list_all (op_ok (iss c) (irs c) strm) ops"
    and "length strm < 2 ^ 32 - 1" "sum_list (map bytes_in ops) < 2 ^ 31 - 2"
  shows "\<exists>c' sent got n. conn_run ip mac ops (c, [], []) = Some (c', sent, got)
    \<and> got @ recv_buf c' = take n strm \<and> (peer_fin_seen c' \<longrightarrow> got @ recv_buf c' = strm)"
proof -
  obtain c' sent got where "conn_run ip mac ops (c, [], []) = Some (c', sent, got)" "rcv_inv strm c' got"
    using conn_run_inv [OF established_inv [OF assms(1)] assms(5,2-4,6)] assms(7) by (auto simp: run_inv_def)
  then show ?thesis unfolding rcv_inv_def by auto
qed

definition demo_conn :: TcpConn where
  "demo_conn = (conn_new 49152 [10, 0, 2, 2] 80 [82, 84, 0, 0, 0, 1] 0xFFFFFFFE)
     \<lparr>state := Established, snd_una := 0xFFFFFFFF, snd_nxt := 0xFFFFFFFF, rcv_nxt := 1, irs := 0\<rparr>"

definition demo_hdr :: "u32 \<Rightarrow> u32 \<Rightarrow> byte \<Rightarrow> TcpHeader" where
  "demo_hdr q a f = \<lparr>th_src_port = 80, th_dst_port = 49152, th_seq = q, th_ack = a, data_offset = 5, th_flags = f,
     th_window = 8192, th_checksum = 0, th_urgent = 0\<rparr>"

lemma demo_established: "established demo_conn"
  by (simp add: established_def demo_conn_def conn_new_def conn_ok_def DEFAULT_MSS_def)

definition demo_ops :: "conn_op list" where
  "demo_ops = [SendOp 5 [71, 69, 84], Segment (demo_hdr 3 0xFFFFFFFF ACK) [] [53], Segment (demo_hdr 1 2 ACK) [] [51, 52],
     ReadOp 1, Segment (demo_hdr 1 2 ACK) [] [51, 52], Segment (demo_hdr 3 2 (FIN OR ACK)) [] [53], ReadOp 9, CloseOp 7]"

lemma demo_ops_ok: "list_all (op_ok (iss demo_conn) (irs demo_conn) [51, 52, 53]) demo_ops"
  by (simp add: demo_ops_def op_ok_def peer_segment_def demo_hdr_def demo_conn_def conn_new_def has_flag_def FIN_def ACK_def)

theorem tcp_in_order_witness:
  "\<exists>c' sent got n. conn_run [10, 0, 2, 15] [82, 84, 0, 0, 0, 2] demo_ops (demo_conn, [], []) = Some (c', sent, got)
    \<and> got @ recv_buf c' = take n [51, 52, 53] \<and> (peer_fin_seen c' \<longrightarrow> got @ recv_buf c' = [51, 52, 53])"
  using tcp_in_order [OF demo_established _ _ _ demo_ops_ok, of "[10, 0, 2, 15]" "[82, 84, 0, 0, 0, 2]"]
  by (simp add: demo_conn_def conn_new_def DEFAULT_MSS_def demo_ops_def bytes_in_def)

text \<open>The peer acknowledged \<open>k\<close> bytes in the run \<open>ops\<close>: one of the segments received carries an ACK number that
  lies at least \<open>k\<close> bytes after the start of our stream, and not beyond what had been sent by then (our
  FIN counts as one more byte).\<close>

definition peer_acked :: "ip_addr \<Rightarrow> mac_addr \<Rightarrow> TcpConn \<Rightarrow> conn_op list \<Rightarrow> nat \<Rightarrow> bool" where
  "peer_acked ip mac c ops k \<longleftrightarrow> (\<exists>before h options data after c1 sent1 got1.
     ops = before @ Segment h options data # after \<and> has_flag (th_flags h) ACK
     \<and> conn_run ip mac before (c, [], []) = Some (c1, sent1, got1)
     \<and> k \<le> unat (th_ack h - (iss c + 1)) \<and> unat (th_ack h - (iss c + 1)) \<le> length sent1 + 1)"

lemma peer_acked_append: "peer_acked ip mac c ops k \<Longrightarrow> peer_acked ip mac c (ops @ ops2) k"
  unfolding peer_acked_def by (metis append_Cons append_assoc)

lemma peer_acked_le: "peer_acked ip mac c ops k \<Longrightarrow> j \<le> k \<Longrightarrow> peer_acked ip mac c ops j"
  unfolding peer_acked_def by (blast intro: order_trans)

lemma conn_run_append:
  "conn_run ip mac (ops @ ops2) s = Option.bind (conn_run ip mac ops s) (conn_run ip mac ops2)"
proof (induction ops arbitrary: s)
  case (Cons op ops)
  then show ?case by (cases "conn_step ip mac op s") simp_all
qed simp

text \<open>The connection's mark for acknowledged data moves only to an ACK number it receives.\<close>

lemma segment_snd_una:
  assumes "state c \<noteq> SynSent" "process_segment c h options data = Some (c', r)"
  shows "snd_una c' = snd_una c \<or> has_flag (th_flags h) ACK \<and> snd_una c' = th_ack h"
proof -
  have "snd_una (fst (synchronized_segment c h data)) = snd_una (ack_field c h)"
    by (simp add: synchronized_fst fin_field_def)
  moreover have "snd_una (ack_field c h) = snd_una c \<or> has_flag (th_flags h) ACK \<and> snd_una (ack_field c h) = th_ack h"
    by (simp add: ack_field_def Let_def)
  ultimately show ?thesis using process_synced [OF assms] by auto
qed

lemma step_snd_una:
  assumes "state c \<noteq> SynSent" "0 < unat (mss c)" "unat (mss c) \<le> 1546" "conn_ok c" "length ip = 4" "length mac = 6"
    and "conn_step ip mac op (c, sent, got) = Some (c', sent', got')"
  shows "snd_una c' = snd_una c \<or> (\<exists>h options data. op = Segment h options data \<and> has_flag (th_flags h) ACK \<and> snd_una c' = th_ack h
    \<and> sent' = sent)"
proof (cases op)
  case (Segment h options data)
  then show ?thesis using assms(1,7) segment_snd_una [of c h options data] by (auto split: bind_splits)
next
  case (SendOp now data)
  have "length (remote_ip c) = 4" "length (peer_mac c) = 6" using assms(4) by (simp_all add: conn_ok_def)
  then show ?thesis using SendOp assms(2,3,5-7) send_loop_ok [of ip mac c 0 data now] by (auto split: if_splits)
next
  case (TickOp now)
  then show ?thesis using assms(7) tick_conn_eq [OF assms(5,6,4), of now] by (auto split: if_splits)
qed (use assms(7) in \<open>auto simp: close_conn_def conn_read_def Let_def split: if_splits\<close>)

text \<open>Hence the mark is at the start of the stream or covered by an ACK of the peer.\<close>

lemma snd_una_acked:
  assumes "established c" "unat (mss c) \<le> 1546" "length ip = 4" "length mac = 6" "length strm < 2 ^ 32 - 1"
  shows "list_all (op_ok (iss c) (irs c) strm) ops \<Longrightarrow> sum_list (map bytes_in ops) < 2 ^ 31 - 2
    \<Longrightarrow> conn_run ip mac ops (c, [], []) = Some (c', sent, got)
    \<Longrightarrow> unat (snd_una c' - iss c) = 1 \<or> peer_acked ip mac c ops (unat (snd_una c' - iss c) - 1)"
proof (induction ops arbitrary: c' sent got rule: rev_induct)
  case Nil
  then show ?case using assms(1) by (simp add: established_def)
next
  case (snoc op ops)
  note start = conn_run_inv [OF established_inv [OF assms(1)] _ assms(2-5)]
  obtain c1 sent1 got1 where r: "conn_run ip mac ops (c, [], []) = Some (c1, sent1, got1)" "run_inv (iss c) (irs c) (mss c) strm (c1, sent1, got1)"
    using start [of ops] snoc.prems(1,2) by auto
  have step: "conn_step ip mac op (c1, sent1, got1) = Some (c', sent, got)"
    using snoc.prems(3) r(1) by (auto simp: conn_run_append split: bind_splits)
  have inv: "run_inv (iss c) (irs c) (mss c) strm (c', sent, got)" using start [of "ops @ [op]"] snoc.prems by auto
  have I: "state c1 \<noteq> SynSent" "mss c1 = mss c" "conn_ok c1" using r(2) by (simp_all add: run_inv_def)
  then have "0 < unat (mss c1)" by (simp add: conn_ok_def)
  with step_snd_una [OF I(1) _ _ I(3) assms(3,4) step] I(2) assms(2) consider "snd_una c' = snd_una c1"
    | h options data where "op = Segment h options data" "has_flag (th_flags h) ACK" "snd_una c' = th_ack h" "sent = sent1" by auto
  then show ?case
  proof cases
    case 1
    then show ?thesis using snoc.IH [OF _ _ r(1)] snoc.prems(1,2) peer_acked_append [of ip mac c ops _ "[op]"] by auto
  next
    case 2
    let ?u = "unat (snd_una c' - iss c)"
    have u: "1 \<le> ?u" "?u \<le> 1 + length sent + 1" using inv unfolding run_inv_def snd_inv_def by auto
    have "unat (th_ack h - (iss c + 1)) = ?u - 1"
    proof -
      have "th_ack h - (iss c + 1) = (snd_una c' - iss c) - 1" using 2(3) by simp
      moreover have "snd_una c' - iss c \<noteq> 0" using u(1) by auto
      ultimately show ?thesis using unat_minus_one [of "snd_una c' - iss c"] by presburger
    qed
    then show ?thesis using 2 u r(1) unfolding peer_acked_def
      by (intro disjI2 exI [of _ ops] exI [of _ h] exI [of _ options] exI [of _ data] exI [of _ "[]"] exI [of _ c1] exI [of _ sent1] exI [of _ got1]) auto
  qed
qed

text \<open>C30: Reliability. Under the same conditions the data queued for retransmission are
  a suffix of all the data accepted by \<open>send\<close>. The bytes missing from it, if any, are bytes that a segment of the
  peer acknowledged: its ACK number, received after those bytes had been sent, covers all of them.\<close>

theorem tcp_unacked_kept:
  assumes "established c" "unat (mss c) \<le> 1546" "length ip = 4" "length mac = 6"
    and "list_all (op_ok (iss c) (irs c) strm) ops"
    and "length strm < 2 ^ 32 - 1" "sum_list (map bytes_in ops) < 2 ^ 31 - 2"
  shows "\<exists>c' sent got k. conn_run ip mac ops (c, [], []) = Some (c', sent, got)
    \<and> concat (map ps_data (pending c')) = drop k sent \<and> (k = 0 \<or> peer_acked ip mac c ops k)"
proof -
  obtain c' sent got where r: "conn_run ip mac ops (c, [], []) = Some (c', sent, got)" "snd_inv c' sent" "iss c' = iss c"
    using conn_run_inv [OF established_inv [OF assms(1)] assms(5,2-4,6)] assms(7) by (auto simp: run_inv_def)
  then obtain i where i: "1 \<le> i" "i \<le> unat (snd_una c' - iss c)" "concat (map ps_data (pending c')) = drop (i - 1) sent"
    unfolding snd_inv_def by auto
  have "i - 1 = 0 \<or> peer_acked ip mac c ops (i - 1)"
  proof (cases "i = 1")
    case False
    then have "peer_acked ip mac c ops (unat (snd_una c' - iss c) - 1)"
      using snd_una_acked [OF assms(1-4,6,5,7) r(1)] i by auto
    then have "peer_acked ip mac c ops (i - 1)" by (rule peer_acked_le) (use i(2) in simp)
    then show ?thesis ..
  qed simp
  then show ?thesis using r(1) i(3) by blast
qed

theorem tcp_unacked_kept_witness:
  "\<exists>c' sent got k. conn_run [10, 0, 2, 15] [82, 84, 0, 0, 0, 2] demo_ops (demo_conn, [], []) = Some (c', sent, got)
    \<and> concat (map ps_data (pending c')) = drop k sent \<and> (k = 0 \<or> peer_acked [10, 0, 2, 15] [82, 84, 0, 0, 0, 2] demo_conn demo_ops k)"
  using tcp_unacked_kept [OF demo_established _ _ _ demo_ops_ok, of "[10, 0, 2, 15]" "[82, 84, 0, 0, 0, 2]"]
  by (simp add: demo_conn_def conn_new_def DEFAULT_MSS_def demo_ops_def bytes_in_def)

end
