(* ===== verification/TcpLife.thy ===== *)
theory TcpLife imports TcpStream begin

text \<open>
  The life of TCP connections in the table: \<open>send\<close> ends and cuts its data into segments that fit, a
  silent peer is given up after 9400 ticks, and two ways in which the table fails: a segment size larger
  than the send buffer, and connections that stay in \<open>TimeWait\<close> for ever.
\<close>

section \<open>Sending ends\<close>

text \<open>C31: Termination of the segmentation loop. On an established connection whose segment
  size fits the send buffer, \<open>send\<close> returns; it appends to the retransmission queue non-empty segments
  of at most \<open>mss\<close> bytes whose data, in order, are the data sent, numbered consecutively.\<close>

theorem tcp_send_ends:
  assumes "table_ok t" "conn_at t i = Some c" "state c = Established" "unat (mss c) \<le> 1546" "data \<noteq> []"
  shows "\<exists>t' frames c' segs. tcp_send t now i data = Some (t', frames, Inr ()) \<and> conn_at t' i = Some c'
    \<and> pending c' = pending c @ segs \<and> concat (map ps_data segs) = data
    \<and> (\<forall>p \<in> set segs. ps_data p \<noteq> [] \<and> length (ps_data p) \<le> unat (mss c))
    \<and> snd_nxt c' = snd_nxt c + of_nat (length data)"
proof -
  let ?chs = "chunks (unat (mss c)) data"
  define c' where "c' = c\<lparr>pending := pending c @ segs_from now (snd_nxt c) ?chs, snd_nxt := snd_nxt c + of_nat (length data)\<rparr>"
  have ok: "conn_ok c" "i < length (conns t)" using table_okD(5) [OF assms(1,2)] assms(2) by (simp_all add: conn_atD)
  obtain frames where "send_loop (our_ip t) (our_mac t) now data c 0 = Some (c', frames)"
    using send_loop_ok [of "our_ip t" "our_mac t" c 0 data now] ok assms(4) table_okD [OF assms(1)]
    by (auto simp: c'_def conn_ok_def)
  then have "tcp_send t now i data = Some (put_conn t i c', frames, Inr ())" using assms by (simp add: tcp_send_def)
  moreover have "conn_at (put_conn t i c') i = Some c'" using ok(2) by (simp add: put_conn_def conn_at_def)
  moreover have ne: "\<forall>d \<in> set ?chs. d \<noteq> []" using chunks_bound by blast
  moreover have "map ps_data (segs_from now (snd_nxt c) ?chs) = ?chs" by (rule segs_from_chain(2) [OF ne])
  moreover have "ps_data p \<noteq> [] \<and> length (ps_data p) \<le> unat (mss c)" if "p \<in> set (segs_from now (snd_nxt c) ?chs)" for p
    using chunks_bound [of "ps_data p"] that calculation(4) by (metis imageI list.set_map)
  moreover have "concat ?chs = data" using ok(1) by (intro concat_chunks) (simp add: conn_ok_def)
  ultimately show ?thesis
    by (intro exI [of _ "put_conn t i c'"] exI [of _ frames] exI [of _ c'] exI [of _ "segs_from now (snd_nxt c) ?chs"])
      (simp add: c'_def)
qed

definition demo_table :: Table where
  "demo_table = (tcp_init table_new [10, 0, 2, 15] [82, 84, 0, 0, 0, 2])\<lparr>conns := Some demo_conn # replicate 7 None\<rparr>"

lemma demo_table_ok: "table_ok demo_table"
proof -
  have "conns_ok (Some demo_conn # replicate 7 None)"
    using demo_established by (auto simp: conns_ok_def established_def nth_Cons split: nat.splits)
  then show ?thesis by (simp add: table_ok_def demo_table_def tcp_init_def table_new_def MAX_CONNS_def)
qed

theorem tcp_send_ends_witness:
  "\<exists>t' frames c' segs. tcp_send demo_table 5 0 (replicate 2000 65) = Some (t', frames, Inr ()) \<and> conn_at t' 0 = Some c'
    \<and> pending c' = pending demo_conn @ segs \<and> concat (map ps_data segs) = replicate 2000 65
    \<and> (\<forall>p \<in> set segs. ps_data p \<noteq> [] \<and> length (ps_data p) \<le> unat (mss demo_conn))
    \<and> snd_nxt c' = snd_nxt demo_conn + of_nat (length (replicate 2000 (65 :: byte)))"
  by (rule tcp_send_ends [OF demo_table_ok])
    (simp_all add: demo_table_def conn_at_def demo_conn_def conn_new_def DEFAULT_MSS_def)

section \<open>A silent peer\<close>

primrec tick_run :: "Table \<Rightarrow> nat list \<Rightarrow> Table option" where
  "tick_run t [] = Some t"
| "tick_run t (now # ts) = do { (t', _) \<leftarrow> tick t now; tick_run t' ts }"

text \<open>When the \<open>r\<close>-th retransmission of a segment is due, counted from its first transmission.\<close>

definition due_at :: "nat \<Rightarrow> nat" where
  "due_at r = sum_list (map rto [0..<r])"

lemma due_at_Suc: "due_at (Suc r) = due_at r + rto r"
  by (simp add: due_at_def)

lemma due_at_last: "due_at 6 = 9400"
  by (simp add: due_at_def rto_def RTO_INITIAL_TICKS_def RTO_MAX_TICKS_def numeral_eq_Suc)

lemma due_at_mono: "r \<le> s \<Longrightarrow> due_at r \<le> due_at s"
  by (induction s) (auto simp: due_at_Suc le_Suc_eq)

lemma rto_pos: "0 < rto r"
  by (simp add: rto_def RTO_INITIAL_TICKS_def RTO_MAX_TICKS_def)

definition silent :: "nat \<Rightarrow> nat \<Rightarrow> TcpConn option \<Rightarrow> bool" where
  "silent k n s \<longleftrightarrow> (case s of None \<Rightarrow> True | Some c \<Rightarrow> conn_ok c \<and> (state c = Closed \<or>
     (\<exists>p ps. pending c = p # ps \<and> retries p \<le> 5 \<and> last_tx_tick p = k + due_at (retries p)
        \<and> due_at (retries p) \<le> n \<and> n < due_at (Suc (retries p)))))"

lemma silent_tick:
  assumes "silent k n s" "slot_ticked ip mac (k + Suc n) s s'" "length ip = 4" "length mac = 6"
  shows "silent k (Suc n) s'"
proof (cases "s = None \<or> state (the s) = Closed")
  case True
  then show ?thesis using assms(2) by (cases s) (auto simp: slot_ticked_simps silent_def)
next
  case False
  then obtain c p ps where c: "s = Some c" "state c \<noteq> Closed" "conn_ok c" "pending c = p # ps" "retries p \<le> 5"
    "last_tx_tick p = k + due_at (retries p)" "due_at (retries p) \<le> n" "n < due_at (Suc (retries p))"
    using assms(1) by (auto simp: silent_def)
  define now where "now = k + Suc n"
  let ?g = "\<exists>q \<in> set (pending c). due now q \<and> MAX_RETRANSMITS \<le> retries q"
  define c' where "c' = c\<lparr>pending := map (retry now) (pending c), state := (if ?g then Closed else state c)\<rparr>"
  obtain f where f: "tick_conn ip mac now c = Some (c', f)"
    using tick_conn_eq [OF assms(3,4) c(3), of now] unfolding c'_def by blast
  have "slot_ticked ip mac now s s'" using assms(2) by (simp only: now_def)
  then have "s' = Some c'" "conn_ok c'" using f c(1,2) by (simp_all add: slot_ticked_def)
  moreover have "state c' = Closed \<or> (\<exists>p ps. pending c' = p # ps \<and> retries p \<le> 5 \<and> last_tx_tick p = k + due_at (retries p)
        \<and> due_at (retries p) \<le> Suc n \<and> Suc n < due_at (Suc (retries p)))"
  proof (cases "due now p")
    case False
    then have "retry now p = p" "Suc n < due_at (Suc (retries p))"
      using c(6) by (auto simp: retry_def due_def now_def due_at_Suc)
    then show ?thesis using c by (simp add: c'_def)
  next
    case True
    then have n: "Suc n = due_at (Suc (retries p))" using c(6-8) by (simp add: due_def now_def due_at_Suc)
    show ?thesis
    proof (cases "retries p = 5")
      case True
      then have "?g" using \<open>due now p\<close> c(4) by (simp add: MAX_RETRANSMITS_def)
      then show ?thesis by (simp add: c'_def)
    next
      case False
      then have "retry now p = p\<lparr>last_tx_tick := now, retries := Suc (retries p)\<rparr>"
        using \<open>due now p\<close> c(5) by (simp add: retry_def MAX_RETRANSMITS_def)
      then show ?thesis using False c(4,5) n rto_pos [of "Suc (retries p)"]
        by (simp add: c'_def now_def due_at_Suc [of "Suc (retries p)"])
    qed
  qed
  ultimately show ?thesis by (simp add: silent_def)
qed

lemma tick_slot:
  assumes "table_ok t" "i < length (conns t)"
  shows "\<exists>t' fs. tick t now = Some (t', fs) \<and> table_ok t' \<and> length (conns t') = length (conns t)
    \<and> slot_ticked (our_ip t) (our_mac t) now (conns t ! i) (conns t' ! i)"
proof -
  obtain cs fs where "tick t now = Some (t\<lparr>conns := cs\<rparr>, fs)" "table_ok (t\<lparr>conns := cs\<rparr>)"
    "list_all2 (slot_ticked (our_ip t) (our_mac t) now) (conns t) cs" using tick_ok [OF assms(1)] by blast
  then show ?thesis using assms(2) by (auto simp: list_all2_conv_all_nth)
qed

lemma silent_run:
  assumes "table_ok t" "i < length (conns t)" "silent k n (conns t ! i)"
  shows "\<exists>t'. tick_run t [k + Suc n..<k + Suc n + m] = Some t' \<and> table_ok t' \<and> length (conns t') = length (conns t)
    \<and> silent k (n + m) (conns t' ! i)"
  using assms
proof (induction m arbitrary: t n)
  case (Suc m)
  obtain t1 fs where t1: "tick t (k + Suc n) = Some (t1, fs)" "table_ok t1" "length (conns t1) = length (conns t)"
    "slot_ticked (our_ip t) (our_mac t) (k + Suc n) (conns t ! i) (conns t1 ! i)"
    using tick_slot [OF Suc.prems(1,2)] by blast
  have "silent k (Suc n) (conns t1 ! i)" using silent_tick [OF Suc.prems(3) t1(4)] table_okD [OF Suc.prems(1)] by simp
  then obtain t' where "tick_run t1 [k + Suc (Suc n)..<k + Suc (Suc n) + m] = Some t'" "table_ok t'"
    "length (conns t') = length (conns t1)" "silent k (Suc n + m) (conns t' ! i)"
    using Suc.IH [of t1 "Suc n"] t1 Suc.prems(2) by auto
  moreover have "[k + Suc n..<k + Suc n + Suc m] = (k + Suc n) # [k + Suc (Suc n)..<k + Suc (Suc n) + m]"
    by (simp add: upt_rec)
  ultimately show ?case using t1 by simp
qed simp

text \<open>C32: A peer that stays silent is given up. If the oldest queued segment was sent at tick
  \<open>k\<close> and the timer runs at every later tick, then after the retransmissions at 200, 600, 1400, 3000 and
  6200 ticks the connection is closed at tick 9400 at the latest and its slot is free one tick later.\<close>

theorem tcp_gives_up:
  assumes "table_ok t" "conn_at t i = Some c" "pending c = p # ps" "retries p = 0" "last_tx_tick p = k"
  shows "\<exists>t'. tick_run t [k + 1..<k + 9402] = Some t' \<and> conn_at t' i = None"
proof -
  have i: "i < length (conns t)" "conns t ! i = Some c" using assms(2) by (simp_all add: conn_atD)
  have "silent k 0 (conns t ! i)"
    using i assms(3-5) table_okD(5) [OF assms(1,2)] rto_pos [of 0] by (simp add: silent_def due_at_def)
  then obtain t1 where t1: "tick_run t [k + Suc 0..<k + Suc 0 + 9400] = Some t1" "table_ok t1" "length (conns t1) = length (conns t)"
    "silent k (0 + 9400) (conns t1 ! i)" using silent_run [OF assms(1) i(1), of k 0 9400] by blast
  have e: "k + Suc 0 + 9400 = k + 9401" by simp
  have run1: "tick_run t [k + 1..<k + 9401] = Some t1"
    using t1(1) by (simp only: One_nat_def e)
  have "\<not> 9400 < due_at (Suc r)" if "r \<le> 5" for r using due_at_mono [of "Suc r" 6] that by (simp add: due_at_last)
  then have "conns t1 ! i = None \<or> state (the (conns t1 ! i)) = Closed"
    using t1(4) by (auto simp: silent_def split: option.splits)
  moreover obtain t2 fs where t2: "tick t1 (k + 9401) = Some (t2, fs)" "length (conns t2) = length (conns t1)"
    "slot_ticked (our_ip t1) (our_mac t1) (k + 9401) (conns t1 ! i) (conns t2 ! i)"
    using tick_slot [OF t1(2), of i "k + 9401"] i t1(3) by auto
  ultimately have "conn_at t2 i = None" by (cases "conns t1 ! i") (auto simp: slot_ticked_simps conn_at_def)
  moreover have "tick_run t ([k + 1..<k + 9401] @ [k + 9401]) = Some t2"
  proof -
    have "tick_run t (xs @ ys) = Option.bind (tick_run t xs) (\<lambda>u. tick_run u ys)" for t xs ys
      by (induction xs arbitrary: t) (auto split: bind_splits)
    then show ?thesis using t2(1) by (simp only: run1) simp
  qed
  moreover have "k + 9402 = Suc (k + 9401)" "k + 1 \<le> k + 9401" by simp_all
  then have "[k + 1..<k + 9402] = [k + 1..<k + 9401] @ [k + 9401]" using upt_Suc_append by metis
  ultimately show ?thesis by simp
qed

theorem tcp_gives_up_witness:
  "\<exists>t'. tick_run (put_conn demo_table 0 (close_conn demo_conn 5)) [5 + 1..<5 + 9402] = Some t' \<and> conn_at t' 0 = None"
proof -
  have "conn_at demo_table 0 = Some demo_conn" by (simp add: demo_table_def conn_at_def)
  moreover have "conn_ok (close_conn demo_conn 5)" using demo_established by (simp add: established_def close_conn_ok)
  ultimately have "table_ok (put_conn demo_table 0 (close_conn demo_conn 5))"
    by (rule put_conn_ok [OF demo_table_ok]) (simp add: close_conn_def)
  then show ?thesis
    by (rule tcp_gives_up [where c = "close_conn demo_conn 5"])
      (simp_all add: put_conn_def conn_at_def demo_table_def close_conn_def demo_conn_def conn_new_def)+
qed

section \<open>Two defects\<close>

text \<open>C34: The peer's MSS is not capped. A handshake whose SYN-ACK announces a segment size
  above 1546 is accepted, and from then on every \<open>send\<close> of more than 1546 bytes on the connection panics
  the kernel: a chunk no longer fits the 1600-byte frame buffer.\<close>

theorem jumbo_mss_panics:
  assumes "table_ok t" "conn_at t i = Some c" "state c = SynSent" "\<not> has_flag (th_flags h) RST"
    and "has_flag (th_flags h) SYN" "has_flag (th_flags h) ACK" "th_ack h = iss c + 1"
    and "parse_mss options = Some m" "1546 < unat m"
  shows "\<exists>c' r. process_segment c h options [] = Some (c', r) \<and> state c' = Established
    \<and> (\<forall>data now. 1546 < length data \<longrightarrow> tcp_send (put_conn t i c') now i data = None)"
proof -
  obtain c' r where p: "process_segment c h options [] = Some (c', r)" "conn_ok c'"
    using process_segment_ok [OF table_okD(5) [OF assms(1,2)]] by blast
  have c': "state c' = Established" "mss c' = max m 536"
    using p(1) assms(3-8) by (auto simp: process_segment_def syn_sent_segment_def Let_def)
  have m: "1546 < unat (mss c')" using c'(2) assms(9) by (simp add: max_def word_le_nat_alt)
  have at: "conn_at (put_conn t i c') i = Some c'" "length (our_mac t) = 6" "length (peer_mac c') = 6"
    using assms(1,2) p(2) by (simp_all add: conn_at_def put_conn_def table_ok_def conn_ok_def split: if_splits)
  have "tcp_send (put_conn t i c') now i data = None" if d: "1546 < length data" for data now
  proof -
    have "send_loop (our_ip t) (our_mac t) now data c' 0 = None" by (rule send_loop_jumbo [OF at(2,3) m d])
    moreover have "data \<noteq> []" using d by auto
    ultimately show ?thesis using c'(1) at(1) by (simp add: tcp_send_def put_conn_def)
  qed
  then show ?thesis using p(1) c'(1) by blast
qed

definition syn_table :: Table where
  "syn_table = put_conn demo_table 0 (demo_conn\<lparr>state := SynSent\<rparr>)"

theorem jumbo_mss_panics_witness:
  "\<exists>c' r. process_segment (demo_conn\<lparr>state := SynSent\<rparr>) (demo_hdr 0 0xFFFFFFFF (SYN OR ACK)) [2, 4, 0x23, 0x28] [] = Some (c', r)
    \<and> state c' = Established \<and> (\<forall>data now. 1546 < length data \<longrightarrow> tcp_send (put_conn syn_table 0 c') now 0 data = None)"
proof (rule jumbo_mss_panics)
  have at: "conn_at demo_table 0 = Some demo_conn" by (simp add: demo_table_def conn_at_def)
  have "conn_ok (demo_conn\<lparr>state := SynSent\<rparr>)" using demo_established by (simp add: established_def conn_ok_def)
  then show "table_ok syn_table" unfolding syn_table_def by (rule put_conn_ok [OF demo_table_ok at]) simp
  show "conn_at syn_table 0 = Some (demo_conn\<lparr>state := SynSent\<rparr>)"
    by (simp add: syn_table_def put_conn_def conn_at_def demo_table_def)
  show "parse_mss [2, 4, 0x23, 0x28] = Some 0x2328"
    by (simp add: parse_mss_def mss_loop.simps rust_simps u16_be_def)
qed (simp_all add: demo_hdr_def has_flag_def RST_def SYN_def ACK_def demo_conn_def conn_new_def)

text \<open>The end of a connection that this side closes first: our FIN is acknowledged, then the peer's FIN arrives.\<close>

definition graceful_close :: "TcpConn \<Rightarrow> nat \<Rightarrow> conn_op list" where
  "graceful_close c now =
     [CloseOp now,
      Segment (demo_hdr (rcv_nxt c) (snd_nxt c + 1) ACK) [] [],
      Segment (demo_hdr (rcv_nxt c) (snd_nxt c + 1) (FIN OR ACK)) [] []]"

lemma bare_ack_segment:
  assumes "\<not> has_flag (th_flags h) FIN" "\<not> has_flag (th_flags h) SYN"
  shows "synchronized_segment c h [] = (ack_field c h, quiet)"
  using assms by (simp add: synchronized_segment_def payload_field_def fin_field_def quiet_def)

lemma bare_fin_segment:
  assumes "has_flag (th_flags h) FIN" "th_seq h = rcv_nxt c"
  shows "fst (synchronized_segment c h []) = (ack_field c h)\<lparr>rcv_nxt := rcv_nxt c + 1, peer_fin_seen := True,
    state := fin_state (state (ack_field c h))\<rparr>"
  using assms by (simp add: synchronized_fst payload_field_def fin_field_def)

lemma graceful_close_result:
  assumes "established c"
  shows "\<exists>c'. conn_run ip mac (graceful_close c now) (c, [], []) = Some (c', [], []) \<and> conn_ok c' \<and> state c' = TimeWait
    \<and> pending c' = [] \<and> local_port c' = local_port c"
proof -
  define c1 where "c1 = close_conn c now"
  define h1 where "h1 = demo_hdr (rcv_nxt c) (snd_nxt c + 1) ACK"
  define h2 where "h2 = demo_hdr (rcv_nxt c) (snd_nxt c + 1) (FIN OR ACK)"
  define c2 where "c2 = ack_field c1 h1"
  have c: "state c = Established" "pending c = []" "snd_una c = snd_nxt c" using assms(1) by (simp_all add: established_def)
  have lt: "seq_lt (snd_nxt c) (snd_nxt c + 1)" "seq_le (snd_nxt c + 1) (snd_nxt c + 1)" "\<not> seq_lt (snd_nxt c + 1) (snd_nxt c + 1)"
    using seq_cmp [of 0 1 "snd_nxt c"] by (simp_all add: seq_le_def seq_lt_def)
  have h: "th_ack h1 = snd_nxt c + 1" "th_flags h1 = ACK" "th_ack h2 = snd_nxt c + 1" "th_flags h2 = FIN OR ACK" "th_seq h2 = rcv_nxt c"
    by (simp_all add: h1_def h2_def demo_hdr_def)
  have fl: "has_flag ACK ACK" "\<not> has_flag ACK RST" "\<not> has_flag ACK FIN" "\<not> has_flag ACK SYN"
    "\<not> has_flag (FIN OR ACK) RST" "has_flag (FIN OR ACK) FIN"
    by (simp_all add: has_flag_def FIN_def ACK_def RST_def SYN_def)
  have c1: "state c1 = FinWait1" "snd_una c1 = snd_nxt c" "snd_nxt c1 = snd_nxt c + 1" "rcv_nxt c1 = rcv_nxt c"
    "\<forall>p \<in> set (pending c1). ps_seq p + seq_len p = snd_nxt c + 1"
    using c by (simp_all add: c1_def close_conn_def)
  then have "filter (\<lambda>p. seq_lt (snd_nxt c + 1) (ps_seq p + seq_len p)) (pending c1) = []"
    using lt(3) by (simp add: filter_empty_conv)
  then have c2: "state c2 = FinWait2" "pending c2 = []" "snd_una c2 = snd_nxt c + 1" "snd_nxt c2 = snd_nxt c + 1" "rcv_nxt c2 = rcv_nxt c"
    using c1 lt h fl by (simp_all add: c2_def ack_field_def Let_def)
  have s1: "process_segment c1 h1 [] [] = Some (c2, quiet)"
    using c1(1) fl h bare_ack_segment [of h1 c1] by (simp add: process_segment_def c2_def)
  have "ack_field c2 h2 = c2" using c2 lt h by (simp add: ack_field_def)
  then have s2: "fst (synchronized_segment c2 h2 []) = c2\<lparr>rcv_nxt := rcv_nxt c + 1, peer_fin_seen := True, state := TimeWait\<rparr>"
    using bare_fin_segment [of h2 c2] h fl c2 by (simp add: fin_state_def)
  have "conn_run ip mac (graceful_close c now) (c, [], []) = Some (fst (synchronized_segment c2 h2 []), [], [])"
    using c(1) s1 c2(1) h(4) fl(5)
    by (simp add: graceful_close_def c1_def [symmetric] h1_def [symmetric] h2_def [symmetric] process_segment_def case_prod_unfold)
  moreover have "conn_ok (fst (synchronized_segment c2 h2 []))"
    using assms close_conn_ok fields_ok(1) synchronized_ok by (simp add: established_def c1_def c2_def)
  moreover have "local_port c2 = local_port c" by (simp add: c2_def c1_def close_conn_def)
  ultimately show ?thesis using s2 c2 by simp
qed

text \<open>The operations of \<open>tcp.rs\<close> on the table.\<close>

datatype table_op = TConnect nat ip_addr u16 mac_addr | TSend nat nat "byte list" | TClose nat nat | TRead nat nat | TTick nat
  | TSegment Ipv4Header "byte list"

fun table_step :: "Table \<Rightarrow> table_op \<Rightarrow> Table option" where
  "table_step t (TConnect now rip rport mac) = map_option fst (tcp_connect t now rip rport mac)"
| "table_step t (TSend now i data) = map_option fst (tcp_send t now i data)"
| "table_step t (TClose now i) = map_option fst (tcp_close t now i)"
| "table_step t (TRead i n) = Some (fst (tcp_read t i n))"
| "table_step t (TTick now) = map_option fst (tick t now)"
| "table_step t (TSegment ip payload) = map_option fst (handle_segment t ip payload)"

primrec table_run :: "table_op list \<Rightarrow> Table \<Rightarrow> Table option" where
  "table_run [] t = Some t"
| "table_run (op # ops) t = Option.bind (table_step t op) (table_run ops)"

text \<open>Addresses have their length, and a send fits one frame whatever the segment size.\<close>

fun op_bounded :: "table_op \<Rightarrow> bool" where
  "op_bounded (TConnect now rip rport mac) \<longleftrightarrow> length rip = 4 \<and> length mac = 6"
| "op_bounded (TSend now i data) \<longleftrightarrow> length data \<le> 1546"
| "op_bounded (TSegment ip payload) \<longleftrightarrow> length (ip_src ip) = 4"
| "op_bounded _ \<longleftrightarrow> True"

text \<open>The peer of \<open>c\<close> does not reset it.\<close>

fun no_rst :: "TcpConn \<Rightarrow> table_op \<Rightarrow> bool" where
  "no_rst c (TSegment ip payload) \<longleftrightarrow> (case tcp_parse payload of
     Some (Some (h, _, _)) \<Rightarrow> conn_matches c (th_dst_port h) (ip_src ip) (th_src_port h) \<longrightarrow> \<not> has_flag (th_flags h) RST
   | _ \<Rightarrow> True)"
| "no_rst c _ \<longleftrightarrow> True"

lemma no_rst_peer: "same_peer c c' \<Longrightarrow> no_rst c' op = no_rst c op"
  by (cases op) (auto simp: same_peer_def conn_matches_def split: option.splits)

definition lingering :: "TcpConn \<Rightarrow> bool" where
  "lingering c \<longleftrightarrow> state c = TimeWait \<and> pending c = []"

lemma table_step_ok: "table_ok t \<Longrightarrow> op_bounded op \<Longrightarrow> \<exists>t'. table_step t op = Some t' \<and> table_ok t'"
proof (cases op)
  case (TConnect now rip rport mac)
  then show "table_ok t \<Longrightarrow> op_bounded op \<Longrightarrow> ?thesis" using connect_ok [of t rip mac now rport] by auto
next
  case (TSend now i data)
  then show "table_ok t \<Longrightarrow> op_bounded op \<Longrightarrow> ?thesis" using send_ok [of t data i now] by auto
next
  case (TClose now i)
  then show "table_ok t \<Longrightarrow> ?thesis" using close_ok [of t now i] by auto
next
  case (TRead i n)
  then show "table_ok t \<Longrightarrow> ?thesis" using read_ok by simp
next
  case (TTick now)
  then show "table_ok t \<Longrightarrow> ?thesis" using tick_ok [of t now] by auto
next
  case (TSegment ip payload)
  then show "table_ok t \<Longrightarrow> op_bounded op \<Longrightarrow> ?thesis" using handle_segment_ok [of t ip payload] by auto
qed

text \<open>What each operation does to the slot of a lingering connection.\<close>

lemma conn_at_put: "conn_at (put_conn t j d) i = (if i = j \<and> j < length (conns t) then Some d else conn_at t i)"
  by (simp add: conn_at_def put_conn_def)

lemma connect_slot:
  assumes "tcp_connect t now rip rport mac = Some (t', fs, r)" "table_ok t" "conn_at t i = Some c"
  shows "conn_at t' i = Some c"
proof -
  obtain t1 p where a: "alloc_port t = (t1, p)" "conns t1 = conns t"
    using alloc_port_ok [OF assms(2)] by (cases "alloc_port t") auto
  obtain t2 k where b: "next_isn t1 now = (t2, k)" "conns t2 = conns t" using a(2) by (simp add: next_isn_def Let_def)
  show ?thesis
  proof (cases "table_alloc t2")
    case None
    then show ?thesis using assms(1,3) a b by (auto simp: tcp_connect_def conn_atD)
  next
    case (Some j)
    then have "j < length (conns t)" "conns t ! j = None"
      using index_where_Some [of "\<lambda>c. c = None" "conns t" j] b(2) by (simp_all add: table_alloc_def)
    moreover obtain d where "conns t' = (conns t2)[j := Some d]"
      using assms(1) a(1) b(1) Some by (auto simp: tcp_connect_def Let_def aset_def split: bind_splits if_splits)
    moreover have "i \<noteq> j" using calculation assms(3) by (auto simp: conn_atD)
    ultimately show ?thesis using assms(3) b(2) by (simp add: conn_atD)
  qed
qed

lemma tick_lingering:
  assumes "tick t now = Some (t', fs)" "table_ok t" "conn_at t i = Some c" "lingering c"
  shows "conn_at t' i = Some c"
proof -
  obtain cs where cs: "t' = t\<lparr>conns := cs\<rparr>" "list_all2 (slot_ticked (our_ip t) (our_mac t) now) (conns t) cs"
    using tick_ok [OF assms(2), of now] assms(1) by auto
  have i: "i < length (conns t)" "conns t ! i = Some c" using assms(3) by (simp_all add: conn_atD)
  have "tick_conn ip mac now c = Some (c\<lparr>pending := [], state := TimeWait\<rparr>, [])" for ip mac
    using assms(4) by (simp add: tick_conn_def lingering_def)
  moreover have "c\<lparr>pending := [], state := TimeWait\<rparr> = c" using assms(4) by (simp add: lingering_def)
  ultimately have "cs ! i = Some c" using list_all2_nthD [OF cs(2) i(1)] i(2) assms(4) by (auto simp: slot_ticked_def lingering_def)
  then show ?thesis using cs(1) i(1) list_all2_lengthD [OF cs(2)] by (simp add: conn_atD)
qed

lemma segment_lingering:
  assumes "handle_segment t ip payload = Some (t', fs, r)" "conn_at t i = Some c" "lingering c" "no_rst c (TSegment ip payload)"
  shows "conn_at t' i = Some c"
proof -
  have "tcp_parse payload = Some None \<or> (\<exists>h opts data. tcp_parse payload = Some (Some (h, opts, data)))"
    using tcp_parse_cases [of payload] by blast
  then show ?thesis
  proof (elim disjE exE)
    fix h opts data assume p: "tcp_parse payload = Some (Some (h, opts, data))"
    show ?thesis
    proof (cases "find_mut t (th_dst_port h) (ip_src ip) (th_src_port h)")
      case (Some j)
      then obtain d where j: "j < length (conns t)" "conns t ! j = Some d" "conn_matches d (th_dst_port h) (ip_src ip) (th_src_port h)"
        using index_where_Some [of "\<lambda>c. case c of None \<Rightarrow> False | Some x \<Rightarrow> conn_matches x (th_dst_port h) (ip_src ip) (th_src_port h)" "conns t" j]
        by (auto simp: find_mut_def split: option.splits)
      obtain d' res where d': "process_segment d h opts data = Some (d', res)" "t' = put_conn t j d'"
        using assms(1) p Some j by (auto simp: handle_segment_def rust_simps Let_def split: bind_splits)
      show ?thesis
      proof (cases "i = j")
        case True
        then have "d = c" using j assms(2) by (simp add: conn_atD)
        then have "d' = c" using d'(1) assms(3,4) p j(3) by (simp add: process_segment_def lingering_def)
        then show ?thesis using d'(2) True j(1) by (simp add: conn_at_put)
      qed (use d'(2) assms(2) in \<open>simp add: conn_at_put\<close>)
    qed (use p assms(1,2) in \<open>simp add: handle_segment_def\<close>)
  qed (use assms(1,2) in \<open>simp add: handle_segment_def\<close>)
qed

lemma table_step_lingering:
  assumes "table_step t op = Some t'" "table_ok t" "conn_at t i = Some c" "lingering c" "no_rst c op"
  shows "\<exists>c'. conn_at t' i = Some c' \<and> lingering c' \<and> same_peer c c'"
proof (cases op)
  case (TConnect now rip rport mac)
  then obtain fs r where "tcp_connect t now rip rport mac = Some (t', fs, r)" using assms(1) by auto
  then have "conn_at t' i = Some c" by (rule connect_slot [OF _ assms(2,3)])
  then show ?thesis using assms(4) by (simp add: same_peer_def)
next
  case (TSend now j data)
  then have "conn_at t' i = Some c" using assms(1,3,4)
    by (auto simp: tcp_send_def lingering_def conn_at_put split: if_splits option.splits bind_splits)
  then show ?thesis using assms(4) by (simp add: same_peer_def)
next
  case (TClose now j)
  then have "conn_at t' i = Some c" using assms(1,3,4)
    by (auto simp: tcp_close_def lingering_def conn_at_put split: if_splits option.splits bind_splits)
  then show ?thesis using assms(4) by (simp add: same_peer_def)
next
  case (TRead j n)
  then show ?thesis using assms(1,3,4)
    by (auto simp: tcp_read_def case_prod_unfold Let_def conn_at_put conn_read_def lingering_def same_peer_def split: if_splits option.splits)
next
  case (TTick now)
  then obtain fs where "tick t now = Some (t', fs)" using assms(1) by auto
  then have "conn_at t' i = Some c" by (rule tick_lingering [OF _ assms(2-4)])
  then show ?thesis using assms(4) by (simp add: same_peer_def)
next
  case (TSegment ip payload)
  then obtain fs r where "handle_segment t ip payload = Some (t', fs, r)" using assms(1) by auto
  then have "conn_at t' i = Some c" by (rule segment_lingering [OF _ assms(3,4)]) (use assms(5) TSegment in simp)
  then show ?thesis using assms(4) by (simp add: same_peer_def)
qed

lemma table_run_lingering:
  "table_ok t \<Longrightarrow> list_all op_bounded ops \<Longrightarrow> conn_at t i = Some c \<Longrightarrow> lingering c \<Longrightarrow> list_all (no_rst c) ops
   \<Longrightarrow> \<exists>t' c'. table_run ops t = Some t' \<and> conn_at t' i = Some c' \<and> lingering c'"
proof (induction ops arbitrary: t c)
  case (Cons op ops)
  obtain t1 where t1: "table_step t op = Some t1" "table_ok t1" using table_step_ok [of t op] Cons.prems by auto
  obtain c1 where c1: "conn_at t1 i = Some c1" "lingering c1" "same_peer c c1"
    using table_step_lingering [OF t1(1) Cons.prems(1,3,4)] Cons.prems(5) by auto
  then have "list_all (no_rst c1) ops" using Cons.prems(5) no_rst_peer [OF c1(3)] by (simp add: list_all_iff)
  then show ?case using Cons.IH [OF t1(2) _ c1(1,2)] Cons.prems(2) t1(1) by auto
qed auto

lemma table_run_ok: "table_ok t \<Longrightarrow> list_all op_bounded ops \<Longrightarrow> \<exists>t'. table_run ops t = Some t' \<and> table_ok t'"
proof (induction ops arbitrary: t)
  case (Cons op ops)
  then obtain t1 where "table_step t op = Some t1" "table_ok t1" using table_step_ok [of t op] by auto
  then show ?case using Cons.IH [of t1] Cons.prems by auto
qed simp

lemma connect_full:
  assumes "table_ok t" "\<And>i. i < MAX_CONNS \<Longrightarrow> conn_at t i \<noteq> None"
  shows "\<exists>t'. tcp_connect t now rip rport mac = Some (t', [], Inl NoSlot)"
proof -
  obtain t1 p where a: "alloc_port t = (t1, p)" "conns t1 = conns t"
    using alloc_port_ok [OF assms(1)] by (cases "alloc_port t") auto
  obtain t2 k where b: "next_isn t1 now = (t2, k)" "conns t2 = conns t" using a(2) by (simp add: next_isn_def Let_def)
  have "index_where (\<lambda>c. c = None) (conns t) = None"
    using assms table_okD(3) [OF assms(1)] by (fastforce simp: index_where_None in_set_conv_nth conn_at_def)
  then show ?thesis using a b by (simp add: tcp_connect_def table_alloc_def)
qed

text \<open>The two exits: a reset of the peer closes the connection, and the next tick frees a closed one.\<close>

lemma rst_frees_time_wait:
  assumes "table_ok t" "conn_at t i = Some c" "has_flag (th_flags h) RST" "process_segment c h options data = Some (c', r)"
  shows "\<exists>t' fs. tick (put_conn t i c') now = Some (t', fs) \<and> conn_at t' i = None"
proof -
  have c': "c' = c\<lparr>state := Closed\<rparr>" using assms(3,4) by (simp add: process_segment_def)
  have "conn_ok c'" using table_okD(5) [OF assms(1,2)] by (simp add: c' conn_ok_def)
  then have ok: "table_ok (put_conn t i c')" using put_conn_ok [OF assms(1,2)] by (simp add: c')
  have i: "i < length (conns t)" using assms(2) by (simp add: conn_atD)
  obtain cs fs where cs: "tick (put_conn t i c') now = Some ((put_conn t i c')\<lparr>conns := cs\<rparr>, fs)"
    "list_all2 (slot_ticked (our_ip t) (our_mac t) now) (conns (put_conn t i c')) cs"
    using tick_ok [OF ok, of now] by (auto simp: put_conn_def)
  have "cs ! i = None" using list_all2_nthD [OF cs(2), of i] i by (simp add: put_conn_def slot_ticked_simps c')
  then show ?thesis using cs(1) by (simp add: conn_at_def)
qed

text \<open>C33: A connection in \<open>TimeWait\<close> with nothing left to retransmit (the end of a close that this
  side started and the peer answered) keeps its slot for good unless its peer sends a reset: over any
  sequence of connects, sends, closes, reads, timer ticks and segments without such a reset, with
  sends of at most 1546 bytes, nothing panics and the connection stays in \<open>TimeWait\<close>. Once such
  connections fill the table, every \<open>connect\<close> fails with \<open>NoSlot\<close>.\<close>

theorem time_wait_leaks:
  assumes "table_ok t" "list_all op_bounded ops"
    and "\<And>i. i \<in> I \<Longrightarrow> \<exists>c. conn_at t i = Some c \<and> lingering c \<and> list_all (no_rst c) ops"
  shows "\<exists>t'. table_run ops t = Some t' \<and> (\<forall>i \<in> I. tcp_state t' i = Some TimeWait)
    \<and> ({..<MAX_CONNS} \<subseteq> I \<longrightarrow> (\<exists>t''. tcp_connect t' now rip rport mac = Some (t'', [], Inl NoSlot)))"
proof -
  obtain t' where t': "table_run ops t = Some t'" "table_ok t'" using table_run_ok [OF assms(1,2)] by blast
  have st: "tcp_state t' i = Some TimeWait" if "i \<in> I" for i
    using assms(3) [OF that] table_run_lingering [OF assms(1,2)] t'(1) by (fastforce simp: tcp_state_def lingering_def)
  then have "{..<MAX_CONNS} \<subseteq> I \<Longrightarrow> \<exists>t''. tcp_connect t' now rip rport mac = Some (t'', [], Inl NoSlot)"
    by (intro connect_full [OF t'(2)]) (force simp: tcp_state_def)
  then show ?thesis using t'(1) st by blast
qed

definition port_conn :: "nat \<Rightarrow> TcpConn" where
  "port_conn k = demo_conn\<lparr>local_port := 49152 + of_nat k\<rparr>"

definition tw_table :: Table where
  "tw_table = demo_table\<lparr>conns := map (\<lambda>k. map_option fst (conn_run (our_ip demo_table) (our_mac demo_table)
     (graceful_close (port_conn k) 5) (port_conn k, [], []))) [0..<8]\<rparr>"

lemma port_conn_established: "established (port_conn k)"
  using demo_established by (simp add: established_def port_conn_def conn_ok_def)

lemma tw_slot:
  assumes "k < 8"
  shows "\<exists>c. conns tw_table ! k = Some c \<and> conn_ok c \<and> local_port c = 49152 + of_nat k \<and> lingering c"
proof -
  obtain c where c: "conn_run (our_ip demo_table) (our_mac demo_table) (graceful_close (port_conn k) 5) (port_conn k, [], []) = Some (c, [], [])"
    "conn_ok c" "local_port c = local_port (port_conn k)" "lingering c"
    using graceful_close_result [OF port_conn_established] unfolding lingering_def by blast
  have "conns tw_table ! k = Some c" using assms c(1) by (simp add: tw_table_def)
  then show ?thesis using c by (simp add: tw_table_def port_conn_def)
qed

lemma tw_table_ok: "table_ok tw_table"
proof -
  have len: "length (conns tw_table) = 8" by (simp add: tw_table_def)
  have "conns_ok (conns tw_table)"
  proof (rule conns_okI)
    fix i c assume "i < length (conns tw_table)" "conns tw_table ! i = Some c"
    then show "conn_ok c" using tw_slot [of i] len by auto
  next
    fix i j c d assume a: "i < length (conns tw_table)" "j < length (conns tw_table)" "conns tw_table ! i = Some c"
      "conns tw_table ! j = Some d" "local_port c = local_port d"
    then have "(of_nat i :: u16) = of_nat j" using tw_slot [of i] tw_slot [of j] len by auto
    then have "unat (of_nat i :: u16) = unat (of_nat j :: u16)" by simp
    moreover have "unat (of_nat i :: u16) = i" "unat (of_nat j :: u16) = j"
      using a(1,2) len by (simp_all add: unat_of_nat_small)
    ultimately show "i = j" by simp
  qed
  then show ?thesis using demo_table_ok len by (simp add: table_ok_def tw_table_def MAX_CONNS_def)
qed

theorem time_wait_leaks_witness:
  "\<exists>t'. table_run [TTick 100, TClose 200 3, TConnect 300 [10, 0, 2, 2] 80 [82, 84, 0, 0, 0, 1], TRead 2 10, TTick 1000000] tw_table = Some t'
    \<and> (\<forall>i \<in> {..<MAX_CONNS}. tcp_state t' i = Some TimeWait)
    \<and> ({..<MAX_CONNS} \<subseteq> {..<MAX_CONNS} \<longrightarrow>
        (\<exists>t''. tcp_connect t' 1000001 [10, 0, 2, 2] 80 [82, 84, 0, 0, 0, 1] = Some (t'', [], Inl NoSlot)))"
proof (rule time_wait_leaks [OF tw_table_ok])
  fix i assume "i \<in> {..<MAX_CONNS}"
  then have "i < 8" by (simp add: MAX_CONNS_def)
  from tw_slot [OF this] obtain c where c: "conns tw_table ! i = Some c" "lingering c" by blast
  moreover have "i < length (conns tw_table)" using \<open>i < 8\<close> by (simp add: tw_table_def)
  ultimately show "\<exists>c. conn_at tw_table i = Some c \<and> lingering c
      \<and> list_all (no_rst c) [TTick 100, TClose 200 3, TConnect 300 [10, 0, 2, 2] 80 [82, 84, 0, 0, 0, 1], TRead 2 10, TTick 1000000]"
    by (simp add: conn_at_def)
qed simp

end
