(* ===== verification/NetStack.thy ===== *)
theory NetStack imports TcpTable begin

text \<open>
  The IP stack (\<open>kernel/src/net/stack.rs\<close>): frame reception and dispatch to ARP, ICMP, UDP/DNS and
  TCP, the senders, the boot-time demo state machine, and the waiting loops of \<open>resolve\<close> and
  \<open>ping_once\<close>. The state is the stack, the TCP table and the frames handed to the card, oldest first;
  \<open>now\<close> is \<open>pit::ticks()\<close>. The two locks make the sections they guard atomic; the serial log is not
  modelled. A waiting loop consumes a list of events, one per iteration: the tick and the frames that
  the card has then.
\<close>

section \<open>State\<close>

definition OUR_IP :: ip_addr where "OUR_IP = [10, 0, 2, 15]"
definition GATEWAY_IP :: ip_addr where "GATEWAY_IP = [10, 0, 2, 2]"
definition DNS_IP :: ip_addr where "DNS_IP = [10, 0, 2, 3]"

datatype DemoStage = Idle | AwaitGatewayArp | AwaitIcmpReply | AwaitDnsArp | AwaitDnsReply | AwaitTcpEstablished
  | AwaitHttpResponse | Done

record DnsQueryState =
  q_id :: u16
  q_src_port :: u16
  q_completed :: bool
  q_resolved_ip :: ip_addr
  q_failed :: bool

record Stack =
  st_mac :: mac_addr
  arp_cache :: ArpCache
  ip_id :: u16
  next_icmp_seq :: u16
  echo_replies :: u32
  demo :: DemoStage
  dns_src_port :: u16
  dns_id :: u16
  dns_query :: "byte list"
  resolved_ip :: ip_addr
  http_conn :: "nat option"
  query_pending :: "DnsQueryState option"

definition stack_new :: Stack where
  "stack_new = \<lparr>st_mac = replicate 6 0, arp_cache = arp_cache_new, ip_id = 1, next_icmp_seq = 1, echo_replies = 0, demo = Idle,
     dns_src_port = 0, dns_id = 0, dns_query = [], resolved_ip = replicate 4 0, http_conn = None, query_pending = None\<rparr>"

record Net =
  stk :: Stack
  tab :: Table
  tx :: "byte list list"

definition on_stk :: "(Stack \<Rightarrow> Stack) \<Rightarrow> Net \<Rightarrow> Net" where
  "on_stk f s = s\<lparr>stk := f (stk s)\<rparr>"

text \<open>\<open>init\<close> with a card that has the given address.\<close>

definition net_init :: "mac_addr \<Rightarrow> Net" where
  "net_init mac = \<lparr>stk = stack_new\<lparr>st_mac := mac\<rparr>, tab = tcp_init table_new OUR_IP mac, tx = []\<rparr>"

definition transmit :: "Net \<Rightarrow> byte list \<Rightarrow> Net" where
  "transmit s frame = s\<lparr>tx := tx s @ [frame]\<rparr>"

definition next_hop_mac :: "Net \<Rightarrow> ip_addr \<Rightarrow> mac_addr option" where
  "next_hop_mac s ip =
     (let on_subnet = ip ! 0 = OUR_IP ! 0 \<and> ip ! 1 = OUR_IP ! 1 \<and> ip ! 2 = OUR_IP ! 2;
          target = (if on_subnet then ip else GATEWAY_IP)
      in arp_lookup (arp_cache (stk s)) target)"

section \<open>Sending\<close>

definition send_arp_request :: "Net \<Rightarrow> ip_addr \<Rightarrow> Net option" where
  "send_arp_request s tgt = do {
     buf \<leftarrow> build_request (replicate ARP_FRAME_LEN 0) (st_mac (stk s)) OUR_IP tgt;
     Some (transmit s buf) }"

text \<open>A frame in a buffer of \<open>N\<close> bytes: Ethernet header, payload, the transport header by \<open>wr\<close> on the
  slice of the message, then the IPv4 header. The senders write this sequence out.\<close>

definition ip_frame :: "nat \<Rightarrow> mac_addr \<Rightarrow> mac_addr \<Rightarrow> ip_addr \<Rightarrow> byte \<Rightarrow> nat \<Rightarrow> byte list \<Rightarrow> u16 \<Rightarrow> (byte list \<Rightarrow> byte list option)
    \<Rightarrow> byte list option" where
  "ip_frame N dst_mac src_mac dst_ip proto hdr_len payload ident wr = do {
     buf \<leftarrow> write_header (replicate N 0) dst_mac src_mac ETHERTYPE_IPV4;
     let off = ETH_HDR_LEN + IPV4_HDR_LEN;
     let msg_len = hdr_len + length payload;
     buf \<leftarrow> copy_at buf (off + hdr_len) (off + msg_len) payload;
     buf \<leftarrow> with_slice buf off (off + msg_len) wr;
     buf \<leftarrow> with_slice buf ETH_HDR_LEN (ETH_HDR_LEN + IPV4_HDR_LEN) (\<lambda>h. ipv4_write h OUR_IP dst_ip proto msg_len ident);
     aslice buf 0 (ETH_HDR_LEN + (IPV4_HDR_LEN + msg_len)) }"

definition send_icmp_echo :: "Net \<Rightarrow> ip_addr \<Rightarrow> byte list \<Rightarrow> (Net \<times> bool) option" where
  "send_icmp_echo s dst_ip payload =
     (case arp_lookup (arp_cache (stk s)) dst_ip of
        None \<Rightarrow> Some (s, False)
      | Some mac \<Rightarrow>
          let ident = ip_id (stk s) + 1;
              seq = next_icmp_seq (stk s);
              s = on_stk (\<lambda>k. k\<lparr>ip_id := ident, next_icmp_seq := seq + 1\<rparr>) s
          in if ETH_HDR_LEN + (IPV4_HDR_LEN + (ICMP_HDR_LEN + length payload)) > 1500 then Some (s, False)
             else do {
               frame \<leftarrow> ip_frame 128 mac (st_mac (stk s)) dst_ip PROTO_ICMP ICMP_HDR_LEN payload ident
                 (\<lambda>m. write_echo m TYPE_ECHO_REQUEST 0x1234 seq (length payload));
               Some (transmit s frame, True) })"

definition start_demo :: "Net \<Rightarrow> byte list \<Rightarrow> Net option" where
  "start_demo s query = send_arp_request (on_stk (\<lambda>k. k\<lparr>demo := AwaitGatewayArp, dns_query := query\<rparr>) s) GATEWAY_IP"

definition send_udp :: "Net \<Rightarrow> ip_addr \<Rightarrow> u16 \<Rightarrow> u16 \<Rightarrow> byte list \<Rightarrow> (Net \<times> bool) option" where
  "send_udp s dst_ip src_port dst_port payload =
     (if ETH_HDR_LEN + (IPV4_HDR_LEN + (UDP_HDR_LEN + length payload)) > 1500 then Some (s, False)
      else case arp_lookup (arp_cache (stk s)) dst_ip of
        None \<Rightarrow> Some (s, False)
      | Some mac \<Rightarrow>
          let ident = ip_id (stk s) + 1;
              s = on_stk (\<lambda>k. k\<lparr>ip_id := ident\<rparr>) s
          in do {
               frame \<leftarrow> ip_frame 1514 mac (st_mac (stk s)) dst_ip PROTO_UDP UDP_HDR_LEN payload ident
                 (\<lambda>m. udp_write m OUR_IP dst_ip src_port dst_port (length payload));
               Some (transmit s frame, True) })"

definition send_dns_query :: "Net \<Rightarrow> byte list \<Rightarrow> (Net \<times> bool) option" where
  "send_dns_query s nm = do {
     r \<leftarrow> build_query_a (replicate 128 0) 0xABCD nm;
     case r of Inl _ \<Rightarrow> Some (s, False)
     | Inr (payload, qlen) \<Rightarrow> do {
         let s = on_stk (\<lambda>k. k\<lparr>dns_src_port := 52015, dns_id := 0xABCD\<rparr>) s;
         q \<leftarrow> aslice payload 0 qlen;
         send_udp s DNS_IP 52015 DNS_PORT q } }"

section \<open>TCP callbacks\<close>

text \<open>The request \<open>"GET / HTTP/1.0\r\nHost: example.com\r\nConnection: close\r\n\r\n"\<close>.\<close>

definition http_request :: "byte list" where
  "http_request = [71, 69, 84, 32, 47, 32, 72, 84, 84, 80, 47, 49, 46, 48, 13, 10,
     72, 111, 115, 116, 58, 32, 101, 120, 97, 109, 112, 108, 101, 46, 99, 111, 109, 13, 10,
     67, 111, 110, 110, 101, 99, 116, 105, 111, 110, 58, 32, 99, 108, 111, 115, 101, 13, 10, 13, 10]"

definition on_tcp_established :: "Net \<Rightarrow> nat \<Rightarrow> nat \<Rightarrow> Net option" where
  "on_tcp_established s now i =
     (if \<not> (demo (stk s) = AwaitTcpEstablished \<and> http_conn (stk s) = Some i) then Some s
      else do {
        (t, frames, r) \<leftarrow> tcp_send (tab s) now i http_request;
        let s = s\<lparr>tab := t, tx := tx s @ frames\<rparr>;
        Some (on_stk (\<lambda>k. k\<lparr>demo := (case r of Inr _ \<Rightarrow> AwaitHttpResponse | Inl _ \<Rightarrow> Done)\<rparr>) s) })"

definition on_tcp_data :: "Net \<Rightarrow> nat \<Rightarrow> nat \<Rightarrow> Net option" where
  "on_tcp_data s now i =
     (if \<not> (demo (stk s) = AwaitHttpResponse \<and> http_conn (stk s) = Some i) then Some s
      else let (t, bs) = tcp_read (tab s) i 512; s = s\<lparr>tab := t\<rparr>
      in if bs = [] then Some s
         else do {
           (t, frames, _) \<leftarrow> tcp_close (tab s) now i;
           Some (on_stk (\<lambda>k. k\<lparr>demo := Done\<rparr>) (s\<lparr>tab := t, tx := tx s @ frames\<rparr>)) })"

definition on_tcp_closed :: "Net \<Rightarrow> nat \<Rightarrow> Net" where
  "on_tcp_closed s i = (if http_conn (stk s) = Some i then on_stk (\<lambda>k. k\<lparr>http_conn := None\<rparr>) s else s)"

definition tcp_input :: "Net \<Rightarrow> nat \<Rightarrow> Ipv4Header \<Rightarrow> byte list \<Rightarrow> Net option" where
  "tcp_input s now ip payload = do {
     (t, frames, r) \<leftarrow> handle_segment (tab s) ip payload;
     let s = s\<lparr>tab := t, tx := tx s @ frames\<rparr>;
     case r of
       None \<Rightarrow> Some s
     | Some (i, n) \<Rightarrow> (case n of
           NotifyNone \<Rightarrow> Some s
         | NotifyEstablished _ _ \<Rightarrow> on_tcp_established s now i
         | NotifyDataReady _ _ _ \<Rightarrow> on_tcp_data s now i
         | NotifyClosed _ _ \<Rightarrow> Some (on_tcp_closed s i)) }"

section \<open>Receiving\<close>

datatype DemoFollowup = FollowNone | PingGateway | SendDns "byte list"

text \<open>\<open>b"RacOS ICMP echo Phase E.2"\<close>.\<close>

definition ping_payload :: "byte list" where
  "ping_payload = [82, 97, 99, 79, 83, 32, 73, 67, 77, 80, 32, 101, 99, 104, 111, 32, 80, 104, 97, 115, 101, 32, 69, 46, 50]"

text \<open>The three parts of \<open>handle_arp\<close>: learn the sender, answer a request for our address, follow up.\<close>

definition arp_learn :: "Net \<Rightarrow> ArpPacket \<Rightarrow> (Net \<times> DemoFollowup) option" where
  "arp_learn s pkt = do {
     cache \<leftarrow> arp_insert (arp_cache (stk s)) (sender_ip pkt) (sender_mac pkt);
     let s = on_stk (\<lambda>k. k\<lparr>arp_cache := cache\<rparr>) s;
     Some (if demo (stk s) = AwaitGatewayArp \<and> sender_ip pkt = GATEWAY_IP
           then (on_stk (\<lambda>k. k\<lparr>demo := AwaitIcmpReply\<rparr>) s, PingGateway)
           else if demo (stk s) = AwaitDnsArp \<and> sender_ip pkt = DNS_IP
           then (on_stk (\<lambda>k. k\<lparr>demo := AwaitDnsReply\<rparr>) s, SendDns (dns_query (stk s)))
           else (s, FollowNone)) }"

definition arp_answer :: "Net \<Rightarrow> ArpPacket \<Rightarrow> Net option" where
  "arp_answer s pkt =
     (if arp_op pkt = OP_REQUEST \<and> target_ip pkt = OUR_IP
      then map_option (transmit s)
        (build_reply (replicate ARP_FRAME_LEN 0) (st_mac (stk s)) OUR_IP (sender_mac pkt) (sender_ip pkt))
      else Some s)"

definition arp_follow :: "Net \<Rightarrow> DemoFollowup \<Rightarrow> Net option" where
  "arp_follow s nxt =
     (case nxt of
        PingGateway \<Rightarrow> map_option fst (send_icmp_echo s GATEWAY_IP ping_payload)
      | SendDns nm \<Rightarrow> map_option fst (send_dns_query s nm)
      | FollowNone \<Rightarrow> Some s)"

definition handle_arp :: "Net \<Rightarrow> byte list \<Rightarrow> Net option" where
  "handle_arp s payload = do {
     r \<leftarrow> arp_parse payload;
     case r of None \<Rightarrow> Some s
     | Some pkt \<Rightarrow> do {
         (s, nxt) \<leftarrow> arp_learn s pkt;
         s \<leftarrow> arp_answer s pkt;
         arp_follow s nxt } }"

definition dns_id_mismatch :: "byte list \<Rightarrow> u16 \<Rightarrow> bool option" where
  "dns_id_mismatch data ident = (if 2 \<le> length data then do { rid \<leftarrow> get_u16 data 0; Some (rid \<noteq> ident) } else Some False)"

definition userland_reply :: "Net \<Rightarrow> DnsQueryState \<Rightarrow> byte list \<Rightarrow> Net option" where
  "userland_reply s q data = do {
     bad \<leftarrow> dns_id_mismatch data (q_id q);
     if bad then Some s
     else do {
       r \<leftarrow> parse_first_a data;
       let q = (case r of Inr ip4 \<Rightarrow> q\<lparr>q_resolved_ip := ip4, q_completed := True\<rparr>
                | Inl _ \<Rightarrow> q\<lparr>q_failed := True, q_completed := True\<rparr>);
       Some (on_stk (\<lambda>k. k\<lparr>query_pending := Some q\<rparr>) s) } }"

definition demo_reply :: "Net \<Rightarrow> nat \<Rightarrow> byte list \<Rightarrow> Net option" where
  "demo_reply s now data = do {
     bad \<leftarrow> dns_id_mismatch data (dns_id (stk s));
     if bad then Some s
     else do {
       r \<leftarrow> parse_first_a data;
       case r of Inl _ \<Rightarrow> Some s
       | Inr ip4 \<Rightarrow>
           let s = on_stk (\<lambda>k. k\<lparr>resolved_ip := ip4, demo := AwaitTcpEstablished\<rparr>) s
           in (case next_hop_mac s ip4 of
                 None \<Rightarrow> Some (on_stk (\<lambda>k. k\<lparr>demo := Done\<rparr>) s)
               | Some mac \<Rightarrow> do {
                   (t, frames, c) \<leftarrow> tcp_connect (tab s) now ip4 80 mac;
                   let s = s\<lparr>tab := t, tx := tx s @ frames\<rparr>;
                   Some (case c of Inr i \<Rightarrow> on_stk (\<lambda>k. k\<lparr>http_conn := Some i\<rparr>) s
                         | Inl _ \<Rightarrow> on_stk (\<lambda>k. k\<lparr>demo := Done\<rparr>) s) }) } }"

definition handle_udp :: "Net \<Rightarrow> nat \<Rightarrow> Ipv4Header \<Rightarrow> byte list \<Rightarrow> Net option" where
  "handle_udp s now ip payload = do {
     r \<leftarrow> udp_parse payload;
     case r of None \<Rightarrow> Some s
     | Some (hdr, data) \<Rightarrow>
         let from_dns = (ip_src ip = DNS_IP \<and> udp_src_port hdr = DNS_PORT)
         in (case query_pending (stk s) of
               Some q \<Rightarrow>
                 if from_dns \<and> udp_dst_port hdr = q_src_port q then userland_reply s q data
                 else if demo (stk s) = AwaitDnsReply \<and> from_dns \<and> udp_dst_port hdr = dns_src_port (stk s) then demo_reply s now data
                 else Some s
             | None \<Rightarrow>
                 if demo (stk s) = AwaitDnsReply \<and> from_dns \<and> udp_dst_port hdr = dns_src_port (stk s) then demo_reply s now data
                 else Some s) }"

text \<open>The two arms of \<open>handle_icmp\<close>.\<close>

definition echo_reply_arm :: "Net \<Rightarrow> Net option" where
  "echo_reply_arm s =
     (let s = on_stk (\<lambda>k. k\<lparr>echo_replies := echo_replies k + 1\<rparr>) s
      in if demo (stk s) = AwaitIcmpReply
         then send_arp_request (on_stk (\<lambda>k. k\<lparr>demo := AwaitDnsArp\<rparr>) s) DNS_IP
         else Some s)"

definition echo_request_arm :: "Net \<Rightarrow> ip_addr \<Rightarrow> u16 \<Rightarrow> u16 \<Rightarrow> byte list \<Rightarrow> Net option" where
  "echo_request_arm s src ident seq payload =
     (if ETH_HDR_LEN + IPV4_HDR_LEN + (ICMP_HDR_LEN + length payload) > 128 then Some s
      else case arp_lookup (arp_cache (stk s)) src of
        None \<Rightarrow> Some s
      | Some dst_mac \<Rightarrow>
          let iid = ip_id (stk s) + 1;
              s = on_stk (\<lambda>k. k\<lparr>ip_id := iid\<rparr>) s
          in do {
            frame \<leftarrow> ip_frame 128 dst_mac (st_mac (stk s)) src PROTO_ICMP ICMP_HDR_LEN payload iid
              (\<lambda>m. write_echo m TYPE_ECHO_REPLY ident seq (length payload));
            Some (transmit s frame) })"

definition handle_icmp :: "Net \<Rightarrow> Ipv4Header \<Rightarrow> byte list \<Rightarrow> Net option" where
  "handle_icmp s ip msg = do {
     r \<leftarrow> icmp_parse msg;
     case r of None \<Rightarrow> Some s
     | Some (t, _, ident, seq, payload) \<Rightarrow>
         if t = TYPE_ECHO_REPLY then echo_reply_arm s
         else if t = TYPE_ECHO_REQUEST then echo_request_arm s (ip_src ip) ident seq payload
         else Some s }"

definition handle_ipv4 :: "Net \<Rightarrow> nat \<Rightarrow> byte list \<Rightarrow> Net option" where
  "handle_ipv4 s now payload = do {
     r \<leftarrow> ipv4_parse payload;
     case r of None \<Rightarrow> Some s
     | Some (hdr, ip_payload) \<Rightarrow>
         if ip_dst hdr \<noteq> OUR_IP then Some s
         else if protocol hdr = PROTO_ICMP then handle_icmp s hdr ip_payload
         else if protocol hdr = PROTO_UDP then handle_udp s now hdr ip_payload
         else if protocol hdr = PROTO_TCP then tcp_input s now hdr ip_payload
         else Some s }"

definition on_frame :: "Net \<Rightarrow> nat \<Rightarrow> byte list \<Rightarrow> Net option" where
  "on_frame s now frame = do {
     r \<leftarrow> eth_parse frame;
     case r of None \<Rightarrow> Some s
     | Some (hdr, payload) \<Rightarrow>
         if ethertype hdr = ETHERTYPE_ARP then handle_arp s payload
         else if ethertype hdr = ETHERTYPE_IPV4 then handle_ipv4 s now payload
         else Some s }"

text \<open>\<open>poll\<close> with the frames the card has; an empty frame ends it.\<close>

primrec poll :: "Net \<Rightarrow> nat \<Rightarrow> byte list list \<Rightarrow> Net option" where
  "poll s now [] = Some s"
| "poll s now (f # fs) = (if f = [] then Some s else do { s \<leftarrow> on_frame s now f; poll s now fs })"

section \<open>Waiting for an answer\<close>

text \<open>The loops of \<open>resolve\<close> and \<open>ping_once\<close>; the inner \<open>None\<close> means that they are still waiting when
  the events are used up.\<close>

fun resolve_loop :: "Net \<Rightarrow> byte list \<Rightarrow> nat \<Rightarrow> bool \<Rightarrow> (nat \<times> byte list list) list \<Rightarrow> (Net \<times> ip_addr option option) option" where
  "resolve_loop s frame start retransmitted [] = Some (s, None)"
| "resolve_loop s frame start retransmitted ((now, frames) # evs) =
     (let elapsed = now - start in
      case query_pending (stk s) of
        None \<Rightarrow> Some (s, Some None)
      | Some q \<Rightarrow>
          if q_completed q \<and> \<not> q_failed q then Some (s, Some (Some (q_resolved_ip q)))
          else if q_failed q then Some (s, Some None)
          else if elapsed > 3000 then Some (s, Some None)
          else do {
            let again = (\<not> retransmitted \<and> elapsed > 1000);
            let s = (if again then transmit s frame else s);
            s \<leftarrow> poll s now frames;
            resolve_loop s frame start (retransmitted \<or> again) evs })"

text \<open>\<open>resolve\<close>: \<open>t0\<close> is the tick at which it is called, \<open>start\<close> the one at which the wait begins.\<close>

definition resolve :: "Net \<Rightarrow> nat \<Rightarrow> nat \<Rightarrow> byte list \<Rightarrow> (nat \<times> byte list list) list \<Rightarrow> (Net \<times> ip_addr option option) option" where
  "resolve s t0 start nm evs =
     (case next_hop_mac s DNS_IP of
        None \<Rightarrow> Some (s, Some None)
      | Some dns_mac \<Rightarrow> do {
          let ident = (of_nat t0 :: u16) XOR 0xC0DE;
          let src_port = 60000 + ((of_nat t0 :: u16) AND 0x0FFF);
          r \<leftarrow> build_query_a (replicate 256 0) ident nm;
          case r of Inl _ \<Rightarrow> Some (s, Some None)
          | Inr (payload, qlen) \<Rightarrow> do {
              let s = on_stk (\<lambda>k. k\<lparr>query_pending := Some \<lparr>q_id = ident, q_src_port = src_port, q_completed = False,
                q_resolved_ip = replicate 4 0, q_failed = False\<rparr>\<rparr>) s;
              let iid = ip_id (stk s) + 1;
              let s = on_stk (\<lambda>k. k\<lparr>ip_id := iid\<rparr>) s;
              q \<leftarrow> aslice payload 0 qlen;
              frame \<leftarrow> ip_frame 512 dns_mac (st_mac (stk s)) DNS_IP PROTO_UDP UDP_HDR_LEN q iid
                (\<lambda>m. udp_write m OUR_IP DNS_IP src_port DNS_PORT qlen);
              (s, res) \<leftarrow> resolve_loop (transmit s frame) frame start False evs;
              Some (if res = Some None then on_stk (\<lambda>k. k\<lparr>query_pending := None\<rparr>) s else s, res) } })"

fun ping_loop :: "Net \<Rightarrow> u32 \<Rightarrow> nat \<Rightarrow> nat \<Rightarrow> (nat \<times> byte list list) list \<Rightarrow> (Net \<times> nat option option) option" where
  "ping_loop s before start timeout [] = Some (s, None)"
| "ping_loop s before start timeout ((now, frames) # evs) =
     (if echo_replies (stk s) \<noteq> before then Some (s, Some (Some (now - start)))
      else if now - start > timeout then Some (s, Some None)
      else do { s \<leftarrow> poll s now frames; ping_loop s before start timeout evs })"

definition ping_once :: "Net \<Rightarrow> nat \<Rightarrow> ip_addr \<Rightarrow> nat \<Rightarrow> byte list \<Rightarrow> (nat \<times> byte list list) list \<Rightarrow> (Net \<times> nat option option) option" where
  "ping_once s start dst_ip timeout payload evs =
     (if next_hop_mac s dst_ip = None then Some (s, Some None)
      else do {
        let before = echo_replies (stk s);
        (s, ok) \<leftarrow> send_icmp_echo s dst_ip payload;
        if \<not> ok then Some (s, Some None) else ping_loop s before start timeout evs })"

section \<open>Lemmas: senders\<close>

lemma addr_lengths [simp]: "length OUR_IP = 4" "length GATEWAY_IP = 4" "length DNS_IP = 4"
  by (simp_all add: OUR_IP_def GATEWAY_IP_def DNS_IP_def)

definition stack_ok :: "Stack \<Rightarrow> bool" where [inv_defs]:
  "stack_ok k \<longleftrightarrow> length (st_mac k) = 6 \<and> cache_ok (arp_cache k) \<and> length (resolved_ip k) = 4
     \<and> (\<forall>q. query_pending k = Some q \<longrightarrow> length (q_resolved_ip q) = 4)"

definition net_ok :: "Net \<Rightarrow> bool" where [inv_defs]:
  "net_ok s \<longleftrightarrow> stack_ok (stk s) \<and> table_ok (tab s)"

definition goes :: "Net option \<Rightarrow> bool" where
  "goes r \<longleftrightarrow> (\<exists>s. r = Some s \<and> net_ok s)"

lemma goes_Some [simp]: "goes (Some s) \<longleftrightarrow> net_ok s"
  by (simp add: goes_def)

lemma goes_fst: "goes (map_option fst r) \<longleftrightarrow> (\<exists>s b. r = Some (s, b) \<and> net_ok s)"
  by (cases r) (auto simp: goes_def)

lemma net_ok_parts:
  "net_ok s \<Longrightarrow> net_ok (transmit s f)"
  "net_ok s \<Longrightarrow> stack_ok k \<Longrightarrow> net_ok (s\<lparr>stk := k\<rparr>)"
  "net_ok s \<Longrightarrow> table_ok t \<Longrightarrow> net_ok (s\<lparr>tab := t, tx := fs\<rparr>)"
  "net_ok s \<Longrightarrow> table_ok t \<Longrightarrow> net_ok (s\<lparr>tab := t\<rparr>)"
  by (simp_all add: net_ok_def transmit_def)

lemma table_init_ok: "length mac = 6 \<Longrightarrow> table_ok (tcp_init table_new OUR_IP mac)"
  by (simp add: table_ok_def tcp_init_def table_new_def conns_ok_def)

lemma net_init_ok: "length mac = 6 \<Longrightarrow> net_ok (net_init mac)"
  by (simp add: net_ok_def net_init_def stack_ok_def stack_new_def cache_new_ok table_init_ok)

definition ip_frame_bytes :: "mac_addr \<Rightarrow> mac_addr \<Rightarrow> ip_addr \<Rightarrow> byte \<Rightarrow> u16 \<Rightarrow> byte list \<Rightarrow> byte list" where
  "ip_frame_bytes dst_mac src_mac dst_ip proto ident msg =
     dst_mac @ src_mac @ be16 ETHERTYPE_IPV4
       @ ipv4_bytes OUR_IP dst_ip proto (length msg) ident (ipv4_csum OUR_IP dst_ip proto (length msg) ident) @ msg"

lemma ip_frame_eq:
  assumes "length dst_mac = 6" "length src_mac = 6" "length dst_ip = 4" "34 + h + length payload \<le> N"
    and wr: "wr (replicate h 0 @ payload) = Some msg" "length msg = h + length payload"
  shows "ip_frame N dst_mac src_mac dst_ip proto h payload ident wr = Some (ip_frame_bytes dst_mac src_mac dst_ip proto ident msg)"
proof -
  define H where "H = dst_mac @ src_mac @ be16 ETHERTYPE_IPV4"
  define I where "I = ipv4_bytes OUR_IP dst_ip proto (h + length payload) ident (ipv4_csum OUR_IP dst_ip proto (h + length payload) ident)"
  define Z where "Z = replicate (N - (34 + h + length payload)) (0 :: byte)"
  have len: "length H = 14" "length I = 20" using assms by (simp_all add: H_def I_def net_simps)
  have 1: "write_header (replicate N 0) dst_mac src_mac ETHERTYPE_IPV4 = Some (H @ replicate (N - 14) 0)"
    using assms by (simp add: rust_simps H_def)
  have "N - 14 = 20 + (h + (length payload + (N - (34 + h + length payload))))" using assms(4) by simp
  then have Z: "replicate (N - 14) (0 :: byte) = replicate 20 0 @ replicate h 0 @ replicate (length payload) 0 @ Z"
    unfolding Z_def by (simp only: replicate_add)
  have 2: "copy_at (H @ replicate (N - 14) 0) (14 + 20 + h) (14 + 20 + (h + length payload)) payload
      = Some (H @ replicate 20 0 @ replicate h 0 @ payload @ Z)"
    unfolding Z using len by (simp add: rust_simps)
  have 3: "with_slice (H @ replicate 20 0 @ replicate h 0 @ payload @ Z) (14 + 20) (14 + 20 + (h + length payload)) wr
      = Some (H @ replicate 20 0 @ msg @ Z)"
    using with_slice_in [of "14 + 20" "14 + 20 + (h + length payload)" "H @ replicate 20 0 @ replicate h 0 @ payload @ Z" wr msg] len wr
    by simp
  have 4: "with_slice (H @ replicate 20 0 @ msg @ Z) 14 (14 + 20) (\<lambda>h'. ipv4_write h' OUR_IP dst_ip proto (h + length payload) ident)
      = Some (H @ I @ msg @ Z)"
    using with_slice_in [of 14 "14 + 20" "H @ replicate 20 0 @ msg @ Z" "\<lambda>h'. ipv4_write h' OUR_IP dst_ip proto (h + length payload) ident" I]
      len assms by (simp add: rust_simps I_def)
  have 5: "aslice (H @ I @ msg @ Z) 0 (14 + (20 + (h + length payload))) = Some (H @ I @ msg)"
    using len wr(2) by (simp add: rust_simps)
  show ?thesis
    unfolding ip_frame_def Let_def ETH_HDR_LEN_def IPV4_HDR_LEN_def
    by (simp only: 1 2 3 4 5 bind.simps) (simp add: ip_frame_bytes_def H_def I_def wr(2))
qed

lemma echo_frame:
  assumes "length dst_mac = 6" "length src_mac = 6" "length dst_ip = 4" "42 + length payload \<le> N" "N < 60000"
  shows "ip_frame N dst_mac src_mac dst_ip PROTO_ICMP ICMP_HDR_LEN payload ident (\<lambda>m. write_echo m t k q (length payload))
    = Some (ip_frame_bytes dst_mac src_mac dst_ip PROTO_ICMP ident (echo_bytes t k q (echo_csum t k q payload) payload))"
  using assms by (intro ip_frame_eq) (simp_all add: ICMP_HDR_LEN_def rust_simps echo_bytes_def net_simps)

lemma udp_frame:
  assumes "length dst_mac = 6" "length src_mac = 6" "length dst_ip = 4" "42 + length payload \<le> N" "N < 50000" "n = length payload"
  shows "\<exists>f. ip_frame N dst_mac src_mac dst_ip PROTO_UDP UDP_HDR_LEN payload ident (\<lambda>m. udp_write m OUR_IP dst_ip sp dp n) = Some f"
proof -
  have "udp_write (replicate 8 0 @ payload) OUR_IP dst_ip sp dp n = Some (udp_bytes sp dp (udp_csum OUR_IP dst_ip sp dp payload) payload)"
    using assms by (subst udp_write_eq) simp_all
  then show ?thesis
    using ip_frame_eq [OF assms(1-3), of 8 payload N "\<lambda>m. udp_write m OUR_IP dst_ip sp dp n"
        "udp_bytes sp dp (udp_csum OUR_IP dst_ip sp dp payload) payload" PROTO_UDP ident] assms
    by (simp add: UDP_HDR_LEN_def udp_bytes_def net_simps)
qed

lemma arp_frame_total:
  assumes "length out = ARP_FRAME_LEN" "arp_ok p" "length dst = 6" "length src = 6"
  shows "\<exists>f. do { out \<leftarrow> write_header out dst src ETHERTYPE_ARP; with_slice out ETH_HDR_LEN (length out) (arp_write p) } = Some f"
  using assms with_slice_in [of 14 42 "dst @ src @ be16 ETHERTYPE_ARP @ drop 14 out" "arp_write p" "arp_bytes p"]
  by (simp add: rust_simps ARP_FRAME_LEN_def ARP_PACKET_LEN_def ETH_HDR_LEN_def net_simps arp_bytes_def arp_ok_def)

lemma build_request_total:
  assumes "length mac = 6" "length ip = 4" "length tgt = 4"
  shows "\<exists>f. build_request (replicate ARP_FRAME_LEN 0) mac ip tgt = Some f"
  using assms by (simp add: build_request_def arp_frame_total arp_ok_def MAC_BROADCAST_def)

lemma build_reply_total:
  assumes "length mac = 6" "length ip = 4" "length pmac = 6" "length pip = 4"
  shows "\<exists>f. build_reply (replicate ARP_FRAME_LEN 0) mac ip pmac pip = Some f"
  using assms by (simp add: build_reply_def arp_frame_total arp_ok_def)

lemma send_arp_request_ok: "net_ok s \<Longrightarrow> length tgt = 4 \<Longrightarrow> goes (send_arp_request s tgt)"
  using build_request_total [of "st_mac (stk s)" OUR_IP tgt]
  by (auto simp: send_arp_request_def net_ok_def stack_ok_def transmit_def)

lemma lookup_ok: "net_ok s \<Longrightarrow> arp_lookup (arp_cache (stk s)) ip = Some mac \<Longrightarrow> length mac = 6"
  by (auto simp: net_ok_def stack_ok_def intro: arp_lookup_length)

lemma next_hop_ok: "net_ok s \<Longrightarrow> next_hop_mac s ip = Some mac \<Longrightarrow> length mac = 6"
  by (auto simp: next_hop_mac_def Let_def dest: lookup_ok)

lemma send_icmp_echo_ok:
  assumes "net_ok s" "length dst_ip = 4" "length payload \<le> 86"
  shows "goes (map_option fst (send_icmp_echo s dst_ip payload))"
proof (cases "arp_lookup (arp_cache (stk s)) dst_ip")
  case None
  then show ?thesis using assms by (simp add: send_icmp_echo_def)
next
  case (Some mac)
  have "length mac = 6" "length (st_mac (stk s)) = 6" using lookup_ok [OF assms(1) Some] assms(1) by (simp_all add: net_ok_def stack_ok_def)
  then show ?thesis using Some assms
    by (simp add: send_icmp_echo_def Let_def echo_frame on_stk_def transmit_def net_ok_def stack_ok_def)
qed

lemma send_udp_ok:
  assumes "net_ok s" "length dst_ip = 4"
  shows "goes (map_option fst (send_udp s dst_ip sp dp payload))"
proof (cases "ETH_HDR_LEN + (IPV4_HDR_LEN + (UDP_HDR_LEN + length payload)) > 1500 \<or> arp_lookup (arp_cache (stk s)) dst_ip = None")
  case True
  then show ?thesis using assms by (auto simp: send_udp_def split: option.splits)
next
  case False
  then obtain mac where mac: "arp_lookup (arp_cache (stk s)) dst_ip = Some mac" by auto
  have "length mac = 6" "length (st_mac (stk s)) = 6" using lookup_ok [OF assms(1) mac] assms(1) by (simp_all add: net_ok_def stack_ok_def)
  then obtain f where "ip_frame 1514 mac (st_mac (stk s)) dst_ip PROTO_UDP UDP_HDR_LEN payload (ip_id (stk s) + 1)
      (\<lambda>m. udp_write m OUR_IP dst_ip sp dp (length payload)) = Some f"
    using udp_frame [of mac "st_mac (stk s)" dst_ip payload 1514 "length payload" "ip_id (stk s) + 1" sp dp] False assms
    by (auto simp: ETH_HDR_LEN_def IPV4_HDR_LEN_def UDP_HDR_LEN_def)
  then show ?thesis using mac False assms
    by (simp add: send_udp_def Let_def on_stk_def transmit_def net_ok_def stack_ok_def)
qed

lemma send_dns_query_ok:
  assumes "net_ok s"
  shows "goes (map_option fst (send_dns_query s nm))"
proof -
  obtain r where r: "build_query_a (replicate 128 0) 0xABCD nm = Some r"
    "\<forall>o' n. r = Inr (o', n) \<longrightarrow> length o' = 128 \<and> n \<le> 128" using build_query_a_ok [of "replicate 128 0" "0xABCD" nm] by auto
  have "net_ok (on_stk (\<lambda>k. k\<lparr>dns_src_port := 52015, dns_id := 0xABCD\<rparr>) s)"
    using assms by (simp add: net_ok_def on_stk_def stack_ok_def)
  then show ?thesis using r assms send_udp_ok [of "on_stk (\<lambda>k. k\<lparr>dns_src_port := 52015, dns_id := 0xABCD\<rparr>) s" DNS_IP]
    by (cases r) (auto simp: send_dns_query_def rust_simps Let_def)
qed

section \<open>Lemmas: reception\<close>

lemma net_ok_stk:
  assumes "net_ok s" "\<And>k. stack_ok k \<Longrightarrow> stack_ok (f k)"
  shows "net_ok (on_stk f s)"
  using assms by (simp add: net_ok_def on_stk_def)

lemma stack_ok_fields [simp]:
  "stack_ok (k\<lparr>demo := d\<rparr>) = stack_ok k" "stack_ok (k\<lparr>ip_id := i\<rparr>) = stack_ok k" "stack_ok (k\<lparr>http_conn := h\<rparr>) = stack_ok k"
  "stack_ok (k\<lparr>echo_replies := e\<rparr>) = stack_ok k" "stack_ok k \<Longrightarrow> stack_ok (k\<lparr>query_pending := None\<rparr>)"
  "stack_ok (k\<lparr>dns_query := q\<rparr>) = stack_ok k"
  by (simp_all add: stack_ok_def)

lemma established_ok: "net_ok s \<Longrightarrow> goes (on_tcp_established s now i)"
proof (cases "demo (stk s) = AwaitTcpEstablished \<and> http_conn (stk s) = Some i")
  case True
  assume s: "net_ok s"
  have "length http_request \<le> 1546" by (simp add: http_request_def)
  then obtain t fs r where "tcp_send (tab s) now i http_request = Some (t, fs, r)" "table_ok t"
    using send_ok [of "tab s" http_request i now] s by (auto simp: net_ok_def)
  then show ?thesis using True s by (simp add: on_tcp_established_def Let_def on_stk_def net_ok_def)
qed (simp add: on_tcp_established_def)

lemma data_ok: "net_ok s \<Longrightarrow> goes (on_tcp_data s now i)"
proof (cases "demo (stk s) = AwaitHttpResponse \<and> http_conn (stk s) = Some i")
  case True
  assume s: "net_ok s"
  obtain t bs where r: "tcp_read (tab s) i 512 = (t, bs)" by (cases "tcp_read (tab s) i 512")
  then have t: "table_ok t" using read_ok [of "tab s" i 512] s by (simp add: net_ok_def)
  obtain t' fs e where "tcp_close t now i = Some (t', fs, e)" "table_ok t'" using close_ok [OF t] by blast
  then show ?thesis using True s r t by (simp add: on_tcp_data_def Let_def on_stk_def net_ok_def)
qed (simp add: on_tcp_data_def)

lemma closed_ok: "net_ok s \<Longrightarrow> net_ok (on_tcp_closed s i)"
  by (simp add: on_tcp_closed_def on_stk_def net_ok_def)

lemma tcp_input_ok:
  assumes "net_ok s" "length (ip_src ip) = 4"
  shows "goes (tcp_input s now ip payload)"
proof -
  obtain t fs r where h: "handle_segment (tab s) ip payload = Some (t, fs, r)" "table_ok t"
    using handle_segment_ok [of "tab s" ip payload] assms by (auto simp: net_ok_def)
  have s': "net_ok (s\<lparr>tab := t, tx := tx s @ fs\<rparr>)" using assms(1) h(2) by (simp add: net_ok_def)
  show ?thesis
  proof (cases r)
    case (Some p)
    then show ?thesis using h s' established_ok data_ok closed_ok
      by (cases p; cases "snd p") (simp_all add: tcp_input_def Let_def)
  qed (use h s' in \<open>simp add: tcp_input_def\<close>)
qed

lemma arp_learn_ok:
  assumes "net_ok s" "arp_ok p"
  shows "\<exists>s' nxt. arp_learn s p = Some (s', nxt) \<and> net_ok s' \<and> arp_lookup (arp_cache (stk s')) (sender_ip p) = Some (sender_mac p)"
proof -
  obtain cache where c: "arp_insert (arp_cache (stk s)) (sender_ip p) (sender_mac p) = Some cache" "cache_ok cache"
    "arp_lookup cache (sender_ip p) = Some (sender_mac p)"
    using arp_insert_ok [of "arp_cache (stk s)" "sender_ip p" "sender_mac p"] assms
    by (auto simp: net_ok_def stack_ok_def arp_ok_def)
  then have "net_ok (on_stk (\<lambda>k. k\<lparr>arp_cache := cache\<rparr>) s)" using assms(1) by (simp add: on_stk_def net_ok_def stack_ok_def)
  then show ?thesis using c by (auto simp: arp_learn_def Let_def on_stk_def net_ok_def)
qed

lemma arp_answer_ok: "net_ok s \<Longrightarrow> arp_ok p \<Longrightarrow> goes (arp_answer s p)"
  using build_reply_total [of "st_mac (stk s)" OUR_IP "sender_mac p" "sender_ip p"]
  by (auto simp: arp_answer_def net_ok_parts(1) net_ok_def stack_ok_def arp_ok_def)
    (auto simp: transmit_def)

lemma arp_follow_ok: "net_ok s \<Longrightarrow> goes (arp_follow s nxt)"
  using send_icmp_echo_ok [of s GATEWAY_IP ping_payload] send_dns_query_ok [of s]
  by (cases nxt) (simp_all add: arp_follow_def ping_payload_def)

lemma handle_arp_ok:
  assumes "net_ok s"
  shows "goes (handle_arp s payload)"
proof -
  consider "arp_parse payload = Some None" | p where "arp_parse payload = Some (Some p)" "arp_ok p" using arp_parse_cases by blast
  then show ?thesis
  proof cases
    case (2 p)
    obtain s1 nxt where 1: "arp_learn s p = Some (s1, nxt)" "net_ok s1" using arp_learn_ok [OF assms 2(2)] by blast
    obtain s2 where "arp_answer s1 p = Some s2" "net_ok s2" using arp_answer_ok [OF 1(2) 2(2)] by (auto simp: goes_def)
    then show ?thesis using 1 2 arp_follow_ok by (simp add: handle_arp_def)
  qed (use assms in \<open>simp add: handle_arp_def\<close>)
qed

lemma dns_id_total: "\<exists>b. dns_id_mismatch data ident = Some b"
proof (cases "2 \<le> length data")
  case False
  then have "dns_id_mismatch data ident = Some False" by (simp add: dns_id_mismatch_def)
  then show ?thesis by blast
qed (simp add: dns_id_mismatch_def rust_simps)

lemma userland_reply_ok:
  assumes "net_ok s" "query_pending (stk s) = Some q"
  shows "goes (userland_reply s q data)"
proof -
  obtain r where r: "parse_first_a data = Some r" "\<forall>a. r = Inr a \<longrightarrow> length a = 4" using parse_first_a_ok by blast
  obtain b where "dns_id_mismatch data (q_id q) = Some b" using dns_id_total by blast
  then show ?thesis using r assms
    by (cases r) (simp_all add: userland_reply_def Let_def on_stk_def net_ok_def stack_ok_def)
qed

lemma demo_reply_ok:
  assumes "net_ok s"
  shows "goes (demo_reply s now data)"
proof -
  obtain b where b: "dns_id_mismatch data (dns_id (stk s)) = Some b" using dns_id_total by blast
  obtain r where r: "parse_first_a data = Some r" "\<forall>a. r = Inr a \<longrightarrow> length a = 4" using parse_first_a_ok by blast
  show ?thesis
  proof (cases r)
    case (Inr ip4)
    define s1 where "s1 = on_stk (\<lambda>k. k\<lparr>resolved_ip := ip4, demo := AwaitTcpEstablished\<rparr>) s"
    have s1: "net_ok s1" "length ip4 = 4" using assms r Inr by (simp_all add: s1_def on_stk_def net_ok_def stack_ok_def)
    show ?thesis
    proof (cases "next_hop_mac s1 ip4")
      case None
      then show ?thesis using assms b r Inr s1 by (simp add: demo_reply_def Let_def s1_def [symmetric] net_ok_stk)
    next
      case (Some mac)
      obtain t fs c where "tcp_connect (tab s1) now ip4 80 mac = Some (t, fs, c)" "table_ok t"
        using connect_ok [of "tab s1" ip4 mac now 80] next_hop_ok [OF s1(1) Some] s1 by (auto simp: net_ok_def)
      then show ?thesis using assms b r Inr s1 Some
        by (cases c) (simp_all add: demo_reply_def Let_def s1_def [symmetric] net_ok_stk net_ok_parts(3))
    qed
  qed (use assms b r in \<open>simp add: demo_reply_def\<close>)
qed

lemma handle_udp_ok:
  assumes "net_ok s"
  shows "goes (handle_udp s now ip payload)"
  using assms userland_reply_ok demo_reply_ok [OF assms]
  by (cases "query_pending (stk s)") (auto simp: handle_udp_def udp_parse_cases Let_def)

lemma echo_reply_arm_ok:
  assumes "net_ok s"
  shows "goes (echo_reply_arm s)"
proof -
  have "net_ok (on_stk (\<lambda>k. k\<lparr>echo_replies := echo_replies k + 1\<rparr>) s)" using assms by (rule net_ok_stk) simp
  then show ?thesis by (simp add: echo_reply_arm_def Let_def send_arp_request_ok net_ok_stk)
qed

lemma echo_request_arm_eq:
  assumes "net_ok s" "length src = 4" "length payload \<le> 86" "arp_lookup (arp_cache (stk s)) src = Some mac"
  shows "echo_request_arm s src k q payload = Some (transmit (on_stk (\<lambda>n. n\<lparr>ip_id := ip_id (stk s) + 1\<rparr>) s)
    (ip_frame_bytes mac (st_mac (stk s)) src PROTO_ICMP (ip_id (stk s) + 1)
      (echo_bytes TYPE_ECHO_REPLY k q (echo_csum TYPE_ECHO_REPLY k q payload) payload)))"
proof -
  have "length mac = 6" "length (st_mac (stk s)) = 6" using lookup_ok [OF assms(1,4)] assms(1) by (simp_all add: net_ok_def stack_ok_def)
  then show ?thesis using assms
    by (simp add: echo_request_arm_def Let_def echo_frame on_stk_def) (simp add: ETH_HDR_LEN_def IPV4_HDR_LEN_def ICMP_HDR_LEN_def)
qed

lemma echo_request_arm_ok:
  assumes "net_ok s" "length src = 4"
  shows "goes (echo_request_arm s src k q payload)"
proof (cases "length payload \<le> 86 \<and> (\<exists>mac. arp_lookup (arp_cache (stk s)) src = Some mac)")
  case True
  then show ?thesis using echo_request_arm_eq [OF assms, of payload _ k q] assms by (auto intro!: net_ok_parts(1) net_ok_stk)
next
  case False
  then show ?thesis using assms(1)
    by (auto simp: echo_request_arm_def ETH_HDR_LEN_def IPV4_HDR_LEN_def ICMP_HDR_LEN_def split: option.splits)
qed

lemma handle_icmp_ok:
  assumes "net_ok s" "length (ip_src ip) = 4" "length msg < 65536"
  shows "goes (handle_icmp s ip msg)"
  using icmp_parse_cases [OF assms(3)] assms echo_reply_arm_ok echo_request_arm_ok by (auto simp: handle_icmp_def)

lemma handle_ipv4_ok:
  assumes "net_ok s" "length p < 65536"
  shows "goes (handle_ipv4 s now p)"
proof -
  consider "ipv4_parse p = Some None" | d where "20 \<le> length p" "ipv4_parse p = Some (Some (ipv4_view p, d))" "length d \<le> length p"
    using ipv4_parse_cases [of p] by auto
  then show ?thesis
  proof cases
    case (2 d)
    then have "length (ip_src (ipv4_view p)) = 4" by (simp add: ipv4_view_def)
    then show ?thesis using 2 assms handle_icmp_ok [of s "ipv4_view p" d] handle_udp_ok [of s now "ipv4_view p" d]
        tcp_input_ok [of s "ipv4_view p" now d]
      by (simp add: handle_ipv4_def)
  qed (use assms in \<open>simp add: handle_ipv4_def\<close>)
qed

lemma on_frame_ok:
  assumes "net_ok s" "length f < 65536"
  shows "goes (on_frame s now f)"
  using assms handle_arp_ok handle_ipv4_ok [of s "drop 14 f" now] by (simp add: on_frame_def eth_parse_eq)

lemma poll_ok: "net_ok s \<Longrightarrow> list_all (\<lambda>f. length f \<le> 1600) fs \<Longrightarrow> goes (poll s now fs)"
proof (induction fs arbitrary: s)
  case (Cons f fs)
  then obtain s1 where "on_frame s now f = Some s1" "net_ok s1" using on_frame_ok [of s f now] by (auto simp: goes_def)
  then show ?case using Cons by simp
qed simp

definition event_ok :: "nat \<times> byte list list \<Rightarrow> bool" where
  "event_ok ev \<longleftrightarrow> list_all (\<lambda>f. length f \<le> 1600) (snd ev)"

text \<open>The waiting loops return a well-formed state, and an answer once an event lies past the deadline.\<close>

lemma resolve_loop_ok:
  assumes "net_ok s" "list_all event_ok evs"
  shows "\<exists>s' r. resolve_loop s frame start re evs = Some (s', r) \<and> net_ok s'
    \<and> ((\<exists>ev \<in> set evs. start + 3000 < fst ev) \<longrightarrow> r \<noteq> None)"
  using assms
proof (induction evs arbitrary: s re)
  case (Cons ev evs)
  obtain now frames where ev: "ev = (now, frames)" by (cases ev)
  show ?case
  proof (cases "\<exists>q. query_pending (stk s) = Some q \<and> \<not> (q_completed q \<and> \<not> q_failed q) \<and> \<not> q_failed q \<and> \<not> now - start > 3000")
    case True
    then obtain q where q: "query_pending (stk s) = Some q" "\<not> (q_completed q \<and> \<not> q_failed q)" "\<not> q_failed q" "\<not> now - start > 3000"
      by blast
    let ?again = "\<not> re \<and> now - start > 1000"
    have "net_ok (if ?again then transmit s frame else s)" using Cons.prems net_ok_parts(1) by simp
    then obtain s1 where s1: "poll (if ?again then transmit s frame else s) now frames = Some s1" "net_ok s1"
      using poll_ok [of "if ?again then transmit s frame else s" frames now] Cons.prems ev by (auto simp: goes_def event_ok_def)
    have step: "resolve_loop s frame start re (ev # evs) = resolve_loop s1 frame start (re \<or> ?again) evs"
      using q s1(1) ev by (simp add: Let_def)
    have "(\<exists>e \<in> set (ev # evs). start + 3000 < fst e) \<longleftrightarrow> (\<exists>e \<in> set evs. start + 3000 < fst e)" using q(4) ev by auto
    then show ?thesis unfolding step using Cons.IH [OF s1(2), of "re \<or> ?again"] Cons.prems(2) by simp
  next
    case False
    then have "\<exists>r. resolve_loop s frame start re (ev # evs) = Some (s, Some r)"
      using ev by (cases "query_pending (stk s)") (auto simp: Let_def)
    then show ?thesis using Cons.prems(1) by blast
  qed
qed simp

lemma resolve_ok:
  assumes "net_ok s" "list_all event_ok evs"
  shows "\<exists>s' r. resolve s t0 start nm evs = Some (s', r) \<and> net_ok s'
    \<and> ((\<exists>ev \<in> set evs. start + 3000 < fst ev) \<longrightarrow> r \<noteq> None)"
proof (cases "next_hop_mac s DNS_IP")
  case None
  then show ?thesis using assms by (simp add: resolve_def)
next
  case (Some mac)
  define ident where "ident = (of_nat t0 :: u16) XOR 0xC0DE"
  define sp where "sp = 60000 + ((of_nat t0 :: u16) AND 0x0FFF)"
  obtain r where r: "build_query_a (replicate 256 0) ident nm = Some r"
    "\<forall>o' n. r = Inr (o', n) \<longrightarrow> length o' = 256 \<and> n \<le> 256" using build_query_a_ok [of "replicate 256 0" ident nm] by auto
  show ?thesis
  proof (cases r)
    case (Inl e)
    then show ?thesis using Some r assms by (simp add: resolve_def ident_def [symmetric])
  next
    case (Inr oq)
    obtain payload n where oq: "oq = (payload, n)" by (cases oq)
    have pl: "length payload = 256" "n \<le> 256" using r(2) Inr oq by simp_all
    define s1 where "s1 = on_stk (\<lambda>k. k\<lparr>query_pending := Some \<lparr>q_id = ident, q_src_port = sp, q_completed = False,
        q_resolved_ip = replicate 4 0, q_failed = False\<rparr>, ip_id := ip_id k + 1\<rparr>) s"
    have s1: "net_ok s1" using assms(1) by (simp add: s1_def on_stk_def net_ok_def stack_ok_def)
    have mac: "length mac = 6" "length (st_mac (stk s1)) = 6" using next_hop_ok [OF assms(1) Some] s1 by (simp_all add: net_ok_def stack_ok_def)
    obtain f where f: "ip_frame 512 mac (st_mac (stk s1)) DNS_IP PROTO_UDP UDP_HDR_LEN (take n payload) (ip_id (stk s1))
        (\<lambda>m. udp_write m OUR_IP DNS_IP sp DNS_PORT n) = Some f"
      using udp_frame [OF mac, of DNS_IP "take n payload" 512 n "ip_id (stk s1)" sp DNS_PORT] pl by auto
    obtain s2 res where l: "resolve_loop (transmit s1 f) f start False evs = Some (s2, res)" "net_ok s2"
      "(\<exists>ev \<in> set evs. start + 3000 < fst ev) \<longrightarrow> res \<noteq> None"
      using resolve_loop_ok [OF net_ok_parts(1) [OF s1] assms(2)] by blast
    have "resolve s t0 start nm evs = Some (if res = Some None then on_stk (\<lambda>k. k\<lparr>query_pending := None\<rparr>) s2 else s2, res)"
      using Some r Inr oq pl f l(1)
      by (simp add: resolve_def ident_def [symmetric] sp_def [symmetric] s1_def on_stk_def rust_simps Let_def)
    then show ?thesis using l(2,3) by (simp add: net_ok_stk)
  qed
qed

lemma ping_loop_ok:
  assumes "net_ok s" "list_all event_ok evs"
  shows "\<exists>s' r. ping_loop s before start timeout evs = Some (s', r) \<and> net_ok s'
    \<and> ((\<exists>ev \<in> set evs. start + timeout < fst ev) \<longrightarrow> r \<noteq> None)"
  using assms
proof (induction evs arbitrary: s)
  case (Cons ev evs)
  obtain now frames where ev: "ev = (now, frames)" by (cases ev)
  obtain s1 where s1: "poll s now frames = Some s1" "net_ok s1"
    using poll_ok [of s frames now] Cons.prems ev by (auto simp: goes_def event_ok_def)
  show ?case
  proof (cases "echo_replies (stk s) = before \<and> \<not> timeout < now - start")
    case True
    have "(\<exists>e \<in> set (ev # evs). start + timeout < fst e) \<longleftrightarrow> (\<exists>e \<in> set evs. start + timeout < fst e)" using True ev by auto
    then show ?thesis using True s1 ev Cons.IH [OF s1(2)] Cons.prems(2) by simp
  next
    case False
    then show ?thesis using Cons.prems ev by auto
  qed
qed simp

lemma ping_once_ok:
  assumes "net_ok s" "list_all event_ok evs" "length dst = 4" "length payload \<le> 86"
  shows "\<exists>s' r. ping_once s start dst timeout payload evs = Some (s', r) \<and> net_ok s'
    \<and> ((\<exists>ev \<in> set evs. start + timeout < fst ev) \<longrightarrow> r \<noteq> None)"
proof -
  obtain s1 b where "send_icmp_echo s dst payload = Some (s1, b)" "net_ok s1"
    using send_icmp_echo_ok [OF assms(1,3,4)] by (auto simp: goes_def)
  then show ?thesis using assms ping_loop_ok [of s1 evs "echo_replies (stk s)" start timeout]
    by (cases b) (auto simp: ping_once_def Let_def)
qed

section \<open>Properties\<close>

datatype net_event = Poll nat "byte list list" | Timer nat | Demo "byte list" | Resolve nat nat "byte list" "(nat \<times> byte list list) list"
  | Ping nat ip_addr nat "byte list" "(nat \<times> byte list list) list"

fun net_apply :: "Net \<Rightarrow> net_event \<Rightarrow> Net option" where
  "net_apply s (Poll now frames) = poll s now frames"
| "net_apply s (Timer now) = do { (t, frames) \<leftarrow> tick (tab s) now; Some (s\<lparr>tab := t, tx := tx s @ frames\<rparr>) }"
| "net_apply s (Demo query) = start_demo s query"
| "net_apply s (Resolve t0 start nm evs) = map_option fst (resolve s t0 start nm evs)"
| "net_apply s (Ping start dst timeout payload evs) = map_option fst (ping_once s start dst timeout payload evs)"

fun net_event_ok :: "net_event \<Rightarrow> bool" where
  "net_event_ok (Poll now frames) \<longleftrightarrow> list_all (\<lambda>f. length f \<le> 1600) frames"
| "net_event_ok (Timer now) \<longleftrightarrow> True"
| "net_event_ok (Demo query) \<longleftrightarrow> True"
| "net_event_ok (Resolve t0 start nm evs) \<longleftrightarrow> list_all event_ok evs"
| "net_event_ok (Ping start dst timeout payload evs) \<longleftrightarrow> length dst = 4 \<and> length payload \<le> 86 \<and> list_all event_ok evs"

primrec net_run :: "Net \<Rightarrow> net_event list \<Rightarrow> Net option" where
  "net_run s [] = Some s"
| "net_run s (e # es) = Option.bind (net_apply s e) (\<lambda>s. net_run s es)"

lemma net_apply_ok:
  assumes "net_ok s" "net_event_ok e"
  shows "goes (net_apply s e)"
proof (cases e)
  case (Timer now)
  obtain cs fs where "tick (tab s) now = Some (tab s\<lparr>conns := cs\<rparr>, fs)" "table_ok (tab s\<lparr>conns := cs\<rparr>)"
    using tick_ok [of "tab s" now] assms(1) by (auto simp: net_ok_def)
  then show ?thesis using Timer assms(1) by (simp add: net_ok_parts(3))
next
  case (Demo query)
  have "net_ok (on_stk (\<lambda>k. k\<lparr>demo := AwaitGatewayArp, dns_query := query\<rparr>) s)" using assms(1) by (rule net_ok_stk) simp
  then show ?thesis using Demo by (simp add: start_demo_def send_arp_request_ok)
next
  case (Resolve t0 start nm evs)
  then show ?thesis using resolve_ok [of s evs t0 start nm] assms by auto
next
  case (Ping start dst timeout payload evs)
  then show ?thesis using ping_once_ok [of s evs dst payload start timeout] assms by auto
qed (use assms poll_ok in simp)

text \<open>C35: Whatever frames of at most 1600 bytes arrive, in whatever order and however
  malformed, interleaved with timer ticks, the demo, name resolutions and pings, the network stack never
  panics and its state stays well formed: cache and table in shape, local ports distinct.\<close>

theorem net_never_panics:
  assumes "length mac = 6" "list_all net_event_ok es"
  shows "\<exists>s. net_run (net_init mac) es = Some s \<and> net_ok s"
proof -
  have "net_ok s \<Longrightarrow> list_all net_event_ok es \<Longrightarrow> \<exists>s'. net_run s es = Some s' \<and> net_ok s'" for s
  proof (induction es arbitrary: s)
    case (Cons e es)
    then obtain s1 where "net_apply s e = Some s1" "net_ok s1" using net_apply_ok [of s e] by (auto simp: goes_def)
    then show ?case using Cons by simp
  qed simp
  then show ?thesis using net_init_ok [OF assms(1)] assms(2) by blast
qed

theorem net_never_panics_witness:
  "\<exists>s. net_run (net_init [82, 84, 0, 18, 52, 86]) [Demo [97, 46, 98], Poll 3 [replicate 60 0xFF, [1, 2]], Timer 9,
     Resolve 10 10 [97] [(4000, [])], Ping 5000 [10, 0, 2, 2] 100 [1, 2] [(6000, [[8]])]] = Some s \<and> net_ok s"
  by (rule net_never_panics) (simp_all add: event_ok_def)

text \<open>C37: A name resolution always ends. If some event of the wait lies more than 3000 ticks
  after its start, then, whatever frames arrive, \<open>resolve\<close> returns an address or a failure.\<close>

theorem resolve_ends:
  assumes "net_ok s" "list_all event_ok evs" "(now, frames) \<in> set evs" "start + 3000 < now"
  shows "\<exists>s' r. resolve s t0 start nm evs = Some (s', Some r) \<and> net_ok s'"
proof -
  obtain s' r where "resolve s t0 start nm evs = Some (s', r)" "net_ok s'"
    "(\<exists>ev \<in> set evs. start + 3000 < fst ev) \<longrightarrow> r \<noteq> None"
    using resolve_ok [OF assms(1,2), of t0 start nm] by blast
  moreover have "\<exists>ev \<in> set evs. start + 3000 < fst ev" using assms(3,4) by force
  ultimately show ?thesis by auto
qed

text \<open>A stack that has learned the address of one host.\<close>

definition known_net :: "ip_addr \<Rightarrow> Net" where
  "known_net ip = on_stk (\<lambda>k. k\<lparr>arp_cache := \<lparr>ac_entries = \<lparr>ce_ip = ip, ce_mac = [82, 85, 10, 0, 2, 2], ce_valid = True\<rparr>
     # tl (ac_entries arp_cache_new), next_slot = 1\<rparr>\<rparr>) (net_init [82, 84, 0, 18, 52, 86])"

lemma known_net_ok: "length ip = 4 \<Longrightarrow> net_ok (known_net ip)"
proof -
  assume "length ip = 4"
  then have "cache_ok \<lparr>ac_entries = \<lparr>ce_ip = ip, ce_mac = [82, 85, 10, 0, 2, 2], ce_valid = True\<rparr> # tl (ac_entries arp_cache_new), next_slot = 1\<rparr>"
    by (simp add: cache_ok_def arp_cache_new_def CACHE_SIZE_def entry_ok_def list_all_iff)
  then show ?thesis using net_init_ok [of "[82, 84, 0, 18, 52, 86]"] by (simp add: known_net_def on_stk_def net_ok_def stack_ok_def)
qed

theorem resolve_ends_witness:
  "next_hop_mac (known_net DNS_IP) DNS_IP = Some [82, 85, 10, 0, 2, 2]
   \<and> (\<exists>s' r. resolve (known_net DNS_IP) 7 7 [97, 46, 98] [(8, [[1, 2, 3]]), (3008, [])] = Some (s', Some r) \<and> net_ok s')"
proof
  show "next_hop_mac (known_net DNS_IP) DNS_IP = Some [82, 85, 10, 0, 2, 2]"
    by (simp add: next_hop_mac_def known_net_def on_stk_def arp_lookup_def OUR_IP_def DNS_IP_def)
  show "\<exists>s' r. resolve (known_net DNS_IP) 7 7 [97, 46, 98] [(8, [[1, 2, 3]]), (3008, [])] = Some (s', Some r) \<and> net_ok s'"
    by (rule resolve_ends [where now = 3008 and frames = "[]"]) (simp_all add: known_net_ok event_ok_def)
qed

lemma on_frame_ping:
  assumes "length src = 4" "length payload < 60000" "length d = 6" "length m = 6"
    and frame: "frame = d @ m @ be16 ETHERTYPE_IPV4 @ ipv4_bytes src OUR_IP PROTO_ICMP (8 + length payload) ident c
      @ echo_bytes TYPE_ECHO_REQUEST k q (echo_csum TYPE_ECHO_REQUEST k q payload) payload"
  shows "on_frame s now frame = echo_request_arm s src k q payload"
proof -
  let ?req = "echo_bytes TYPE_ECHO_REQUEST k q (echo_csum TYPE_ECHO_REQUEST k q payload) payload"
  have lens: "length ?req = 8 + length payload" by (simp add: echo_bytes_def net_simps)
  obtain h where h: "ipv4_parse (ipv4_bytes src OUR_IP PROTO_ICMP (length ?req) ident c @ ?req) = Some (Some (h, ?req))"
    "protocol h = PROTO_ICMP" "ip_src h = src" "ip_dst h = OUR_IP"
    using ipv4_roundtrip [of src OUR_IP ?req PROTO_ICMP ident c] assms lens by auto
  have u: "u16_be (of_nat (unat ETHERTYPE_IPV4 div 256)) (of_nat (unat ETHERTYPE_IPV4)) = ETHERTYPE_IPV4" by (rule u16_be_be16)
  have ty: "u16_be (frame ! 12) (frame ! 13) = ETHERTYPE_IPV4" "drop 14 frame = ipv4_bytes src OUR_IP PROTO_ICMP (length ?req) ident c @ ?req"
    using assms(3,4) lens u by (simp_all add: frame nth_append be16_def)
  have "on_frame s now frame = handle_icmp s h ?req"
    using assms(3,4) ty h by (simp add: on_frame_def eth_parse_eq handle_ipv4_def ETHERTYPE_ARP_def ETHERTYPE_IPV4_def)
      (simp add: frame net_simps)
  then show ?thesis
    using echo_roundtrip [OF assms(2)] h by (simp add: handle_icmp_def TYPE_ECHO_REPLY_def TYPE_ECHO_REQUEST_def)
qed

text \<open>The reply to \<open>src\<close> at \<open>mac\<close>: a frame that parses, checksums included, as an echo reply with the
  identifier, sequence number and payload given.\<close>

definition echo_reply_frame :: "mac_addr \<Rightarrow> ip_addr \<Rightarrow> u16 \<Rightarrow> u16 \<Rightarrow> byte list \<Rightarrow> byte list \<Rightarrow> bool" where
  "echo_reply_frame mac src k q payload reply \<longleftrightarrow> (\<exists>eh packet ih msg.
     eth_parse reply = Some (Some (eh, packet)) \<and> eth_dst eh = mac \<and> ethertype eh = ETHERTYPE_IPV4
     \<and> ipv4_parse packet = Some (Some (ih, msg)) \<and> ip_src ih = OUR_IP \<and> ip_dst ih = src \<and> protocol ih = PROTO_ICMP
     \<and> checksum (take 20 packet) = Some 0
     \<and> icmp_parse msg = Some (Some (TYPE_ECHO_REPLY, 0, k, q, payload)))"

lemma echo_request_arm_reply:
  assumes "net_ok s" "arp_lookup (arp_cache (stk s)) src = Some mac" "length src = 4" "length payload \<le> 86"
  shows "\<exists>s' reply. echo_request_arm s src k q payload = Some s' \<and> tx s' = tx s @ [reply] \<and> echo_reply_frame mac src k q payload reply"
proof -
  define rep where "rep = echo_bytes TYPE_ECHO_REPLY k q (echo_csum TYPE_ECHO_REPLY k q payload) payload"
  define iid where "iid = ip_id (stk s) + 1"
  define ip where "ip = ipv4_bytes OUR_IP src PROTO_ICMP (length rep) iid (ipv4_csum OUR_IP src PROTO_ICMP (length rep) iid)"
  define reply where "reply = mac @ st_mac (stk s) @ be16 ETHERTYPE_IPV4 @ ip @ rep"
  have lens: "length rep = 8 + length payload" "length ip = 20" "length mac = 6" "length (st_mac (stk s)) = 6"
    using assms lookup_ok [OF assms(1,2)] by (simp_all add: rep_def ip_def echo_bytes_def net_simps net_ok_def stack_ok_def)
  have u: "u16_be (of_nat (unat ETHERTYPE_IPV4 div 256)) (of_nat (unat ETHERTYPE_IPV4)) = ETHERTYPE_IPV4" by (rule u16_be_be16)
  have run: "echo_request_arm s src k q payload = Some (transmit (on_stk (\<lambda>n. n\<lparr>ip_id := iid\<rparr>) s) reply)"
    using echo_request_arm_eq [OF assms(1,3,4,2)] by (simp add: reply_def ip_def rep_def iid_def ip_frame_bytes_def)
  have eth: "\<exists>eh. eth_parse reply = Some (Some (eh, ip @ rep)) \<and> eth_dst eh = mac \<and> ethertype eh = ETHERTYPE_IPV4"
    using lens u by (simp add: eth_parse_eq reply_def nth_append be16_def)
  obtain ih where ih: "ipv4_parse (ip @ rep) = Some (Some (ih, rep))" "protocol ih = PROTO_ICMP" "ip_src ih = OUR_IP" "ip_dst ih = src"
    using ipv4_roundtrip [of OUR_IP src rep PROTO_ICMP iid "ipv4_csum OUR_IP src PROTO_ICMP (length rep) iid"] assms lens by (auto simp: ip_def)
  have "checksum (take 20 (ip @ rep)) = Some 0"
    using ipv4_checksum_ok [of OUR_IP src PROTO_ICMP "length rep" iid] assms(3) lens by (simp add: ip_def)
  moreover have "icmp_parse rep = Some (Some (TYPE_ECHO_REPLY, 0, k, q, payload))"
    unfolding rep_def by (rule echo_roundtrip) (use assms(4) in simp)
  moreover have "tx (transmit (on_stk (\<lambda>n. n\<lparr>ip_id := iid\<rparr>) s) reply) = tx s @ [reply]" by (simp add: transmit_def on_stk_def)
  ultimately show ?thesis unfolding echo_reply_frame_def using run eth ih by blast
qed

text \<open>C36: An ICMP echo request for our address with at most 86 bytes of payload, from a host in the
  ARP cache, is answered by exactly one frame, addressed to that host, which parses, checksums
  included, as an echo reply with the request's identifier, sequence number and payload. A request
  with a longer payload, or from a host that is not in the cache, is dropped: nothing is sent and
  nothing changes.\<close>

theorem ping_answered:
  assumes "net_ok s" "length src = 4" "length payload < 60000" "length d = 6" "length m = 6"
    and frame: "frame = d @ m @ be16 ETHERTYPE_IPV4 @ ipv4_bytes src OUR_IP PROTO_ICMP (8 + length payload) ident c
      @ echo_bytes TYPE_ECHO_REQUEST k q (echo_csum TYPE_ECHO_REQUEST k q payload) payload"
  shows "case arp_lookup (arp_cache (stk s)) src of
      Some mac \<Rightarrow> if length payload \<le> 86
        then \<exists>s' reply. on_frame s now frame = Some s' \<and> tx s' = tx s @ [reply] \<and> echo_reply_frame mac src k q payload reply
        else on_frame s now frame = Some s
    | None \<Rightarrow> on_frame s now frame = Some s"
proof -
  have "echo_request_arm s src k q payload = Some s" if "86 < length payload \<or> arp_lookup (arp_cache (stk s)) src = None"
    using that by (auto simp: echo_request_arm_def ETH_HDR_LEN_def IPV4_HDR_LEN_def ICMP_HDR_LEN_def)
  then show ?thesis unfolding on_frame_ping [OF assms(2-6)]
    using echo_request_arm_reply [OF assms(1) _ assms(2)] by (auto split: option.splits)
qed

definition ping_frame :: "byte list" where
  "ping_frame = [82, 84, 0, 18, 52, 86] @ [82, 85, 10, 0, 2, 2] @ be16 ETHERTYPE_IPV4
     @ ipv4_bytes GATEWAY_IP OUR_IP PROTO_ICMP (8 + length [1, 2, 3 :: byte]) 77 0
     @ echo_bytes TYPE_ECHO_REQUEST 9 4 (echo_csum TYPE_ECHO_REQUEST 9 4 [1, 2, 3]) [1, 2, 3]"

theorem ping_answered_witness:
  "\<exists>s' reply. on_frame (known_net GATEWAY_IP) 5 ping_frame = Some s' \<and> tx s' = tx (known_net GATEWAY_IP) @ [reply]
    \<and> echo_reply_frame [82, 85, 10, 0, 2, 2] GATEWAY_IP 9 4 [1, 2, 3] reply"
proof -
  have "arp_lookup (arp_cache (stk (known_net GATEWAY_IP))) GATEWAY_IP = Some [82, 85, 10, 0, 2, 2]"
    by (simp add: known_net_def on_stk_def arp_lookup_def)
  then show ?thesis
    using ping_answered [OF known_net_ok [OF addr_lengths(2)], where src = GATEWAY_IP and payload = "[1, 2, 3]" and d = "[82, 84, 0, 18, 52, 86]"
      and m = "[82, 85, 10, 0, 2, 2]" and ident = 77 and c = 0 and frame = ping_frame and k = 9 and q = 4 and now = 5]
    by (simp add: ping_frame_def)
qed

end
