(* ===== verification/Sockets.thy ===== *)
theory Sockets imports Inode "HOL-Library.Multiset" begin

text \<open>
  The loopback stream sockets of \<open>kernel/src/net/mod.rs\<close> and the Unix domain socket of
  \<open>kernel/src/vfs/socket.rs\<close>. A socket is named by its index in the socket table; a descriptor of a
  process is bound to one by an entry of \<open>bindings\<close>. Invariant: peers are paired, every socket belongs to
  at most one descriptor or one accept queue. Consequence: each connected pair is a pair of byte
  queues.
\<close>

section \<open>Data\<close>

definition AF_INET :: int where "AF_INET = 2"
definition SOCK_STREAM :: int where "SOCK_STREAM = 1"

datatype NetError = Inval | NotSup | BadFd | AddrInUse | NotConn | ConnRefused | Again | PipeErr

type_synonym 'a NetResult = "NetError + 'a"
type_synonym SocketId = nat
type_synonym pid = u32

record FdBinding =
  fb_pid :: pid
  fb_fd :: int
  fb_sid :: SocketId

record Socket =
  so_domain :: int
  so_stype :: int
  so_protocol :: int
  so_local_port :: "u16 option"
  so_peer :: "SocketId option"
  so_listening :: bool
  so_backlog :: nat
  so_pending :: "SocketId list"
  so_recv_buf :: "byte list"
  so_shutdown_read :: bool
  so_shutdown_write :: bool
  so_peer_write_closed :: bool

definition socket_new :: "int \<Rightarrow> int \<Rightarrow> int \<Rightarrow> Socket" where
  "socket_new domain stype protocol =
     \<lparr>so_domain = domain, so_stype = stype, so_protocol = protocol, so_local_port = None, so_peer = None,
      so_listening = False, so_backlog = 0, so_pending = [], so_recv_buf = [],
      so_shutdown_read = False, so_shutdown_write = False, so_peer_write_closed = False\<rparr>"

record TcpFdBinding =
  tb_pid :: pid
  tb_fd :: int
  tb_conn_id :: nat

record NetState =
  sockets :: "Socket option list"
  bindings :: "FdBinding list"
  tcp_bindings :: "TcpFdBinding list"
  next_ephemeral_port :: u16

definition net_state_new :: NetState where
  "net_state_new = \<lparr>sockets = [], bindings = [], tcp_bindings = [], next_ephemeral_port = 49152\<rparr>"

section \<open>The socket table\<close>

text \<open>The first empty slot, or a new one at the end.\<close>

fun alloc_slot :: "nat \<Rightarrow> Socket option list \<Rightarrow> Socket \<Rightarrow> SocketId \<times> Socket option list" where
  "alloc_slot i [] sock = (i, [Some sock])"
| "alloc_slot i (None # slots) sock = (i, Some sock # slots)"
| "alloc_slot i (Some s # slots) sock = (case alloc_slot (Suc i) slots sock of (k, r) \<Rightarrow> (k, Some s # r))"

definition alloc_sid :: "Socket \<Rightarrow> NetState \<Rightarrow> SocketId \<times> NetState" where
  "alloc_sid sock st = (case alloc_slot 0 (sockets st) sock of (k, slots) \<Rightarrow> (k, st\<lparr>sockets := slots\<rparr>))"

definition socket_ref :: "NetState \<Rightarrow> SocketId \<Rightarrow> Socket NetResult" where
  "socket_ref st sid =
     (if sid < length (sockets st)
      then (case sockets st ! sid of None \<Rightarrow> Inl BadFd | Some s \<Rightarrow> Inr s)
      else Inl BadFd)"

text \<open>A change through the reference that \<open>socket_mut\<close> returns, which fails like \<open>socket_ref\<close>.\<close>

definition socket_mut :: "SocketId \<Rightarrow> (Socket \<Rightarrow> Socket) \<Rightarrow> NetState \<Rightarrow> unit NetResult \<times> NetState" where
  "socket_mut sid f st =
     (case socket_ref st sid of
        Inl e \<Rightarrow> (Inl e, st)
      | Inr s \<Rightarrow> (Inr (), st\<lparr>sockets := (sockets st)[sid := Some (f s)]\<rparr>))"

definition sid_by_fd :: "NetState \<Rightarrow> pid \<Rightarrow> int \<Rightarrow> SocketId NetResult" where
  "sid_by_fd st p fd =
     (case find (\<lambda>b. fb_pid b = p \<and> fb_fd b = fd) (bindings st) of
        None \<Rightarrow> Inl BadFd | Some b \<Rightarrow> Inr (fb_sid b))"

definition is_port_in_use :: "NetState \<Rightarrow> u16 \<Rightarrow> bool" where
  "is_port_in_use st port =
     list_ex (\<lambda>slot. case slot of None \<Rightarrow> False | Some s \<Rightarrow> so_local_port s = Some port \<and> so_listening s) (sockets st)"

primrec alloc_ephemeral_loop :: "nat \<Rightarrow> NetState \<Rightarrow> u16 \<times> NetState" where
  "alloc_ephemeral_loop 0 st = (55000, st)"
| "alloc_ephemeral_loop (Suc k) st =
     (let p = next_ephemeral_port st;
          n = p + 1;
          st = st\<lparr>next_ephemeral_port := (if n < 49152 then 49152 else n)\<rparr>
      in if \<not> is_port_in_use st p then (p, st) else alloc_ephemeral_loop k st)"

definition alloc_ephemeral :: "NetState \<Rightarrow> u16 \<times> NetState" where
  "alloc_ephemeral st = alloc_ephemeral_loop 4096 st"

section \<open>Operations\<close>

definition create_socket :: "int \<Rightarrow> int \<Rightarrow> int \<Rightarrow> NetState \<Rightarrow> SocketId NetResult \<times> NetState" where
  "create_socket domain stype protocol st =
     (if domain \<noteq> AF_INET \<or> stype \<noteq> SOCK_STREAM then (Inl NotSup, st)
      else case alloc_sid (socket_new domain stype protocol) st of (sid, st) \<Rightarrow> (Inr sid, st))"

definition bind_fd :: "pid \<Rightarrow> int \<Rightarrow> SocketId \<Rightarrow> NetState \<Rightarrow> NetState" where
  "bind_fd p fd sid st = st\<lparr>bindings := bindings st @ [\<lparr>fb_pid = p, fb_fd = fd, fb_sid = sid\<rparr>]\<rparr>"

definition shutdown_sid :: "SocketId \<Rightarrow> int \<Rightarrow> NetState \<Rightarrow> unit NetResult \<times> NetState" where
  "shutdown_sid sid how st =
     (if how \<noteq> 0 \<and> how \<noteq> 1 \<and> how \<noteq> 2 then (Inl Inval, st)
      else let set_rd = (how = 0 \<or> how = 2); set_wr = (how = 1 \<or> how = 2) in
      case socket_mut sid (\<lambda>s. s\<lparr>so_shutdown_read := (set_rd \<or> so_shutdown_read s),
             so_shutdown_write := (set_wr \<or> so_shutdown_write s)\<rparr>) st of
        (Inl e, st) \<Rightarrow> (Inl e, st)
      | (Inr _, st) \<Rightarrow>
          (case socket_ref st sid of
             Inl e \<Rightarrow> (Inl e, st)
           | Inr sock \<Rightarrow>
               (case so_peer sock of
                  Some psid \<Rightarrow> if set_wr
                    then (Inr (), snd (socket_mut psid (\<lambda>s. s\<lparr>so_peer_write_closed := True\<rparr>) st))
                    else (Inr (), st)
                | None \<Rightarrow> (Inr (), st))))"

text \<open>\<open>Vec::swap_remove\<close>: the last element takes the place of the removed one.\<close>

definition swap_remove :: "nat \<Rightarrow> 'a list \<Rightarrow> 'a list" where
  "swap_remove i xs = (if i = length xs - 1 then butlast xs else (butlast xs)[i := last xs])"

fun iter_position :: "('a \<Rightarrow> bool) \<Rightarrow> 'a list \<Rightarrow> nat option" where
  "iter_position P [] = None"
| "iter_position P (x # xs) = (if P x then Some 0 else map_option Suc (iter_position P xs))"

definition close_fd :: "pid \<Rightarrow> int \<Rightarrow> NetState \<Rightarrow> NetState" where
  "close_fd p fd st =
     (case iter_position (\<lambda>b. fb_pid b = p \<and> fb_fd b = fd) (bindings st) of
        None \<Rightarrow> st
      | Some idx \<Rightarrow>
          let sid = fb_sid (bindings st ! idx)
          in snd (shutdown_sid sid 2 (st\<lparr>bindings := swap_remove idx (bindings st)\<rparr>)))"

definition net_bind :: "pid \<Rightarrow> int \<Rightarrow> u16 \<Rightarrow> NetState \<Rightarrow> unit NetResult \<times> NetState" where
  "net_bind p fd port st =
     (if is_port_in_use st port then (Inl AddrInUse, st)
      else case sid_by_fd st p fd of
        Inl e \<Rightarrow> (Inl e, st)
      | Inr sid \<Rightarrow> socket_mut sid (\<lambda>s. s\<lparr>so_local_port := Some port\<rparr>) st)"

definition net_listen :: "pid \<Rightarrow> int \<Rightarrow> int \<Rightarrow> NetState \<Rightarrow> unit NetResult \<times> NetState" where
  "net_listen p fd backlog st =
     (case sid_by_fd st p fd of
        Inl e \<Rightarrow> (Inl e, st)
      | Inr sid \<Rightarrow>
          (case socket_ref st sid of
             Inl e \<Rightarrow> (Inl e, st)
           | Inr sock \<Rightarrow>
               if so_local_port sock = None then (Inl Inval, st)
               else socket_mut sid (\<lambda>s. s\<lparr>so_listening := True, so_backlog := min (nat (max backlog 1)) 128\<rparr>) st))"

definition find_listener :: "u16 \<Rightarrow> Socket option list \<Rightarrow> SocketId option" where
  "find_listener port slots =
     iter_position (\<lambda>slot. case slot of None \<Rightarrow> False | Some s \<Rightarrow> so_listening s \<and> so_local_port s = Some port) slots"

text \<open>\<open>connect\<close> in the order of the code: an ephemeral port for the client, the server endpoint, the two
  peer links, and only then the check of the listener's backlog.\<close>

definition connect_port :: "SocketId \<Rightarrow> Socket \<Rightarrow> NetState \<Rightarrow> unit NetResult \<times> NetState" where
  "connect_port client_sid client st =
     (if so_local_port client = None
      then case alloc_ephemeral st of (eph, st) \<Rightarrow> socket_mut client_sid (\<lambda>s. s\<lparr>so_local_port := Some eph\<rparr>) st
      else (Inr (), st))"

definition connect_pair :: "SocketId \<Rightarrow> u16 \<Rightarrow> NetState \<Rightarrow> SocketId NetResult \<times> NetState" where
  "connect_pair client_sid port st =
     (case alloc_sid (socket_new AF_INET SOCK_STREAM 0) st of (server_sid, st) \<Rightarrow>
      case socket_mut server_sid (\<lambda>s. s\<lparr>so_local_port := Some port, so_peer := Some client_sid\<rparr>) st of
        (Inl e, st) \<Rightarrow> (Inl e, st)
      | (Inr _, st) \<Rightarrow>
          (case socket_mut client_sid (\<lambda>s. s\<lparr>so_peer := Some server_sid\<rparr>) st of
             (Inl e, st) \<Rightarrow> (Inl e, st)
           | (Inr _, st) \<Rightarrow> (Inr server_sid, st)))"

definition connect_enqueue :: "SocketId \<Rightarrow> SocketId \<Rightarrow> NetState \<Rightarrow> unit NetResult \<times> NetState" where
  "connect_enqueue listener_sid server_sid st =
     (case socket_ref st listener_sid of
        Inl e \<Rightarrow> (Inl e, st)
      | Inr listener \<Rightarrow>
          if length (so_pending listener) \<ge> so_backlog listener then (Inl Again, st)
          else socket_mut listener_sid (\<lambda>s. s\<lparr>so_pending := so_pending s @ [server_sid]\<rparr>) st)"

definition net_connect :: "pid \<Rightarrow> int \<Rightarrow> u16 \<Rightarrow> NetState \<Rightarrow> unit NetResult \<times> NetState" where
  "net_connect p fd port st =
     (case sid_by_fd st p fd of
        Inl e \<Rightarrow> (Inl e, st)
      | Inr client_sid \<Rightarrow>
     (case find_listener port (sockets st) of
        None \<Rightarrow> (Inl ConnRefused, st)
      | Some listener_sid \<Rightarrow>
     (case socket_ref st client_sid of
        Inl e \<Rightarrow> (Inl e, st)
      | Inr client \<Rightarrow>
          if so_peer client \<noteq> None \<or> so_listening client then (Inl Inval, st)
          else (case connect_port client_sid client st of
             (Inl e, st) \<Rightarrow> (Inl e, st)
           | (Inr _, st) \<Rightarrow>
          (case connect_pair client_sid port st of
             (Inl e, st) \<Rightarrow> (Inl e, st)
           | (Inr server_sid, st) \<Rightarrow> connect_enqueue listener_sid server_sid st)))))"

definition net_accept :: "pid \<Rightarrow> int \<Rightarrow> NetState \<Rightarrow> SocketId NetResult \<times> NetState" where
  "net_accept p fd st =
     (case sid_by_fd st p fd of
        Inl e \<Rightarrow> (Inl e, st)
      | Inr listener_sid \<Rightarrow>
     (case socket_ref st listener_sid of
        Inl e \<Rightarrow> (Inl e, st)
      | Inr listener \<Rightarrow>
          if \<not> so_listening listener then (Inl Inval, st)
          else (case so_pending listener of
             [] \<Rightarrow> (Inl Again, st)
           | sid # rest \<Rightarrow>
               (Inr sid, snd (socket_mut listener_sid (\<lambda>s. s\<lparr>so_pending := rest\<rparr>) st)))))"

definition net_send :: "pid \<Rightarrow> int \<Rightarrow> byte list \<Rightarrow> NetState \<Rightarrow> nat NetResult \<times> NetState" where
  "net_send p fd data st =
     (case sid_by_fd st p fd of
        Inl e \<Rightarrow> (Inl e, st)
      | Inr sid \<Rightarrow>
     (case socket_ref st sid of
        Inl e \<Rightarrow> (Inl e, st)
      | Inr sock \<Rightarrow>
          if so_shutdown_write sock then (Inl PipeErr, st)
          else (case so_peer sock of
             None \<Rightarrow> (Inl NotConn, st)
           | Some peer_sid \<Rightarrow>
          (case socket_ref st peer_sid of
             Inl e \<Rightarrow> (Inl e, st)
           | Inr peer \<Rightarrow>
               if so_shutdown_read peer then (Inl PipeErr, st)
               else (Inr (length data),
                     snd (socket_mut peer_sid (\<lambda>s. s\<lparr>so_recv_buf := so_recv_buf s @ data\<rparr>) st))))))"

text \<open>\<open>recv\<close> into a buffer of \<open>m\<close> bytes; the result has the bytes copied into it.\<close>

definition net_recv :: "pid \<Rightarrow> int \<Rightarrow> nat \<Rightarrow> NetState \<Rightarrow> byte list NetResult \<times> NetState" where
  "net_recv p fd m st =
     (case sid_by_fd st p fd of
        Inl e \<Rightarrow> (Inl e, st)
      | Inr sid \<Rightarrow>
     (case socket_ref st sid of
        Inl e \<Rightarrow> (Inl e, st)
      | Inr sock \<Rightarrow>
          if so_shutdown_read sock then (Inr [], st)
          else if so_recv_buf sock = [] then (if so_peer_write_closed sock then (Inr [], st) else (Inl Again, st))
          else let n = min m (length (so_recv_buf sock))
               in (Inr (take n (so_recv_buf sock)),
                   snd (socket_mut sid (\<lambda>s. s\<lparr>so_recv_buf := drop n (so_recv_buf s)\<rparr>) st))))"

definition net_shutdown :: "pid \<Rightarrow> int \<Rightarrow> int \<Rightarrow> NetState \<Rightarrow> unit NetResult \<times> NetState" where
  "net_shutdown p fd how st =
     (case sid_by_fd st p fd of Inl e \<Rightarrow> (Inl e, st) | Inr sid \<Rightarrow> shutdown_sid sid how st)"

definition port_or_zero :: "u16 option \<Rightarrow> u16" where
  "port_or_zero q = (case q of None \<Rightarrow> 0 | Some port \<Rightarrow> port)"

definition sockname :: "NetState \<Rightarrow> pid \<Rightarrow> int \<Rightarrow> (u16 \<times> u32) NetResult" where
  "sockname st p fd =
     (case sid_by_fd st p fd of
        Inl e \<Rightarrow> Inl e
      | Inr sid \<Rightarrow> (case socket_ref st sid of
          Inl e \<Rightarrow> Inl e
        | Inr sock \<Rightarrow> Inr (port_or_zero (so_local_port sock), 0x7F000001)))"

definition peername :: "NetState \<Rightarrow> pid \<Rightarrow> int \<Rightarrow> (u16 \<times> u32) NetResult" where
  "peername st p fd =
     (case sid_by_fd st p fd of
        Inl e \<Rightarrow> Inl e
      | Inr sid \<Rightarrow> (case socket_ref st sid of
          Inl e \<Rightarrow> Inl e
        | Inr sock \<Rightarrow> (case so_peer sock of
            None \<Rightarrow> Inl NotConn
          | Some peer_sid \<Rightarrow> (case socket_ref st peer_sid of
              Inl e \<Rightarrow> Inl e
            | Inr peer \<Rightarrow> Inr (port_or_zero (so_local_port peer), 0x7F000001)))))"

section \<open>Descriptors bound to TCP connections\<close>

definition bind_fd_tcp :: "pid \<Rightarrow> int \<Rightarrow> nat \<Rightarrow> NetState \<Rightarrow> NetState" where
  "bind_fd_tcp p fd conn_id st =
     st\<lparr>tcp_bindings := filter (\<lambda>b. \<not> (tb_pid b = p \<and> tb_fd b = fd)) (tcp_bindings st)
        @ [\<lparr>tb_pid = p, tb_fd = fd, tb_conn_id = conn_id\<rparr>]\<rparr>"

definition tcp_id_by_fd :: "NetState \<Rightarrow> pid \<Rightarrow> int \<Rightarrow> nat option" where
  "tcp_id_by_fd st p fd = map_option tb_conn_id (find (\<lambda>b. tb_pid b = p \<and> tb_fd b = fd) (tcp_bindings st))"

definition close_fd_tcp :: "pid \<Rightarrow> int \<Rightarrow> NetState \<Rightarrow> nat option \<times> NetState" where
  "close_fd_tcp p fd st =
     (case iter_position (\<lambda>b. tb_pid b = p \<and> tb_fd b = fd) (tcp_bindings st) of
        None \<Rightarrow> (None, st)
      | Some idx \<Rightarrow> (Some (tb_conn_id (tcp_bindings st ! idx)),
          st\<lparr>tcp_bindings := swap_remove idx (tcp_bindings st)\<rparr>))"

section \<open>Unix domain sockets\<close>

text \<open>\<open>vfs/socket.rs\<close>: a bounded receive queue, and reads and writes through the inode. The shared state of
  an endpoint is an address in a store; the peer is such an address.\<close>

datatype SocketState = Unbound | Bound | Listening | Connected | SockClosed

record SocketBuffer =
  sb_data :: "byte list"
  sb_capacity :: nat

definition socket_buffer_new :: "nat \<Rightarrow> SocketBuffer" where
  "socket_buffer_new cap = \<lparr>sb_data = [], sb_capacity = cap\<rparr>"

definition sb_write :: "SocketBuffer \<Rightarrow> byte list \<Rightarrow> (SocketBuffer \<times> nat) option" where
  "sb_write q buf = do {
     space \<leftarrow> csub (sb_capacity q) (length (sb_data q));
     let to_write = min (length buf) space;
     Some (q\<lparr>sb_data := sb_data q @ take to_write buf\<rparr>, to_write) }"

text \<open>The read loop pops one byte at a time; \<open>unwrap\<close> of an empty queue would panic.\<close>

primrec sb_pop_loop :: "nat \<Rightarrow> byte list \<Rightarrow> (byte list \<times> byte list) option" where
  "sb_pop_loop 0 d = Some (d, [])"
| "sb_pop_loop (Suc k) d = (case d of [] \<Rightarrow> None | b # d' \<Rightarrow> do {
     (r, bs) \<leftarrow> sb_pop_loop k d';
     Some (r, b # bs) })"

definition sb_read :: "SocketBuffer \<Rightarrow> nat \<Rightarrow> (SocketBuffer \<times> byte list) option" where
  "sb_read q m = do {
     (d, bs) \<leftarrow> sb_pop_loop (min m (length (sb_data q))) (sb_data q);
     Some (q\<lparr>sb_data := d\<rparr>, bs) }"

record UnixSocketInternal =
  us_state :: SocketState
  us_receive_queue :: SocketBuffer
  us_peer :: "nat option"
  us_listen_backlog :: "nat list"
  us_max_backlog :: nat

definition unix_socket_new :: UnixSocketInternal where
  "unix_socket_new = \<lparr>us_state = Unbound, us_receive_queue = socket_buffer_new 65536, us_peer = None,
     us_listen_backlog = [], us_max_backlog = 0\<rparr>"

type_synonym unix_store = "nat \<Rightarrow> UnixSocketInternal"

definition unix_read :: "nat \<Rightarrow> unix_store \<Rightarrow> nat \<Rightarrow> (byte list VfsResult \<times> unix_store) option" where
  "unix_read a st m =
     (if us_state (st a) = Connected \<or> us_state (st a) = SockClosed
      then if sb_data (us_receive_queue (st a)) = [] \<and> us_state (st a) = SockClosed then Some (Inr [], st)
           else do {
             (q, bs) \<leftarrow> sb_read (us_receive_queue (st a)) m;
             Some (Inr bs, st(a := (st a)\<lparr>us_receive_queue := q\<rparr>)) }
      else Some (Inl NotImplemented, st))"

text \<open>A socket that is its own peer would take its lock twice; the model has the peer apart.\<close>

definition unix_write :: "nat \<Rightarrow> unix_store \<Rightarrow> byte list \<Rightarrow> (nat VfsResult \<times> unix_store) option" where
  "unix_write a st buf =
     (case (us_state (st a), us_peer (st a)) of
        (Connected, Some p) \<Rightarrow> do {
          (q, n) \<leftarrow> sb_write (us_receive_queue (st p)) buf;
          Some (Inr n, st(p := (st p)\<lparr>us_receive_queue := q\<rparr>)) }
      | (SockClosed, _) \<Rightarrow> Some (Inl BrokenPipe, st)
      | _ \<Rightarrow> Some (Inl NotImplemented, st))"

section \<open>The bounded queue of a Unix socket\<close>

lemma sb_pop_loop_eq: "k \<le> length d \<Longrightarrow> sb_pop_loop k d = Some (drop k d, take k d)"
  by (induction k arbitrary: d) (auto split: list.splits)

definition sb_inv :: "SocketBuffer \<Rightarrow> bool" where
  "sb_inv q \<longleftrightarrow> sb_capacity q = 65536 \<and> length (sb_data q) \<le> sb_capacity q"

lemma sb_read_eq: "sb_read q m = Some (q\<lparr>sb_data := drop m (sb_data q)\<rparr>, take m (sb_data q))"
  by (cases "m \<le> length (sb_data q)") (simp_all add: sb_read_def sb_pop_loop_eq)

lemma sb_write_eq:
  "sb_inv q \<Longrightarrow> sb_write q buf = Some (q\<lparr>sb_data := sb_data q @ take (65536 - length (sb_data q)) buf\<rparr>,
     min (length buf) (65536 - length (sb_data q)))"
  by (auto simp: sb_write_def sb_inv_def rust_simps min_def Let_def)

interpretation usockq: byte_queue sb_data sb_inv 65536 sb_write sb_read
proof
  fix q d n assume i: "sb_inv q"
  then show "length (sb_data q) \<le> 65536" by (simp add: sb_inv_def)
  show "\<exists>q'. sb_write q d = Some (q', min (length d) (65536 - length (sb_data q))) \<and> sb_inv q'
      \<and> sb_data q' = sb_data q @ take (65536 - length (sb_data q)) d"
    using i by (auto simp: sb_write_eq sb_inv_def)
  show "\<exists>q'. sb_read q n = Some (q', take n (sb_data q)) \<and> sb_inv q' \<and> sb_data q' = drop n (sb_data q)"
    using i by (auto simp: sb_read_eq sb_inv_def)
qed

section \<open>The socket table as a function\<close>

text \<open>No slot is ever emptied, so the table is a function on its indices.\<close>

definition full :: "NetState \<Rightarrow> bool" where
  "full st \<longleftrightarrow> None \<notin> set (sockets st)"

definition sk :: "NetState \<Rightarrow> SocketId \<Rightarrow> Socket" where
  "sk st i = the (sockets st ! i)"

definition upd :: "SocketId \<Rightarrow> (Socket \<Rightarrow> Socket) \<Rightarrow> NetState \<Rightarrow> NetState" where
  "upd i f st = st\<lparr>sockets := (sockets st)[i := Some (f (sk st i))]\<rparr>"

abbreviation nsk :: "NetState \<Rightarrow> nat" where "nsk st \<equiv> length (sockets st)"

named_theorems sock_simps

lemma full_nth: "full st \<Longrightarrow> i < nsk st \<Longrightarrow> sockets st ! i = Some (sk st i)"
  by (metis full_def nth_mem option.collapse sk_def)

lemma socket_ref_full [sock_simps]:
  "full st \<Longrightarrow> socket_ref st i = (if i < nsk st then Inr (sk st i) else Inl BadFd)"
  by (simp add: socket_ref_def full_nth)

lemma socket_mut_full [sock_simps]:
  "full st \<Longrightarrow> socket_mut i f st = (if i < nsk st then (Inr (), upd i f st) else (Inl BadFd, st))"
  by (simp add: socket_mut_def socket_ref_full upd_def)

lemma upd_nsk [simp]: "nsk (upd i f st) = nsk st" by (simp add: upd_def)
lemma upd_bindings [simp]: "bindings (upd i f st) = bindings st" by (simp add: upd_def)
lemma upd_ephemeral [simp]: "next_ephemeral_port (upd i f st) = next_ephemeral_port st" by (simp add: upd_def)

lemma upd_full: "full st \<Longrightarrow> full (upd i f st)"
  using set_update_subset_insert [of "sockets st" i "Some (f (sk st i))"] by (auto simp: full_def upd_def)

lemma upd_sk: "i < nsk st \<Longrightarrow> sk (upd i f st) j = (if j = i then f (sk st i) else sk st j)"
  by (cases "j = i") (simp_all add: sk_def upd_def)

lemma sk_more [simp]:
  "sk (st\<lparr>bindings := b\<rparr>) = sk st" "sk (st\<lparr>tcp_bindings := t\<rparr>) = sk st" "sk (st\<lparr>next_ephemeral_port := p\<rparr>) = sk st"
  by (simp_all add: fun_eq_iff sk_def)

lemma full_more [simp]:
  "full (st\<lparr>bindings := b\<rparr>) = full st" "full (st\<lparr>tcp_bindings := t\<rparr>) = full st" "full (st\<lparr>next_ephemeral_port := p\<rparr>) = full st"
  by (simp_all add: full_def)

lemma alloc_slot_full: "None \<notin> set xs \<Longrightarrow> alloc_slot i xs s = (i + length xs, xs @ [Some s])"
  by (induction i xs s rule: alloc_slot.induct) simp_all

definition push :: "Socket \<Rightarrow> NetState \<Rightarrow> NetState" where
  "push s st = st\<lparr>sockets := sockets st @ [Some s]\<rparr>"

lemma alloc_sid_full [sock_simps]: "full st \<Longrightarrow> alloc_sid s st = (nsk st, push s st)"
  by (simp add: alloc_sid_def full_def alloc_slot_full push_def)

lemma push_nsk [simp]: "nsk (push s st) = Suc (nsk st)" by (simp add: push_def)
lemma push_bindings [simp]: "bindings (push s st) = bindings st" by (simp add: push_def)
lemma push_ephemeral [simp]: "next_ephemeral_port (push s st) = next_ephemeral_port st" by (simp add: push_def)
lemma push_full: "full st \<Longrightarrow> full (push s st)" by (simp add: full_def push_def)

lemma push_sk: "j \<le> nsk st \<Longrightarrow> sk (push s st) j = (if j = nsk st then s else sk st j)"
  by (auto simp: sk_def push_def nth_append)

section \<open>The invariant\<close>

text \<open>
  Peers are paired. The sockets named by descriptors and by accept queues are all different, so each socket
  has at most one owner. Accept queues hold connected sockets and stay within 128 entries, a listening
  socket has a port, and ephemeral ports are in the dynamic range.
\<close>

definition pend :: "NetState \<Rightarrow> SocketId \<Rightarrow> SocketId list" where
  "pend st i = (if i < nsk st then so_pending (sk st i) else [])"

definition peer_of :: "NetState \<Rightarrow> SocketId \<Rightarrow> SocketId option" where
  "peer_of st i = (if i < nsk st then so_peer (sk st i) else None)"

definition buf_of :: "NetState \<Rightarrow> SocketId \<Rightarrow> byte list" where
  "buf_of st i = (if i < nsk st then so_recv_buf (sk st i) else [])"

definition bound :: "NetState \<Rightarrow> SocketId set" where
  "bound st = set (map fb_sid (bindings st))"

definition paired :: "NetState \<Rightarrow> bool" where
  "paired st \<longleftrightarrow> (\<forall>i j. peer_of st i = Some j \<longrightarrow> i \<noteq> j \<and> peer_of st j = Some i)"

definition owners_ok :: "NetState \<Rightarrow> bool" where
  "owners_ok st \<longleftrightarrow> distinct (map fb_sid (bindings st)) \<and> bound st \<subseteq> {..<nsk st}
     \<and> (\<forall>i. distinct (pend st i) \<and> set (pend st i) \<inter> bound st = {} \<and> (\<forall>j \<in> set (pend st i). peer_of st j \<noteq> None))
     \<and> (\<forall>i j. i \<noteq> j \<longrightarrow> set (pend st i) \<inter> set (pend st j) = {})"

definition fields_ok :: "Socket \<Rightarrow> bool" where
  "fields_ok s \<longleftrightarrow> so_domain s = AF_INET \<and> so_stype s = SOCK_STREAM
     \<and> so_backlog s \<le> 128 \<and> length (so_pending s) \<le> 128
     \<and> (so_listening s \<longrightarrow> so_local_port s \<noteq> None) \<and> (so_pending s \<noteq> [] \<longrightarrow> so_listening s)"

definition sock_ok :: "NetState \<Rightarrow> bool" where
  "sock_ok st \<longleftrightarrow> full st \<and> paired st \<and> owners_ok st \<and> (\<forall>i < nsk st. fields_ok (sk st i))
     \<and> next_ephemeral_port st \<ge> 49152"

lemma sock_ok_full [simp]: "sock_ok st \<Longrightarrow> full st" by (simp add: sock_ok_def)

lemma ownersD:
  "sock_ok st \<Longrightarrow> distinct (map fb_sid (bindings st))"
  "sock_ok st \<Longrightarrow> distinct (pend st i)"
  "sock_ok st \<Longrightarrow> set (pend st i) \<inter> bound st = {}"
  "sock_ok st \<Longrightarrow> i \<noteq> j \<Longrightarrow> set (pend st i) \<inter> set (pend st j) = {}"
  unfolding sock_ok_def owners_ok_def by blast+

lemma sock_ok_new: "sock_ok net_state_new"
  by (simp add: sock_ok_def full_def paired_def owners_ok_def net_state_new_def peer_of_def pend_def bound_def)

text \<open>A change that keeps the links keeps the invariant.\<close>

lemma pend_upd: "i < nsk st \<Longrightarrow> so_pending (f (sk st i)) = so_pending (sk st i) \<Longrightarrow> pend (upd i f st) = pend st"
  by (auto simp: fun_eq_iff pend_def upd_sk)

lemma peer_of_upd: "i < nsk st \<Longrightarrow> so_peer (f (sk st i)) = so_peer (sk st i) \<Longrightarrow> peer_of (upd i f st) = peer_of st"
  by (auto simp: fun_eq_iff peer_of_def upd_sk)

lemma buf_of_upd: "i < nsk st \<Longrightarrow> buf_of (upd i f st) = (buf_of st)(i := so_recv_buf (f (sk st i)))"
  by (auto simp: fun_eq_iff buf_of_def upd_sk)

lemma bound_upd [simp]: "bound (upd i f st) = bound st" by (simp add: bound_def)

lemma paired_cong: "peer_of st' = peer_of st \<Longrightarrow> paired st' = paired st"
  by (simp add: paired_def)

lemma owners_cong:
  "bindings st' = bindings st \<Longrightarrow> nsk st' = nsk st \<Longrightarrow> pend st' = pend st \<Longrightarrow> peer_of st' = peer_of st
   \<Longrightarrow> owners_ok st' = owners_ok st"
  by (simp add: owners_ok_def bound_def)

lemma sock_ok_upd:
  assumes "sock_ok st" "i < nsk st"
    and "so_pending (f (sk st i)) = so_pending (sk st i)" "so_peer (f (sk st i)) = so_peer (sk st i)"
    and "fields_ok (f (sk st i))"
  shows "sock_ok (upd i f st)"
proof -
  have "paired (upd i f st)" using assms by (simp add: paired_cong [OF peer_of_upd] sock_ok_def)
  moreover have "owners_ok (upd i f st)"
    using assms owners_cong [of "upd i f st" st] by (simp add: pend_upd peer_of_upd sock_ok_def)
  ultimately show ?thesis using assms by (simp add: sock_ok_def upd_full upd_sk)
qed

lemma fields_at: "sock_ok st \<Longrightarrow> i < nsk st \<Longrightarrow> fields_ok (sk st i)"
  by (simp add: sock_ok_def)

lemma peer_in: "sock_ok st \<Longrightarrow> peer_of st i = Some j \<Longrightarrow> j < nsk st"
  by (metis option.distinct(1) peer_of_def sock_ok_def paired_def)

lemma bound_in: "sock_ok st \<Longrightarrow> i \<in> bound st \<Longrightarrow> i < nsk st"
  by (auto simp: sock_ok_def owners_ok_def)

lemma sid_by_fd_bound: "sid_by_fd st p fd = Inr i \<Longrightarrow> i \<in> bound st"
  by (auto simp: sid_by_fd_def bound_def find_Some_iff split: option.splits)

lemma sid_by_fd_in: "sock_ok st \<Longrightarrow> sid_by_fd st p fd = Inr i \<Longrightarrow> i < nsk st"
  using bound_in sid_by_fd_bound by blast

lemma pend_in: "sock_ok st \<Longrightarrow> j \<in> set (pend st i) \<Longrightarrow> j < nsk st \<and> peer_of st j \<noteq> None \<and> j \<notin> bound st"
  by (metis disjoint_iff option.distinct(1) owners_ok_def peer_of_def sock_ok_def)

text \<open>A new socket is not linked to anything.\<close>

lemma push_views:
  assumes "so_peer s = None" "so_pending s = []" "so_recv_buf s = []"
  shows "peer_of (push s st) = peer_of st" "pend (push s st) = pend st" "buf_of (push s st) = buf_of st"
  using assms by (auto simp: fun_eq_iff peer_of_def pend_def buf_of_def push_sk)

lemma sock_ok_push:
  assumes "sock_ok st" "so_peer s = None" "so_pending s = []" "so_recv_buf s = []" "fields_ok s"
  shows "sock_ok (push s st)"
proof -
  note v = push_views [OF assms(2-4), of st]
  have o: "owners_ok st" and p: "paired st" and f: "full st" using assms(1) by (simp_all add: sock_ok_def)
  have b: "bound (push s st) = bound st" by (simp add: bound_def)
  have "bound st \<subseteq> {..<Suc (nsk st)}" using bound_in [OF assms(1)] by fastforce
  with o have "owners_ok (push s st)" unfolding owners_ok_def v b push_bindings push_nsk by (intro conjI) blast+
  moreover have "paired (push s st)" using p by (simp add: paired_cong [OF v(1)])
  moreover have "\<forall>i < Suc (nsk st). fields_ok (sk (push s st) i)"
    using assms(1,5) by (simp add: push_sk fields_at)
  ultimately show ?thesis using assms(1) f by (simp add: sock_ok_def push_full)
qed

lemma socket_new_simps [simp]:
  "so_peer (socket_new d t p) = None" "so_pending (socket_new d t p) = []" "so_recv_buf (socket_new d t p) = []"
  "so_listening (socket_new d t p) = False"
  by (simp_all add: socket_new_def)

lemma fields_new: "fields_ok (socket_new AF_INET SOCK_STREAM p)"
  by (simp add: fields_ok_def socket_new_def)

section \<open>Every operation keeps the invariant\<close>

lemma views_port [simp]:
  "peer_of (st\<lparr>next_ephemeral_port := q\<rparr>) = peer_of st" "pend (st\<lparr>next_ephemeral_port := q\<rparr>) = pend st"
  "buf_of (st\<lparr>next_ephemeral_port := q\<rparr>) = buf_of st" "bound (st\<lparr>next_ephemeral_port := q\<rparr>) = bound st"
  by (simp_all add: fun_eq_iff peer_of_def pend_def buf_of_def bound_def)

lemma views_bindings [simp]:
  "peer_of (st\<lparr>bindings := b\<rparr>) = peer_of st" "pend (st\<lparr>bindings := b\<rparr>) = pend st" "buf_of (st\<lparr>bindings := b\<rparr>) = buf_of st"
  by (simp_all add: fun_eq_iff peer_of_def pend_def buf_of_def)

lemma port_ok: "sock_ok st \<Longrightarrow> q \<ge> 49152 \<Longrightarrow> sock_ok (st\<lparr>next_ephemeral_port := q\<rparr>)"
  unfolding sock_ok_def using paired_cong [of "st\<lparr>next_ephemeral_port := q\<rparr>" st]
    owners_cong [of "st\<lparr>next_ephemeral_port := q\<rparr>" st] by simp

lemma alloc_ephemeral_loop_ok:
  "sock_ok st \<Longrightarrow> \<exists>p q. alloc_ephemeral_loop k st = (p, st\<lparr>next_ephemeral_port := q\<rparr>) \<and> q \<ge> 49152"
proof (induction k arbitrary: st)
  case 0
  then have "next_ephemeral_port st \<ge> 49152" by (simp add: sock_ok_def)
  then show ?case by (intro exI [of _ 55000] exI [of _ "next_ephemeral_port st"]) simp
next
  case (Suc k)
  define n where "n = next_ephemeral_port st + 1"
  define q where "q = (if n < 49152 then 49152 else n)"
  have q: "q \<ge> 49152" by (auto simp: q_def)
  obtain p' q' where "alloc_ephemeral_loop k (st\<lparr>next_ephemeral_port := q\<rparr>)
      = (p', (st\<lparr>next_ephemeral_port := q\<rparr>)\<lparr>next_ephemeral_port := q'\<rparr>)" "q' \<ge> 49152"
    using Suc.IH [OF port_ok [OF Suc.prems q]] by blast
  moreover have "alloc_ephemeral_loop (Suc k) st =
      (if \<not> is_port_in_use (st\<lparr>next_ephemeral_port := q\<rparr>) (next_ephemeral_port st)
       then (next_ephemeral_port st, st\<lparr>next_ephemeral_port := q\<rparr>)
       else alloc_ephemeral_loop k (st\<lparr>next_ephemeral_port := q\<rparr>))"
    by (simp only: alloc_ephemeral_loop.simps Let_def n_def q_def)
  ultimately show ?case using q by auto
qed

lemma bindings_ok:
  assumes "sock_ok st" "distinct (map fb_sid b)" "fb_sid ` set b \<subseteq> {..<nsk st}"
    and "\<And>i. set (pend st i) \<inter> fb_sid ` set b = {}"
  shows "sock_ok (st\<lparr>bindings := b\<rparr>)"
proof -
  have "owners_ok st" using assms(1) by (simp add: sock_ok_def)
  then have "owners_ok (st\<lparr>bindings := b\<rparr>)"
    unfolding owners_ok_def bound_def views_bindings using assms(2-4) by (intro conjI) (simp, simp, simp, blast)
  moreover have "paired (st\<lparr>bindings := b\<rparr>) = paired st" by (rule paired_cong) simp
  ultimately show ?thesis using assms(1) by (simp add: sock_ok_def)
qed

lemma bind_fd_ok:
  assumes "sock_ok st" "sid < nsk st" "sid \<notin> bound st" "\<And>i. sid \<notin> set (pend st i)"
  shows "sock_ok (bind_fd p fd sid st)"
  unfolding bind_fd_def
proof (rule bindings_ok [OF assms(1)])
  show "distinct (map fb_sid (bindings st @ [\<lparr>fb_pid = p, fb_fd = fd, fb_sid = sid\<rparr>]))"
    using ownersD(1) [OF assms(1)] assms(3) by (simp add: bound_def)
  show "fb_sid ` set (bindings st @ [\<lparr>fb_pid = p, fb_fd = fd, fb_sid = sid\<rparr>]) \<subseteq> {..<nsk st}"
    using bound_in [OF assms(1)] assms(2) by (auto simp: bound_def)
  show "set (pend st i) \<inter> fb_sid ` set (bindings st @ [\<lparr>fb_pid = p, fb_fd = fd, fb_sid = sid\<rparr>]) = {}" for i
    using ownersD(3) [OF assms(1), of i] assms(4) [of i] by (auto simp: bound_def)
qed

lemma iter_position_Some: "iter_position P xs = Some i \<Longrightarrow> i < length xs \<and> P (xs ! i)"
  by (induction xs arbitrary: i) (auto split: if_splits)

lemma swap_remove_mset:
  assumes "i < length xs"
  shows "mset (swap_remove i xs) + {#xs ! i#} = mset xs"
proof -
  have e: "xs = butlast xs @ [last xs]" using assms by (cases xs rule: rev_cases) auto
  show ?thesis
  proof (cases "i = length xs - 1")
    case True
    then have "xs ! i = last xs" using assms by (metis last_conv_nth length_0_conv not_less_zero)
    moreover have "mset xs = mset (butlast xs) + {#last xs#}" by (subst e) simp
    ultimately show ?thesis using True by (simp add: swap_remove_def)
  next
    case False
    then have l: "i < length (butlast xs)" using assms by simp
    then have n: "xs ! i = butlast xs ! i" by (simp add: nth_butlast)
    have "mset xs = mset (butlast xs) + {#last xs#}" by (subst e) simp
    then show ?thesis using False l n by (simp add: swap_remove_def mset_update)
  qed
qed

text \<open>Removing a descriptor.\<close>

lemma close_bindings_ok:
  assumes "sock_ok st" "idx < length (bindings st)"
  shows "sock_ok (st\<lparr>bindings := swap_remove idx (bindings st)\<rparr>)"
proof -
  define b where "b = swap_remove idx (bindings st)"
  define x where "x = bindings st ! idx"
  have m: "mset (b @ [x]) = mset (bindings st)"
    using swap_remove_mset [OF assms(2)] by (simp add: b_def x_def)
  then have "set (b @ [x]) = set (bindings st)" by (rule mset_eq_setD)
  then have sub: "fb_sid ` set b \<subseteq> bound st" by (auto simp: bound_def)
  have "mset (map fb_sid (b @ [x])) = mset (map fb_sid (bindings st))" using m by (simp only: mset_map)
  then have "distinct (map fb_sid (b @ [x]))"
    using ownersD(1) [OF assms(1)] mset_eq_imp_distinct_iff by blast
  then have d: "distinct (map fb_sid b)" by simp
  show ?thesis unfolding b_def [symmetric]
  proof (rule bindings_ok [OF assms(1) d])
    show "fb_sid ` set b \<subseteq> {..<nsk st}" using sub bound_in [OF assms(1)] by blast
    show "set (pend st i) \<inter> fb_sid ` set b = {}" for i using sub ownersD(3) [OF assms(1), of i] by blast
  qed
qed

text \<open>A connected pair: the client \<open>c\<close> and a new server endpoint.\<close>

definition link :: "SocketId \<Rightarrow> u16 \<Rightarrow> NetState \<Rightarrow> NetState" where
  "link c port st = upd c (\<lambda>s. s\<lparr>so_peer := Some (nsk st)\<rparr>)
     (upd (nsk st) (\<lambda>s. s\<lparr>so_local_port := Some port, so_peer := Some c\<rparr>) (push (socket_new AF_INET SOCK_STREAM 0) st))"

lemma link_nsk [simp]: "nsk (link c port st) = Suc (nsk st)" by (simp add: link_def)
lemma link_bindings [simp]: "bindings (link c port st) = bindings st" by (simp add: link_def)
lemma link_bound [simp]: "bound (link c port st) = bound st" by (simp add: bound_def)

lemma link_sk:
  "c < nsk st \<Longrightarrow> j \<le> nsk st \<Longrightarrow> sk (link c port st) j =
     (if j = c then (sk st c)\<lparr>so_peer := Some (nsk st)\<rparr>
      else if j = nsk st then (socket_new AF_INET SOCK_STREAM 0)\<lparr>so_local_port := Some port, so_peer := Some c\<rparr>
      else sk st j)"
  by (simp add: link_def upd_sk push_sk)

lemma link_views:
  assumes "c < nsk st"
  shows "peer_of (link c port st) = (peer_of st)(c := Some (nsk st), nsk st := Some c)"
    "pend (link c port st) = pend st" "buf_of (link c port st) = buf_of st"
  using assms by (auto simp: fun_eq_iff peer_of_def pend_def buf_of_def link_sk less_Suc_eq_le)

lemma connect_pair_full:
  "full st \<Longrightarrow> c < nsk st \<Longrightarrow> connect_pair c port st = (Inr (nsk st), link c port st)"
  by (simp add: connect_pair_def sock_simps push_full upd_full link_def)

lemma pairedD: "paired st \<Longrightarrow> peer_of st i = Some j \<Longrightarrow> i \<noteq> j \<and> peer_of st j = Some i"
  unfolding paired_def by blast

lemma link_ok:
  assumes "sock_ok st" "c < nsk st" "peer_of st c = None"
  shows "sock_ok (link c port st)"
proof -
  note v = link_views [OF assms(2), of port]
  have p: "paired st" and o: "owners_ok st" using assms(1) by (simp_all add: sock_ok_def)
  have n: "peer_of st (nsk st) = None" by (simp add: peer_of_def)
  have "paired (link c port st)"
    unfolding paired_def v
  proof (intro allI impI)
    fix i j assume a: "((peer_of st)(c := Some (nsk st), nsk st := Some c)) i = Some j"
    show "i \<noteq> j \<and> ((peer_of st)(c := Some (nsk st), nsk st := Some c)) j = Some i"
    proof (cases "i = c \<or> i = nsk st")
      case True
      then show ?thesis using a assms(2) by (auto split: if_splits)
    next
      case False
      then have "peer_of st i = Some j" using a by simp
      then have "i \<noteq> j" "peer_of st j = Some i" using pairedD [OF p] by blast+
      moreover have "j \<noteq> c" "j \<noteq> nsk st" using calculation assms(3) n by auto
      ultimately show ?thesis by simp
    qed
  qed
  moreover have "owners_ok (link c port st)"
    using o bound_in [OF assms(1)] unfolding owners_ok_def v link_bindings link_bound link_nsk
    by (intro conjI) (blast, fastforce, simp, blast)
  moreover have "full (link c port st)" using assms(1) by (simp add: link_def upd_full push_full)
  moreover have "\<forall>i < Suc (nsk st). fields_ok (sk (link c port st) i)"
    using assms(1,2) fields_new [of 0] fields_at [OF assms(1)]
    by (auto simp: link_sk less_Suc_eq_le fields_ok_def)
  ultimately show ?thesis using assms(1) by (simp add: sock_ok_def) (simp add: link_def)
qed

text \<open>Adding to and taking from an accept queue.\<close>

lemma pend_upd_at: "i < nsk st \<Longrightarrow> pend (upd i f st) = (pend st)(i := so_pending (f (sk st i)))"
  by (auto simp: fun_eq_iff pend_def upd_sk)

lemma sock_ok_pend:
  assumes "sock_ok st" "l < nsk st" "fields_ok ((sk st l)\<lparr>so_pending := q\<rparr>)" "distinct q"
    and q: "\<And>s. s \<in> set q \<Longrightarrow> peer_of st s \<noteq> None \<and> s \<notin> bound st \<and> (\<forall>i. i \<noteq> l \<longrightarrow> s \<notin> set (pend st i))"
  shows "sock_ok (upd l (\<lambda>s. s\<lparr>so_pending := q\<rparr>) st)"
proof -
  let ?st = "upd l (\<lambda>s. s\<lparr>so_pending := q\<rparr>) st"
  have p: "pend ?st = (pend st)(l := q)" using assms(2) by (simp add: pend_upd_at)
  have r: "peer_of ?st = peer_of st" by (rule peer_of_upd) (simp_all add: assms(2))
  have o: "owners_ok st" using assms(1) by (simp add: sock_ok_def)
  have "distinct (pend ?st i) \<and> set (pend ?st i) \<inter> bound st = {} \<and> (\<forall>j \<in> set (pend ?st i). peer_of st j \<noteq> None)" for i
    using o q assms(4) unfolding owners_ok_def p by (cases "i = l") (auto simp del: not_None_eq)
  moreover have "set (pend ?st i) \<inter> set (pend ?st j) = {}" if "i \<noteq> j" for i j
    using ownersD(4) [OF assms(1) that] q that unfolding p by (cases "i = l"; cases "j = l") auto
  ultimately have "owners_ok ?st"
    using o unfolding owners_ok_def r by simp
  moreover have "paired ?st" using assms(1) by (simp add: paired_cong [OF r] sock_ok_def)
  ultimately show ?thesis using assms(1-3) by (simp add: sock_ok_def upd_full upd_sk)
qed

lemma find_listener_Some:
  assumes "full st" "find_listener port (sockets st) = Some l"
  shows "l < nsk st" "so_listening (sk st l)" "so_local_port (sk st l) = Some port"
  using iter_position_Some [OF assms(2) [unfolded find_listener_def]] full_nth [OF assms(1), of l] by auto

section \<open>Runs\<close>

text \<open>
  The operations of all processes in the order they happen; the descriptor a new socket gets (if any is free) is part
  of the step. The log has the bytes sent and received and the connections queued and accepted.
\<close>

datatype sock_op =
    OpSocket pid "int option" int int int
  | OpBind pid int u16
  | OpListen pid int int
  | OpConnect pid int u16
  | OpAccept pid int "int option"
  | OpSend pid int "byte list"
  | OpRecv pid int nat
  | OpShutdown pid int int
  | OpClose pid int
  | OpBindTcp pid int nat
  | OpCloseTcp pid int

datatype sock_event =
    Sent SocketId SocketId "byte list"
  | Received SocketId "byte list"
  | Queued SocketId SocketId
  | Accepted SocketId SocketId

definition give_fd :: "pid \<Rightarrow> int option \<Rightarrow> SocketId \<Rightarrow> NetState \<Rightarrow> NetState" where
  "give_fd p fd sid st = (case fd of None \<Rightarrow> st | Some n \<Rightarrow> bind_fd p n sid st)"

fun sock_step :: "sock_op \<Rightarrow> NetState \<Rightarrow> sock_event list \<times> NetState" where
  "sock_step (OpSocket p fd d t pr) st = (case create_socket d t pr st of
     (Inl _, st') \<Rightarrow> ([], st') | (Inr sid, st') \<Rightarrow> ([], give_fd p fd sid st'))"
| "sock_step (OpBind p fd port) st = ([], snd (net_bind p fd port st))"
| "sock_step (OpListen p fd n) st = ([], snd (net_listen p fd n st))"
| "sock_step (OpConnect p fd port) st = (case net_connect p fd port st of
     (Inl _, st') \<Rightarrow> ([], st')
   | (Inr _, st') \<Rightarrow> (case find_listener port (sockets st) of
       None \<Rightarrow> ([], st') | Some l \<Rightarrow> ([Queued l (nsk st)], st')))"
| "sock_step (OpAccept p fd nfd) st = (case net_accept p fd st of
     (Inl _, st') \<Rightarrow> ([], st')
   | (Inr sid, st') \<Rightarrow> (case sid_by_fd st p fd of
       Inl _ \<Rightarrow> ([], st') | Inr l \<Rightarrow> ([Accepted l sid], give_fd p nfd sid st')))"
| "sock_step (OpSend p fd data) st = (case net_send p fd data st of
     (Inl _, st') \<Rightarrow> ([], st')
   | (Inr n, st') \<Rightarrow> (case sid_by_fd st p fd of
       Inl _ \<Rightarrow> ([], st')
     | Inr x \<Rightarrow> (case peer_of st x of None \<Rightarrow> ([], st') | Some y \<Rightarrow> ([Sent x y (take n data)], st'))))"
| "sock_step (OpRecv p fd m) st = (case net_recv p fd m st of
     (Inl _, st') \<Rightarrow> ([], st')
   | (Inr bs, st') \<Rightarrow> (case sid_by_fd st p fd of Inl _ \<Rightarrow> ([], st') | Inr x \<Rightarrow> ([Received x bs], st')))"
| "sock_step (OpShutdown p fd how) st = ([], snd (net_shutdown p fd how st))"
| "sock_step (OpClose p fd) st = ([], close_fd p fd st)"
| "sock_step (OpBindTcp p fd c) st = ([], bind_fd_tcp p fd c st)"
| "sock_step (OpCloseTcp p fd) st = ([], snd (close_fd_tcp p fd st))"

primrec sock_run :: "sock_op list \<Rightarrow> NetState \<Rightarrow> sock_event list \<times> NetState" where
  "sock_run [] st = ([], st)"
| "sock_run (x # xs) st = (case sock_step x st of (ev, st') \<Rightarrow> (case sock_run xs st' of (evs, r) \<Rightarrow> (ev @ evs, r)))"

definition sent_to :: "SocketId \<Rightarrow> sock_event list \<Rightarrow> byte list" where
  "sent_to y log = concat (map (\<lambda>e. case e of Sent _ z bs \<Rightarrow> if z = y then bs else [] | _ \<Rightarrow> []) log)"

definition received_by :: "SocketId \<Rightarrow> sock_event list \<Rightarrow> byte list" where
  "received_by y log = concat (map (\<lambda>e. case e of Received z bs \<Rightarrow> if z = y then bs else [] | _ \<Rightarrow> []) log)"

definition queued_at :: "SocketId \<Rightarrow> sock_event list \<Rightarrow> SocketId list" where
  "queued_at l log = concat (map (\<lambda>e. case e of Queued k s \<Rightarrow> if k = l then [s] else [] | _ \<Rightarrow> []) log)"

definition accepted_at :: "SocketId \<Rightarrow> sock_event list \<Rightarrow> SocketId list" where
  "accepted_at l log = concat (map (\<lambda>e. case e of Accepted k s \<Rightarrow> if k = l then [s] else [] | _ \<Rightarrow> []) log)"

definition linked :: "NetState \<Rightarrow> sock_event \<Rightarrow> bool" where
  "linked st e = (case e of Sent x y _ \<Rightarrow> peer_of st x = Some y \<and> peer_of st y = Some x | _ \<Rightarrow> True)"

lemmas log_defs = sent_to_def received_by_def queued_at_def accepted_at_def

text \<open>What a step or a run may do between two states, with its log.\<close>

definition explains :: "NetState \<Rightarrow> sock_event list \<Rightarrow> NetState \<Rightarrow> bool" where
  "explains st log st' \<longleftrightarrow>
     (\<forall>y. buf_of st y @ sent_to y log = received_by y log @ buf_of st' y)
   \<and> (\<forall>l. pend st l @ queued_at l log = accepted_at l log @ pend st' l)
   \<and> (\<forall>i j. peer_of st i = Some j \<longrightarrow> peer_of st' i = Some j)
   \<and> list_all (linked st') log"

lemma explains_quiet:
  "buf_of st' = buf_of st \<Longrightarrow> pend st' = pend st \<Longrightarrow> peer_of st' = peer_of st \<Longrightarrow> explains st [] st'"
  by (simp add: explains_def log_defs)

lemma linked_mono:
  "(\<And>i j. peer_of st i = Some j \<Longrightarrow> peer_of st' i = Some j) \<Longrightarrow> linked st e \<Longrightarrow> linked st' e"
  by (auto simp: linked_def split: sock_event.splits)

lemma append_chain: "a @ s = r @ b \<Longrightarrow> b @ s' = r' @ c \<Longrightarrow> a @ (s @ s') = (r @ r') @ c"
  by (metis append_assoc)

lemma explains_trans:
  assumes "explains a l b" "explains b m c"
  shows "explains a (l @ m) c"
proof -
  have mono: "\<And>i j. peer_of b i = Some j \<Longrightarrow> peer_of c i = Some j" using assms(2) unfolding explains_def by blast
  have "list_all (linked b) l" using assms(1) unfolding explains_def by blast
  then have "list_all (linked c) l" by (rule list.pred_mono_strong) (rule linked_mono [OF mono])
  moreover have "buf_of a y @ sent_to y (l @ m) = received_by y (l @ m) @ buf_of c y" for y
  proof -
    have "buf_of a y @ sent_to y l = received_by y l @ buf_of b y" "buf_of b y @ sent_to y m = received_by y m @ buf_of c y"
      using assms unfolding explains_def by blast+
    from append_chain [OF this] show ?thesis by (simp add: sent_to_def received_by_def)
  qed
  moreover have "pend a y @ queued_at y (l @ m) = accepted_at y (l @ m) @ pend c y" for y
  proof -
    have "pend a y @ queued_at y l = accepted_at y l @ pend b y" "pend b y @ queued_at y m = accepted_at y m @ pend c y"
      using assms unfolding explains_def by blast+
    from append_chain [OF this] show ?thesis by (simp add: queued_at_def accepted_at_def)
  qed
  moreover have "\<forall>i j. peer_of a i = Some j \<longrightarrow> peer_of c i = Some j"
    using assms unfolding explains_def by blast
  ultimately show ?thesis using assms(2) unfolding explains_def by simp
qed

section \<open>Every step is well behaved\<close>

definition good :: "NetState \<Rightarrow> sock_event list \<Rightarrow> NetState \<Rightarrow> bool" where
  "good st log st' \<longleftrightarrow> sock_ok st' \<and> explains st log st'"

lemma good_refl: "sock_ok st \<Longrightarrow> good st [] st"
  by (simp add: good_def explains_quiet)

lemma good_trans: "good a l b \<Longrightarrow> good b m c \<Longrightarrow> good a (l @ m) c"
  by (auto simp: good_def intro: explains_trans)

lemma good_upd:
  assumes "sock_ok st" "i < nsk st"
    and "so_pending (f (sk st i)) = so_pending (sk st i)" "so_peer (f (sk st i)) = so_peer (sk st i)"
    and "so_recv_buf (f (sk st i)) = so_recv_buf (sk st i)" "fields_ok (f (sk st i))"
  shows "good st [] (upd i f st)"
proof -
  have "buf_of (upd i f st) = buf_of st"
    using assms(2,5) by (simp add: buf_of_upd fun_eq_iff) (simp add: buf_of_def)
  then show ?thesis using assms by (simp add: good_def sock_ok_upd explains_quiet pend_upd peer_of_upd)
qed

lemma good_bindings:
  "sock_ok (st\<lparr>bindings := b\<rparr>) \<Longrightarrow> good st [] (st\<lparr>bindings := b\<rparr>)"
  by (simp add: good_def explains_quiet)

lemma good_give_fd:
  assumes "sock_ok st" "sid < nsk st" "sid \<notin> bound st" "\<And>i. sid \<notin> set (pend st i)"
  shows "good st [] (give_fd p fd sid st)"
proof (cases fd)
  case None
  then show ?thesis using assms(1) by (simp add: give_fd_def good_refl)
next
  case (Some n)
  have "sock_ok (bind_fd p n sid st)" by (rule bind_fd_ok [OF assms])
  then show ?thesis using good_bindings unfolding Some give_fd_def by (simp add: bind_fd_def)
qed

lemma good_socket: "sock_ok st \<Longrightarrow> good st (fst (sock_step (OpSocket p fd d t pr) st)) (snd (sock_step (OpSocket p fd d t pr) st))"
proof (cases "d = AF_INET \<and> t = SOCK_STREAM")
  case True
  assume st: "sock_ok st"
  let ?s = "socket_new AF_INET SOCK_STREAM pr"
  have ok: "sock_ok (push ?s st)" by (rule sock_ok_push [OF st]) (simp_all add: fields_new)
  have v: "peer_of (push ?s st) = peer_of st" "pend (push ?s st) = pend st" "buf_of (push ?s st) = buf_of st"
    by (rule push_views; simp)+
  have "good st [] (push ?s st)" using ok v by (simp add: good_def explains_quiet)
  moreover have "good (push ?s st) [] (give_fd p fd (nsk st) (push ?s st))"
  proof (rule good_give_fd [OF ok])
    show "nsk st \<notin> bound (push ?s st)" using bound_in [OF st, of "nsk st"] by (auto simp: bound_def)
    show "nsk st \<notin> set (pend (push ?s st) i)" for i using pend_in [OF st, of "nsk st" i] v by auto
  qed simp
  ultimately have "good st [] (give_fd p fd (nsk st) (push ?s st))" using good_trans by fastforce
  then show ?thesis using True st by (simp add: create_socket_def sock_simps)
next
  case False
  assume "sock_ok st"
  then show ?thesis using False by (auto simp: create_socket_def good_refl)
qed

lemma good_bind: "sock_ok st \<Longrightarrow> good st [] (snd (net_bind p fd port st))"
  by (auto simp: net_bind_def sock_simps good_refl fields_at [unfolded fields_ok_def] fields_ok_def
      split: sum.splits intro!: good_upd)

lemma good_listen: "sock_ok st \<Longrightarrow> good st [] (snd (net_listen p fd n st))"
  by (auto simp: net_listen_def sock_simps good_refl fields_at [unfolded fields_ok_def] fields_ok_def
      split: sum.splits intro!: good_upd)

lemma good_shutdown_sid:
  assumes "sock_ok st"
  shows "good st [] (snd (shutdown_sid sid how st))"
proof (cases "(how = 0 \<or> how = 1 \<or> how = 2) \<and> sid < nsk st")
  case False
  then show ?thesis using assms by (auto simp: shutdown_sid_def sock_simps Let_def good_refl)
next
  case True
  define set_wr where "set_wr \<longleftrightarrow> how = 1 \<or> how = 2"
  define f :: "Socket \<Rightarrow> Socket" where "f = (\<lambda>s. s\<lparr>so_shutdown_read := (how = 0 \<or> how = 2) \<or> so_shutdown_read s, so_shutdown_write := set_wr \<or> so_shutdown_write s\<rparr>)"
  let ?st = "upd sid f st"
  have g: "good st [] ?st" using assms True fields_at [OF assms, of sid]
    by (intro good_upd) (simp_all add: f_def fields_ok_def)
  then have ok: "sock_ok ?st" by (simp add: good_def)
  have g2: "good ?st [] (upd i (\<lambda>s. s\<lparr>so_peer_write_closed := True\<rparr>) ?st)" if "i < nsk st" for i
    using ok that fields_at [OF ok, of i] by (intro good_upd) (simp_all add: fields_ok_def)
  have e: "snd (shutdown_sid sid how st) = (case so_peer (sk ?st sid) of
      Some i \<Rightarrow> if set_wr then snd (socket_mut i (\<lambda>s. s\<lparr>so_peer_write_closed := True\<rparr>) ?st) else ?st | None \<Rightarrow> ?st)"
    using True assms ok by (auto simp: shutdown_sid_def sock_simps Let_def f_def set_wr_def upd_full split: option.splits)
  show ?thesis unfolding e using g good_trans [OF g g2] ok by (auto simp: sock_simps split: option.splits)
qed

lemma good_shutdown: "sock_ok st \<Longrightarrow> good st [] (snd (net_shutdown p fd how st))"
  by (simp add: net_shutdown_def good_refl good_shutdown_sid split: sum.splits)

lemma good_close:
  assumes "sock_ok st"
  shows "good st [] (close_fd p fd st)"
proof (cases "iter_position (\<lambda>b. fb_pid b = p \<and> fb_fd b = fd) (bindings st)")
  case None
  then show ?thesis using assms by (simp add: close_fd_def good_refl)
next
  case (Some idx)
  let ?st = "st\<lparr>bindings := swap_remove idx (bindings st)\<rparr>"
  have "sock_ok ?st" using iter_position_Some [OF Some] by (intro close_bindings_ok [OF assms]) simp
  from good_trans [OF good_bindings [OF this] good_shutdown_sid [OF this]]
  show ?thesis by (simp add: close_fd_def Some Let_def)
qed

lemma good_tcp: "sock_ok st \<Longrightarrow> good st [] (st\<lparr>tcp_bindings := b\<rparr>)"
proof -
  assume ok: "sock_ok st"
  let ?st = "st\<lparr>tcp_bindings := b\<rparr>"
  have v: "peer_of ?st = peer_of st" "pend ?st = pend st" "buf_of ?st = buf_of st"
    by (simp_all add: fun_eq_iff peer_of_def pend_def buf_of_def)
  have "paired ?st = paired st" by (rule paired_cong [OF v(1)])
  moreover have "owners_ok ?st = owners_ok st" by (rule owners_cong) (simp_all add: v)
  ultimately have "sock_ok ?st" using ok by (simp add: sock_ok_def)
  then show ?thesis using v by (simp add: good_def explains_quiet)
qed

lemma good_connect_port:
  assumes "sock_ok st" "c < nsk st"
  shows "\<exists>st'. connect_port c (sk st c) st = (Inr (), st') \<and> good st [] st' \<and> nsk st' = nsk st
    \<and> (\<forall>l. l \<noteq> c \<longrightarrow> sk st' l = sk st l) \<and> bindings st' = bindings st"
proof (cases "so_local_port (sk st c) = None")
  case True
  obtain e q where e: "alloc_ephemeral st = (e, st\<lparr>next_ephemeral_port := q\<rparr>)" "q \<ge> 49152"
    using alloc_ephemeral_loop_ok [OF assms(1)] unfolding alloc_ephemeral_def by blast
  let ?st = "st\<lparr>next_ephemeral_port := q\<rparr>"
  have ok: "sock_ok ?st" using assms(1) e(2) by (rule port_ok)
  have "good st [] ?st" using ok by (simp add: good_def explains_quiet)
  moreover have "good ?st [] (upd c (\<lambda>s. s\<lparr>so_local_port := Some e\<rparr>) ?st)"
    using assms(2) fields_at [OF assms] by (intro good_upd [OF ok]) (simp_all add: fields_ok_def)
  ultimately have "good st [] (upd c (\<lambda>s. s\<lparr>so_local_port := Some e\<rparr>) ?st)" using good_trans by fastforce
  then show ?thesis using True e assms by (simp add: connect_port_def sock_simps upd_sk)
next
  case False
  then have "connect_port c (sk st c) st = (Inr (), st)" unfolding connect_port_def by (simp only: if_False)
  then show ?thesis using good_refl [OF assms(1)] by simp
qed

lemma good_connect_port_peer:
  "sock_ok st \<Longrightarrow> c < nsk st \<Longrightarrow> connect_port c (sk st c) st = (Inr (), st') \<Longrightarrow> peer_of st' = peer_of st"
  using alloc_ephemeral_loop_ok [of st 4096]
  by (auto simp: connect_port_def alloc_ephemeral_def sock_simps peer_of_upd split: if_splits prod.splits)

lemma connect_port_write:
  "sock_ok st \<Longrightarrow> c < nsk st \<Longrightarrow> connect_port c (sk st c) st = (Inr (), st')
   \<Longrightarrow> so_shutdown_write (sk st' c) = so_shutdown_write (sk st c)"
  using alloc_ephemeral_loop_ok [of st 4096]
  by (auto simp: connect_port_def alloc_ephemeral_def sock_simps upd_sk split: if_splits prod.splits)

lemma good_link:
  assumes "sock_ok st" "c < nsk st" "peer_of st c = None"
  shows "good st [] (link c port st)"
proof -
  have n: "peer_of st (nsk st) = None" by (simp add: peer_of_def)
  have "explains st [] (link c port st)"
    using link_views [OF assms(2), of port] assms(3) n by (auto simp: explains_def log_defs)
  then show ?thesis using link_ok [OF assms] by (simp add: good_def)
qed

lemma good_enqueue:
  assumes "sock_ok st" "l < nsk st" "so_listening (sk st l)" "length (pend st l) < so_backlog (sk st l)"
    and "peer_of st s \<noteq> None" "s \<notin> bound st" "\<And>i. s \<notin> set (pend st i)"
  shows "good st [Queued l s] (upd l (\<lambda>x. x\<lparr>so_pending := so_pending x @ [s]\<rparr>) st)"
proof -
  let ?q = "so_pending (sk st l) @ [s]"
  let ?st = "upd l (\<lambda>x. x\<lparr>so_pending := so_pending x @ [s]\<rparr>) st"
  have p: "pend st l = so_pending (sk st l)" using assms(2) by (simp add: pend_def)
  have e: "?st = upd l (\<lambda>x. x\<lparr>so_pending := ?q\<rparr>) st" by (simp add: upd_def)
  have "sock_ok ?st" unfolding e
  proof (rule sock_ok_pend [OF assms(1,2)])
    show "fields_ok ((sk st l)\<lparr>so_pending := ?q\<rparr>)"
      using fields_at [OF assms(1,2)] assms(3,4) p by (simp add: fields_ok_def)
    show "distinct ?q" using ownersD(2) [OF assms(1), of l] assms(7) [of l] p by simp
    show "peer_of st x \<noteq> None \<and> x \<notin> bound st \<and> (\<forall>i. i \<noteq> l \<longrightarrow> x \<notin> set (pend st i))" if "x \<in> set ?q" for x
      using that assms(5-7) pend_in [OF assms(1), of x l] ownersD(4) [OF assms(1), of _ l] p by auto
  qed
  moreover have "pend ?st = (pend st)(l := pend st l @ [s])" using assms(2) p by (simp add: pend_upd_at)
  moreover have "buf_of ?st = buf_of st" using assms(2) by (simp add: buf_of_upd fun_eq_iff) (simp add: buf_of_def)
  moreover have "peer_of ?st = peer_of st" by (rule peer_of_upd) (simp_all add: assms(2))
  ultimately show ?thesis by (simp add: good_def explains_def log_defs linked_def)
qed

lemma good_connect:
  assumes "sock_ok st"
  shows "good st (fst (sock_step (OpConnect p fd port) st)) (snd (sock_step (OpConnect p fd port) st))"
proof (cases "\<exists>c l. sid_by_fd st p fd = Inr c \<and> find_listener port (sockets st) = Some l
    \<and> so_peer (sk st c) = None \<and> \<not> so_listening (sk st c)")
  case False
  have "\<exists>e. net_connect p fd port st = (Inl e, st)"
  proof (cases "sid_by_fd st p fd")
    case (Inl a)
    then show ?thesis by (simp add: net_connect_def)
  next
    case (Inr c)
    then show ?thesis using False assms sid_by_fd_in [OF assms Inr]
      by (cases "find_listener port (sockets st)") (auto simp: net_connect_def sock_simps)
  qed
  then show ?thesis using assms by (auto simp: good_refl)
next
  case True
  then obtain c l where cl: "sid_by_fd st p fd = Inr c" "find_listener port (sockets st) = Some l"
    "so_peer (sk st c) = None" "\<not> so_listening (sk st c)" by blast
  have c: "c < nsk st" by (rule sid_by_fd_in [OF assms cl(1)])
  note l = find_listener_Some [OF sock_ok_full [OF assms] cl(2)]
  obtain st1 where st1: "connect_port c (sk st c) st = (Inr (), st1)" "good st [] st1" "nsk st1 = nsk st"
    "\<forall>k. k \<noteq> c \<longrightarrow> sk st1 k = sk st k" "bindings st1 = bindings st"
    using good_connect_port [OF assms c] by blast
  have ok1: "sock_ok st1" using st1(2) by (simp add: good_def)
  have lc: "l \<noteq> c" using l(2) cl(4) by auto
  have p1: "peer_of st1 c = None"
    using good_connect_port_peer [OF assms c st1(1)] cl(3) c by (simp add: peer_of_def)
  let ?st = "link c port st1"
  have g: "good st [] ?st" using good_trans [OF st1(2) good_link [OF ok1 _ p1]] c st1(3) by simp
  then have ok: "sock_ok ?st" by (simp add: good_def)
  have sl: "sk ?st l = sk st l" using lc l(1) c st1(3,4) by (simp add: link_sk)
  have e: "net_connect p fd port st = connect_enqueue l (nsk st) ?st"
    using cl c st1 assms ok1 by (simp add: net_connect_def sock_simps connect_pair_full)
  show ?thesis
  proof (cases "length (so_pending (sk st l)) \<ge> so_backlog (sk st l)")
    case True
    then show ?thesis using g ok l(1) st1(3) sl by (simp add: e connect_enqueue_def sock_simps)
  next
    case False
    have "good ?st [Queued l (nsk st)] (upd l (\<lambda>x. x\<lparr>so_pending := so_pending x @ [nsk st]\<rparr>) ?st)"
    proof (rule good_enqueue [OF ok])
      show "l < nsk ?st" using l(1) st1(3) by simp
      then show "length (pend ?st l) < so_backlog (sk ?st l)" using False sl by (simp add: pend_def)
      show "so_listening (sk ?st l)" using sl l(2) by simp
      show "peer_of ?st (nsk st) \<noteq> None" using c st1(3) by (simp add: link_views)
      show "nsk st \<notin> bound ?st" using bound_in [OF ok1, of "nsk st"] st1(3) by auto
      show "nsk st \<notin> set (pend ?st i)" for i using pend_in [OF ok1, of "nsk st" i] c st1(3) by (auto simp: link_views)
    qed
    then show ?thesis using good_trans [OF g] False ok l(1) st1(3) sl cl(2)
      by (simp add: e connect_enqueue_def sock_simps)
  qed
qed

lemma good_dequeue:
  assumes "sock_ok st" "l < nsk st" "pend st l = s # rest"
  defines "st' \<equiv> upd l (\<lambda>x. x\<lparr>so_pending := rest\<rparr>) st"
  shows "good st [Accepted l s] st'" "s < nsk st'" "s \<notin> bound st'" "\<And>i. s \<notin> set (pend st' i)"
proof -
  have q: "so_pending (sk st l) = s # rest" using assms(2,3) by (simp add: pend_def)
  have d: "distinct (s # rest)" using ownersD(2) [OF assms(1), of l] assms(3) by simp
  have ok: "sock_ok st'" unfolding st'_def
  proof (rule sock_ok_pend [OF assms(1,2)])
    show "fields_ok ((sk st l)\<lparr>so_pending := rest\<rparr>)"
      using fields_at [OF assms(1,2)] q by (simp add: fields_ok_def)
    show "distinct rest" using d by simp
    show "peer_of st x \<noteq> None \<and> x \<notin> bound st \<and> (\<forall>i. i \<noteq> l \<longrightarrow> x \<notin> set (pend st i))" if "x \<in> set rest" for x
      using that pend_in [OF assms(1), of x l] ownersD(4) [OF assms(1), of _ l] assms(3) by auto
  qed
  have p: "pend st' = (pend st)(l := rest)" using assms(2) by (simp add: st'_def pend_upd_at)
  have "buf_of st' = buf_of st"
    using assms(2) unfolding st'_def by (simp add: buf_of_upd fun_eq_iff) (simp add: buf_of_def)
  moreover have "peer_of st' = peer_of st" unfolding st'_def by (rule peer_of_upd) (simp_all add: assms(2))
  ultimately show "good st [Accepted l s] st'"
    using ok p assms(3) by (simp add: good_def explains_def log_defs linked_def)
  show "s < nsk st'" "s \<notin> bound st'" using pend_in [OF assms(1), of s l] assms(3) by (simp_all add: st'_def)
  show "s \<notin> set (pend st' i)" for i
    using d ownersD(4) [OF assms(1), of i l] assms(3) unfolding p by (cases "i = l") auto
qed

lemma good_accept:
  assumes "sock_ok st"
  shows "good st (fst (sock_step (OpAccept p fd nfd) st)) (snd (sock_step (OpAccept p fd nfd) st))"
proof (cases "sid_by_fd st p fd")
  case (Inl e)
  then show ?thesis using assms by (simp add: net_accept_def good_refl)
next
  case (Inr l)
  then have l: "l < nsk st" by (rule sid_by_fd_in [OF assms])
  then have p: "pend st l = so_pending (sk st l)" by (simp add: pend_def)
  show ?thesis
  proof (cases "so_listening (sk st l) \<and> so_pending (sk st l) \<noteq> []")
    case False
    then have "\<exists>e. net_accept p fd st = (Inl e, st)"
      using assms l by (cases "so_pending (sk st l)") (auto simp: net_accept_def Inr sock_simps)
    then show ?thesis using assms by (auto simp: good_refl)
  next
    case True
    then obtain s rest where sr: "pend st l = s # rest" using p by (cases "so_pending (sk st l)") auto
    note g = good_dequeue [OF assms l sr]
    have "net_accept p fd st = (Inr s, upd l (\<lambda>x. x\<lparr>so_pending := rest\<rparr>) st)"
      using True assms l p [symmetric] sr by (simp add: net_accept_def Inr sock_simps)
    then show ?thesis
      using good_trans [OF g(1) good_give_fd [OF _ g(2-4)]] g(1) by (simp add: Inr good_def)
  qed
qed

lemma good_send:
  assumes "sock_ok st"
  shows "good st (fst (sock_step (OpSend p fd data) st)) (snd (sock_step (OpSend p fd data) st))"
proof (cases "\<exists>x y. sid_by_fd st p fd = Inr x \<and> peer_of st x = Some y \<and> \<not> so_shutdown_write (sk st x)
    \<and> \<not> so_shutdown_read (sk st y)")
  case False
  have "\<exists>e. net_send p fd data st = (Inl e, st)"
  proof (cases "sid_by_fd st p fd")
    case (Inr x)
    then show ?thesis using False assms sid_by_fd_in [OF assms Inr]
      by (cases "so_peer (sk st x)") (auto simp: net_send_def sock_simps peer_of_def)
  qed (simp add: net_send_def)
  then show ?thesis using assms by (auto simp: good_refl)
next
  case True
  then obtain x y where xy: "sid_by_fd st p fd = Inr x" "peer_of st x = Some y" "\<not> so_shutdown_write (sk st x)"
    "\<not> so_shutdown_read (sk st y)" by blast
  have x: "x < nsk st" by (rule sid_by_fd_in [OF assms xy(1)])
  have y: "y < nsk st" by (rule peer_in [OF assms xy(2)])
  have sym: "peer_of st y = Some x" using pairedD [OF _ xy(2)] assms by (simp add: sock_ok_def)
  let ?f = "\<lambda>s. s\<lparr>so_recv_buf := so_recv_buf s @ data\<rparr>"
  have "net_send p fd data st = (Inr (length data), upd y ?f st)"
    using xy x y assms by (simp add: net_send_def sock_simps peer_of_def)
  moreover have "sock_ok (upd y ?f st)"
    using y fields_at [OF assms y] by (intro sock_ok_upd [OF assms]) (simp_all add: fields_ok_def)
  moreover have "peer_of (upd y ?f st) = peer_of st" "pend (upd y ?f st) = pend st"
    "buf_of (upd y ?f st) = (buf_of st)(y := buf_of st y @ data)"
    using y by (simp_all add: peer_of_upd pend_upd buf_of_upd) (simp add: buf_of_def)
  ultimately show ?thesis using xy(1,2) sym
    by (simp add: good_def explains_def log_defs linked_def)
qed

lemma good_recv:
  assumes "sock_ok st"
  shows "good st (fst (sock_step (OpRecv p fd m) st)) (snd (sock_step (OpRecv p fd m) st))"
proof (cases "sid_by_fd st p fd")
  case (Inl e)
  then show ?thesis using assms by (simp add: net_recv_def good_refl)
next
  case (Inr x)
  then have x: "x < nsk st" by (rule sid_by_fd_in [OF assms])
  show ?thesis
  proof (cases "so_shutdown_read (sk st x) \<or> so_recv_buf (sk st x) = []")
    case True
    then have "(\<exists>e. net_recv p fd m st = (Inl e, st)) \<or> net_recv p fd m st = (Inr [], st)"
      using assms x by (auto simp: net_recv_def Inr sock_simps)
    moreover have "good st [Received x []] st"
      using assms by (simp add: good_def explains_def log_defs linked_def)
    ultimately show ?thesis using assms by (auto simp: Inr good_refl)
  next
    case False
    let ?n = "min m (length (so_recv_buf (sk st x)))"
    let ?f = "\<lambda>s. s\<lparr>so_recv_buf := drop ?n (so_recv_buf s)\<rparr>"
    have "net_recv p fd m st = (Inr (take ?n (so_recv_buf (sk st x))), upd x ?f st)"
      using False x assms by (simp add: net_recv_def Inr sock_simps Let_def)
    moreover have "sock_ok (upd x ?f st)"
      using x fields_at [OF assms x] by (intro sock_ok_upd [OF assms]) (simp_all add: fields_ok_def)
    moreover have "peer_of (upd x ?f st) = peer_of st" "pend (upd x ?f st) = pend st"
      "buf_of (upd x ?f st) = (buf_of st)(x := drop ?n (so_recv_buf (sk st x)))"
      using x by (simp_all add: peer_of_upd pend_upd buf_of_upd)
    moreover have "buf_of st x = so_recv_buf (sk st x)" using x by (simp add: buf_of_def)
    ultimately show ?thesis
      by (simp add: Inr good_def explains_def log_defs linked_def)
  qed
qed

lemma good_step:
  assumes "sock_ok st"
  shows "good st (fst (sock_step op st)) (snd (sock_step op st))"
proof (cases op)
  case (OpBindTcp p fd c)
  then show ?thesis using good_tcp [OF assms] by (simp add: bind_fd_tcp_def)
next
  case (OpCloseTcp p fd)
  then show ?thesis using good_tcp [OF assms] good_refl [OF assms] by (simp add: close_fd_tcp_def split: option.splits)
qed (simp_all only: sock_step.simps(2,3,8,9) fst_conv snd_conv
    good_socket good_bind good_listen good_connect good_accept good_send good_recv good_shutdown good_close assms)

lemma good_run: "sock_ok st \<Longrightarrow> good st (fst (sock_run ops st)) (snd (sock_run ops st))"
proof (induction ops arbitrary: st)
  case Nil
  then show ?case by (simp add: good_refl)
next
  case (Cons op ops)
  note g = good_step [OF Cons.prems, of op]
  then have "sock_ok (snd (sock_step op st))" by (simp add: good_def)
  from good_trans [OF g Cons.IH [OF this]] show ?case by (simp add: case_prod_beta)
qed

section \<open>Sockets nobody owns\<close>

text \<open>A socket that no descriptor and no accept queue holds can not be reached again: a descriptor is given a
  new socket or the head of an accept queue, and what is queued is new.\<close>

definition orphan :: "NetState \<Rightarrow> SocketId \<Rightarrow> bool" where
  "orphan st k \<longleftrightarrow> k < nsk st \<and> k \<notin> bound st \<and> (\<forall>i. k \<notin> set (pend st i))"

lemma socket_mut_bindings [simp]: "bindings (snd (socket_mut i f st)) = bindings st"
  by (simp add: socket_mut_def split: sum.splits)

lemma socket_mut_binds: "socket_mut i f st = (r, st') \<Longrightarrow> bindings st' = bindings st"
  using socket_mut_bindings [of i f st] by simp

lemma shutdown_bindings [simp]: "bindings (snd (shutdown_sid sid how st)) = bindings st"
  unfolding shutdown_sid_def Let_def
  by (simp split: sum.split prod.split option.split if_split) (blast dest: socket_mut_binds)

lemma close_bound: "bound (close_fd p fd st) \<subseteq> bound st"
proof (cases "iter_position (\<lambda>b. fb_pid b = p \<and> fb_fd b = fd) (bindings st)")
  case (Some idx)
  then have "mset (swap_remove idx (bindings st)) + {#bindings st ! idx#} = mset (bindings st)"
    using iter_position_Some [OF Some] by (intro swap_remove_mset) simp
  then have "set (swap_remove idx (bindings st)) \<subseteq> set (bindings st)"
    by (metis mset_subset_eq_add_left set_mset_mono set_mset_mset)
  then show ?thesis using Some by (auto simp: close_fd_def Let_def bound_def)
qed (simp add: close_fd_def)

lemma connect_bindings:
  assumes "sock_ok st"
  shows "bindings (snd (net_connect p fd port st)) = bindings st"
proof (cases "\<exists>c l. sid_by_fd st p fd = Inr c \<and> find_listener port (sockets st) = Some l
    \<and> so_peer (sk st c) = None \<and> \<not> so_listening (sk st c)")
  case True
  then obtain c l where cl: "sid_by_fd st p fd = Inr c" "find_listener port (sockets st) = Some l"
    "so_peer (sk st c) = None" "\<not> so_listening (sk st c)" by blast
  have c: "c < nsk st" by (rule sid_by_fd_in [OF assms cl(1)])
  obtain st1 where st1: "connect_port c (sk st c) st = (Inr (), st1)" "good st [] st1" "nsk st1 = nsk st" "bindings st1 = bindings st"
    using good_connect_port [OF assms c] by blast
  have "net_connect p fd port st = connect_enqueue l (nsk st) (link c port st1)"
    using cl c st1 assms by (simp add: net_connect_def sock_simps connect_pair_full good_def)
  then show ?thesis using st1(4) by (simp add: connect_enqueue_def split: sum.splits)
next
  case False
  then show ?thesis using assms sid_by_fd_in [OF assms]
    by (auto simp: net_connect_def sock_simps split: sum.splits option.splits)
qed

lemma step_bound:
  assumes "sock_ok st" "k \<in> bound (snd (sock_step op st))"
  shows "k \<in> bound st \<or> k = nsk st \<or> (\<exists>i. k \<in> set (pend st i))"
proof (cases op)
  case (OpSocket p fd d t pr)
  then show ?thesis using assms
    by (auto simp: create_socket_def sock_simps give_fd_def bind_fd_def bound_def split: if_splits option.splits)
next
  case (OpConnect p fd port)
  then have "bindings (snd (sock_step op st)) = bindings st"
    using connect_bindings [OF assms(1), of p fd port] by (auto split: sum.splits prod.splits option.splits)
  then show ?thesis using assms(2) by (simp add: bound_def)
next
  case (OpAccept p fd nfd)
  then show ?thesis using assms sid_by_fd_in [OF assms(1)]
    by (auto simp: net_accept_def sock_simps give_fd_def bind_fd_def bound_def pend_def split: sum.splits list.splits if_splits option.splits)
      (metis list.set_intros(1))+
next
  case (OpClose p fd)
  then show ?thesis using assms(2) close_bound by auto
qed (use assms in \<open>auto simp: net_bind_def net_listen_def net_send_def net_recv_def net_shutdown_def bind_fd_tcp_def close_fd_tcp_def
    bound_def Let_def split: sum.splits option.splits if_splits\<close>)

lemma step_events:
  assumes "sock_ok st"
  shows "Queued l s \<in> set (fst (sock_step op st)) \<Longrightarrow> s = nsk st"
    "Received x bs \<in> set (fst (sock_step op st)) \<Longrightarrow> x \<in> bound st"
  by (cases op; auto split: sum.splits prod.splits option.splits intro: sid_by_fd_bound)+

lemma received_none: "(\<And>bs. Received k bs \<notin> set log) \<Longrightarrow> received_by k log = []"
  by (auto simp: received_by_def split: sock_event.splits)

lemma queued_in: "s \<in> set (queued_at l log) \<Longrightarrow> Queued l s \<in> set log"
  by (auto simp: queued_at_def split: sock_event.splits if_splits)

lemma orphan_step:
  assumes "sock_ok st" "orphan st k" "peer_of st k \<noteq> None"
  shows "orphan (snd (sock_step op st)) k \<and> received_by k (fst (sock_step op st)) = []"
proof -
  let ?log = "fst (sock_step op st)" and ?st = "snd (sock_step op st)"
  have g: "good st ?log ?st" by (rule good_step [OF assms(1)])
  then have "peer_of ?st k \<noteq> None" using assms(3) by (auto simp: good_def explains_def)
  then have "k < nsk ?st" by (auto simp: peer_of_def split: if_splits)
  moreover have "k \<notin> bound ?st" using step_bound [OF assms(1), of k op] assms(2) by (auto simp: orphan_def)
  moreover have "k \<notin> set (pend ?st i)" for i
  proof
    assume "k \<in> set (pend ?st i)"
    then have "k \<in> set (pend st i @ queued_at i ?log)" using g by (auto simp: good_def explains_def)
    then show False using assms(2) queued_in [of k i ?log] step_events(1) [OF assms(1), of i k op] by (auto simp: orphan_def)
  qed
  moreover have "received_by k ?log = []"
    using step_events(2) [OF assms(1), of k _ op] assms(2) by (intro received_none) (auto simp: orphan_def)
  ultimately show ?thesis by (simp add: orphan_def)
qed

lemma orphan_run:
  "sock_ok st \<Longrightarrow> orphan st k \<Longrightarrow> peer_of st k \<noteq> None
   \<Longrightarrow> orphan (snd (sock_run ops st)) k \<and> received_by k (fst (sock_run ops st)) = []"
proof (induction ops arbitrary: st)
  case (Cons op ops)
  have g: "good st (fst (sock_step op st)) (snd (sock_step op st))" by (rule good_step [OF Cons.prems(1)])
  then have "peer_of (snd (sock_step op st)) k \<noteq> None" using Cons.prems(3) by (auto simp: good_def explains_def)
  moreover have "sock_ok (snd (sock_step op st))" using g by (simp add: good_def)
  ultimately show ?case using orphan_step [OF Cons.prems, of op] Cons.IH [of "snd (sock_step op st)"]
    by (simp add: case_prod_beta) (simp add: received_by_def)
qed (simp add: received_by_def)

section \<open>Properties\<close>

text \<open>C38: whatever the processes do, the socket table stays well formed: no slot is empty, peers are paired
  with each other, no socket has two owners among the descriptors and accept queues, an accept queue
  holds at most 128 sockets, all connected, and only if its socket listens on a port.\<close>

theorem sockets_typed: "sock_ok (snd (sock_run ops net_state_new))"
  using good_run [OF sock_ok_new] by (simp add: good_def)

text \<open>C39: over any operations of any processes, the bytes received from a socket and those still in its
  buffer are, in order, the bytes the peer sent, each once; all bytes sent to a socket come from the
  one socket it is paired with; and \<open>accept\<close> hands out connections in the order they were made.\<close>

theorem loopback_fifo:
  "case sock_run ops net_state_new of (log, st) \<Rightarrow>
     (\<forall>y. sent_to y log = received_by y log @ buf_of st y)
   \<and> list_all (linked st) log
   \<and> (\<forall>l. queued_at l log = accepted_at l log @ pend st l)"
proof -
  have n: "buf_of net_state_new y = []" "pend net_state_new y = []" for y
    by (simp_all add: buf_of_def pend_def net_state_new_def)
  have "explains net_state_new (fst (sock_run ops net_state_new)) (snd (sock_run ops net_state_new))"
    using good_run [OF sock_ok_new] by (simp add: good_def)
  then show ?thesis by (simp add: explains_def n case_prod_beta)
qed

text \<open>C40: a \<open>connect\<close> to a listener whose accept queue is full fails with \<open>Again\<close> after the client
  has been linked to a new endpoint, which no descriptor and no queue holds. Sends on the client
  succeed. Whatever any process does from then on, the endpoint stays without an owner and linked to the
  client, every byte sent to it stays in its buffer and is received by nobody, and no
  descriptor of the client can ever connect.\<close>

theorem connect_backlog_full:
  assumes "sock_ok st" "sid_by_fd st p fd = Inr c" "find_listener port (sockets st) = Some l"
    and "so_peer (sk st c) = None" "\<not> so_listening (sk st c)" "\<not> so_shutdown_write (sk st c)"
    and "so_backlog (sk st l) \<le> length (so_pending (sk st l))"
  shows "\<exists>st'. net_connect p fd port st = (Inl Again, st')
    \<and> (\<forall>data. fst (net_send p fd data st') = Inr (length data))
    \<and> (\<forall>ops. case sock_run ops st' of (log, st'') \<Rightarrow>
        nsk st \<notin> bound st'' \<and> (\<forall>i. nsk st \<notin> set (pend st'' i))
      \<and> peer_of st'' c = Some (nsk st) \<and> peer_of st'' (nsk st) = Some c
      \<and> received_by (nsk st) log = [] \<and> buf_of st'' (nsk st) = sent_to (nsk st) log
      \<and> (\<forall>q g port'. sid_by_fd st'' q g = Inr c \<longrightarrow> fst (net_connect q g port' st'') \<noteq> Inr ()))"
proof -
  have c: "c < nsk st" by (rule sid_by_fd_in [OF assms(1,2)])
  note l = find_listener_Some [OF sock_ok_full [OF assms(1)] assms(3)]
  obtain st1 where st1: "connect_port c (sk st c) st = (Inr (), st1)" "good st [] st1" "nsk st1 = nsk st"
    "\<forall>k. k \<noteq> c \<longrightarrow> sk st1 k = sk st k" "bindings st1 = bindings st"
    using good_connect_port [OF assms(1) c] by blast
  have ok1: "sock_ok st1" using st1(2) by (simp add: good_def)
  let ?st = "link c port st1"
  have lc: "l \<noteq> c" using l(2) assms(5) by auto
  have p1: "peer_of st1 c = None"
    using good_connect_port_peer [OF assms(1) c st1(1)] assms(4) c by (simp add: peer_of_def)
  have ok: "sock_ok ?st" using link_ok [OF ok1 _ p1] c st1(3) by simp
  have sl: "sk ?st l = sk st l" using lc l(1) c st1(3,4) by (simp add: link_sk)
  have n: "net_connect p fd port st = (Inl Again, ?st)"
    using assms c l(1) sl st1 ok1 ok
    by (simp add: net_connect_def sock_simps connect_pair_full connect_enqueue_def)
  have sid: "sid_by_fd ?st p fd = Inr c" using assms(2) st1(5) by (simp add: sid_by_fd_def)
  have sc: "so_peer (sk ?st c) = Some (nsk st)" "\<not> so_shutdown_write (sk ?st c)"
    using c st1(1,3) connect_port_write [OF assms(1) c st1(1)] assms(6) by (simp_all add: link_sk)
  have sn: "\<not> so_shutdown_read (sk ?st (nsk st))" using c st1(3) by (simp add: link_sk socket_new_def)
  have send: "fst (net_send p fd data ?st) = Inr (length data)" for data
    using sid sc sn c st1(3) ok by (simp add: net_send_def sock_simps)
  have orph: "orphan ?st (nsk st)" unfolding orphan_def
    using bound_in [OF ok1, of "nsk st"] pend_in [OF ok1, of "nsk st"] c st1(3) by (auto simp: link_views)
  have peers: "peer_of ?st c = Some (nsk st)" "peer_of ?st (nsk st) = Some c" "buf_of ?st (nsk st) = []"
    using c st1(3) by (auto simp: link_views) (simp add: buf_of_def)
  have later: "orphan st'' (nsk st) \<and> received_by (nsk st) log = [] \<and> peer_of st'' c = Some (nsk st) \<and> peer_of st'' (nsk st) = Some c
      \<and> buf_of st'' (nsk st) = sent_to (nsk st) log
      \<and> (\<forall>q g port'. sid_by_fd st'' q g = Inr c \<longrightarrow> fst (net_connect q g port' st'') \<noteq> Inr ())"
    if run: "sock_run ops ?st = (log, st'')" for ops log st''
  proof -
    have g: "sock_ok st''" "explains ?st log st''" using good_run [OF ok, of ops] run by (simp_all add: good_def)
    have o: "orphan st'' (nsk st)" "received_by (nsk st) log = []" using orphan_run [OF ok orph, of ops] peers(2) run by simp_all
    have pc: "peer_of st'' c = Some (nsk st)" "peer_of st'' (nsk st) = Some c" using g(2) peers(1,2) by (auto simp: explains_def)
    have "fst (net_connect q g' port' st'') \<noteq> Inr ()" if "sid_by_fd st'' q g' = Inr c" for q g' port'
      using that pc(1) g(1) by (auto simp: net_connect_def sock_simps peer_of_def split: option.splits if_splits)
    moreover have "buf_of st'' (nsk st) = sent_to (nsk st) log" using g(2) o(2) peers(3) unfolding explains_def by (metis append_Nil)
    ultimately show ?thesis using o pc by blast
  qed
  have "case sock_run ops ?st of (log, st'') \<Rightarrow>
        nsk st \<notin> bound st'' \<and> (\<forall>i. nsk st \<notin> set (pend st'' i))
      \<and> peer_of st'' c = Some (nsk st) \<and> peer_of st'' (nsk st) = Some c
      \<and> received_by (nsk st) log = [] \<and> buf_of st'' (nsk st) = sent_to (nsk st) log
      \<and> (\<forall>q g port'. sid_by_fd st'' q g = Inr c \<longrightarrow> fst (net_connect q g port' st'') \<noteq> Inr ())" for ops
    using later [of ops] by (cases "sock_run ops ?st") (simp add: orphan_def)
  then show ?thesis using n send by blast
qed

definition backlog_demo :: NetState where
  "backlog_demo = snd (sock_run [OpSocket 1 (Some 3) AF_INET SOCK_STREAM 0, OpBind 1 3 80, OpListen 1 3 1,
     OpSocket 2 (Some 3) AF_INET SOCK_STREAM 0, OpConnect 2 3 80, OpSocket 2 (Some 4) AF_INET SOCK_STREAM 0] net_state_new)"

theorem connect_backlog_full_witness:
  "\<exists>st'. net_connect 2 4 80 backlog_demo = (Inl Again, st') \<and> fst (net_send 2 4 [7, 8] st') = Inr 2
    \<and> (case sock_run [OpSend 2 4 [7, 8], OpAccept 1 3 (Some 5), OpRecv 1 5 9] st' of (log, st'') \<Rightarrow>
        nsk backlog_demo \<notin> bound st'' \<and> received_by (nsk backlog_demo) log = []
        \<and> buf_of st'' (nsk backlog_demo) = sent_to (nsk backlog_demo) log)"
proof -
  have ok: "sock_ok backlog_demo" unfolding backlog_demo_def by (rule conjunct1 [OF good_run [OF sock_ok_new, unfolded good_def]])
  have h: "sid_by_fd backlog_demo 2 4 = Inr 3 \<and> find_listener 80 (sockets backlog_demo) = Some 0
    \<and> so_peer (sk backlog_demo 3) = None \<and> \<not> so_listening (sk backlog_demo 3) \<and> \<not> so_shutdown_write (sk backlog_demo 3)
    \<and> so_backlog (sk backlog_demo 0) \<le> length (so_pending (sk backlog_demo 0))"
    by code_simp
  obtain st' where st': "net_connect 2 4 80 backlog_demo = (Inl Again, st')" "\<forall>data. fst (net_send 2 4 data st') = Inr (length data)"
    "\<And>ops. case sock_run ops st' of (log, st'') \<Rightarrow> nsk backlog_demo \<notin> bound st'' \<and> received_by (nsk backlog_demo) log = []
       \<and> buf_of st'' (nsk backlog_demo) = sent_to (nsk backlog_demo) log"
    using connect_backlog_full [OF ok, of 2 4 3 80 0] h by (fastforce simp: case_prod_beta)
  have "fst (net_send 2 4 [7, 8] st') = Inr 2" using st'(2) [rule_format, of "[7, 8]"] by simp
  then show ?thesis by (intro exI [of _ st'] conjI st'(1) st'(3))
qed

end
