(* ===== verification/Spec2Isabelle.thy ===== *)
theory Spec2Isabelle imports Signals Security Pipe PhysSmp Heap VmSpace Tty RacTerm Tmpfs TcpLife NetStack Sockets begin

text \<open>
  A verification library for RacOS, a small Unix-like operating system in Rust. All paths are under
  \<open>src/\<close>. Each theory models one part of the system and proves what makes it correct; every definition
  that models code keeps the name of the Rust item where Isabelle allows it.

  \<^bold>\<open>Conventions\<close> (\<open>RPrelude\<close>). Fixed-width integers whose wrap-around matters are words; \<open>usize\<close> indices
  and sizes are natural numbers with the range checks written out. The kernel is built with overflow
  checks, so an out-of-range index, a failed subtraction and an overflowing addition or multiplication are
  panics: an expression that can panic is an \<open>option\<close> with \<open>None\<close> for the panic (\<open>aget\<close>, \<open>aset\<close>,
  \<open>aslice\<close>, \<open>csub\<close>, \<open>cadd64\<close>, \<open>cmul64\<close>, in the collection \<open>rust_simps\<close>). Memory for vectors is assumed to be available. A \<open>Result\<close> is a sum with the error on the left. A mutable
  object is a record that operations return updated; an \<open>Arc\<close> is an address. A lock is the atomicity of
  the operation it protects, and where the code drops the lock in between, the actions of others are
  an argument. A waiting loop is a function of the list of events it sees, and what it still waits
  for is a value of its result.

  \<^bold>\<open>Interfaces\<close>. Three locales state what a client relies on. \<open>byte_queue\<close> (in \<open>RPrelude\<close>) is a bounded queue of
  bytes; the ring buffer of \<open>Pipe\<close> and the receive queue of a Unix socket in \<open>Sockets\<close> are interpretations.
  \<open>random_access\<close> (in \<open>FdTable\<close>) is a file read and written at offsets with limited room to grow; the
  inodes of \<open>Tmpfs\<close> interpret it. \<open>frame_allocator\<close> (in \<open>Phys\<close>) is an exclusive allocator of frames;
  the bitmap interprets it.

  \<^bold>\<open>Process control\<close>. \<open>Inode\<close> has the types of \<open>kernel/src/vfs/inode.rs\<close> and \<open>kernel/src/syscall/error.rs\<close>.
  \<open>Signals\<close> models \<open>kernel/src/task/signal.rs\<close>, \<open>sys_sigaction\<close> and the delivery loop
  \<open>deliver_pending_signals\<close> of \<open>syscall/handlers.rs\<close>, a recursion on the pending set and the list of resumptions.
  One return from a system call enters at most one user handler, so further signals may stay pending; the
  loop completes only when none is, SIGKILL is never handled and stays deliverable until it is taken, and every way
  the loop ends is justified by the handler table or the default action. \<open>Security\<close> models
  \<open>kernel/src/security/\<close>, \<open>sys_setuid\<close> and \<open>sys_setgid\<close>: dropped privileges never come back, and the
  execution rule is exact.

  \<^bold>\<open>Files\<close>. \<open>FdTable\<close> models \<open>kernel/src/vfs/file.rs\<close> and \<open>sys_lseek\<close>; \<open>Pipe\<close> models \<open>kernel/src/vfs/pipe.rs\<close>.
  \<open>DirTree\<close> has the lemmas on directory trees, given by the children of each node, that the operations on them
  need; \<open>Tmpfs\<close> models \<open>kernel/src/vfs/tmpfs.rs\<close>, applies them,
  and shows that the live nodes stay one tree within the byte budget, that rename moves
  exactly one entry, and that file contents round-trip up to what the budget holds.

  \<^bold>\<open>Memory\<close>. \<open>Phys\<close> models the frame allocator \<open>kernel/src/mm/phys.rs\<close> on one processor and the set-up of physical
  memory in \<open>kernel/src/main.rs\<close>. \<open>PhysSmp\<close> models its two allocations again on a machine with several
  processors: before each atomic access to the bitmap the others may claim and release frames. \<open>Heap\<close> models the
  kernel heap \<open>mm/heap.rs\<close> on top of \<open>Phys\<close>;
  \<open>VmSpace\<close> the mapping records \<open>mm/vm.rs\<close> with \<open>sys_mmap\<close> and the argument checks and record updates of
  \<open>sys_munmap\<close> and \<open>sys_mprotect\<close>; whether all pages of a new mapping got a frame and a page-table entry is an
  argument. Frames and heap blocks are never handed out twice, also when processors race, and the
  records refine a partial map from addresses to access rights.

  \<^bold>\<open>Terminals\<close>. \<open>Tty\<close> models the line discipline and the pseudo-terminals (\<open>kernel/src/tty/\<close>).
  \<open>Screen\<close>, \<open>VtCursor\<close>, \<open>VtParser\<close> and \<open>RacTerm\<close> model the terminal emulator (\<open>terminal/src/{buffer,cursor,escape,terminal}.rs\<close>):
  with fewer than \<open>10 ^ 10\<close> rows and columns and \<open>2 ^ 58\<close> cells it never panics whatever bytes it is fed; it
  decodes UTF-8, and its reports parse back.

  \<^bold>\<open>Network\<close> (\<open>kernel/src/net/\<close>). \<open>NetCodec\<close> models the packet formats \<open>{eth,arp,ipv4,udp,icmp,dns}.rs\<close>, \<open>Tcp\<close>
  the segment codec, the connection state machine and the connection table of \<open>tcp.rs\<close>, \<open>NetStack\<close> the dispatch, the
  senders and the waiting loops of \<open>stack.rs\<close>. \<open>TcpTable\<close> has the invariant of the table and that every operation
  returns and keeps it; \<open>TcpStream\<close> what one connection promises its reader and its peer, by locating
  wrapped sequence numbers relative to the initial ones; \<open>TcpLife\<close> segmentation, retransmission up to
  giving up, and two failures (an unbounded peer segment size, and connections in TIME_WAIT that keep their slot
  until the peer resets them). \<open>NetStack\<close> composes them: no frame makes the stack panic, a ping of up to
  86 bytes is answered by a frame that parses back and a longer one is dropped, and a name resolution ends. The
  network card is the list of frames sent and received. \<open>Sockets\<close> models the loopback sockets of \<open>net/mod.rs\<close>
  and the Unix socket inode of \<open>kernel/src/vfs/socket.rs\<close>: the socket table stays well typed, each connected pair
  is two FIFO byte streams, and a connect refused for a full backlog leaves the client tied to an
  endpoint that nobody can ever read.

  \<^bold>\<open>Bounds\<close>. Loops over data are structural or have a termination proof. The parser loops of \<open>dns.rs\<close> and
  \<open>tcp.rs\<close> recurse on the bytes left. The segmentation loop of \<open>tcp::send\<close> is a partial function, since
  it would not end for a segment size of zero; that it ends on every connection of the table is proved.
  The waiting loops (\<open>resolve\<close>, \<open>ping_once\<close>, blocking pipe reads) recurse on the events they are given.
  The frame allocator's retry loop has the fuel \<open>total_frames + 1\<close>, which is proved enough, with and without other
  processors. Heap sizes and addresses are plain numbers, with a lemma that no sum leaves \<open>usize\<close>.

  \<^bold>\<open>Not modelled\<close>. Boot code other than the set-up of physical memory, descriptor tables, interrupt entry, SMP start-up, device drivers, the framebuffer and
  the serial log are hardware effects. The page tables (\<open>mm/virt.rs\<close>), the scheduler, the on-disk file systems
  (\<open>racfs.rs\<close>, \<open>fat32.rs\<close>), \<open>procfs\<close>, \<open>devfs\<close>, the remaining system call handlers, the shell, the
  init daemon, the package tools, \<open>libc-lite\<close> and the user programs are left out.
\<close>

end
